(* ===== verification/Prelude.thy ===== *)
theory Prelude
  imports Main
begin

text \<open>
  Shared vocabulary of the kernel model.

  Machine integers are natural numbers with the wrap-around of the C type written out at
  every operation that can overflow (\<open>add64\<close>, \<open>sub64\<close>, \<open>add32s\<close>); pointers are
  indices or identifiers, NULL is \<open>None\<close>. An operation that returns a negative errno is a
  function into \<open>'a result\<close>, \<open>Inl\<close> carrying the errno. An operation that may fail to return
  at all (a panic of the debug build, or a walk over a cyclic list) is a function into
  \<open>option\<close>, and \<open>None\<close> is "does not return".

  Allocation by a client of \<open>kmalloc\<close> is driven by a list of outcomes: each call consumes
  one, and an exhausted list means success. Theorems quantify over the whole list, so they
  cover every pattern of allocation failures.
\<close>

named_theorems u64_simps
named_theorems kmem_simps

subsection \<open>Unsigned and signed machine arithmetic\<close>

type_synonym u64 = nat
type_synonym u32 = nat

definition U64 :: nat where
  "U64 = 2 ^ 64"

definition UINT64_MAX :: nat where
  "UINT64_MAX = 2 ^ 64 - 1"

definition add64 :: "u64 \<Rightarrow> u64 \<Rightarrow> u64" where
  "add64 a b = (a + b) mod U64"

definition sub64 :: "u64 \<Rightarrow> u64 \<Rightarrow> u64" where
  "sub64 a b = (a + (U64 - b mod U64)) mod U64"

definition mul64 :: "u64 \<Rightarrow> u64 \<Rightarrow> u64" where
  "mul64 a b = (a * b) mod U64"

text \<open>A C \<open>int\<close> after a wrapping (atomic) addition: two's complement at 32 bits.\<close>

definition wrap32s :: "int \<Rightarrow> int" where
  "wrap32s x = (x + 2 ^ 31) mod 2 ^ 32 - 2 ^ 31"

definition add32s :: "int \<Rightarrow> int \<Rightarrow> int" where
  "add32s a b = wrap32s (a + b)"

text \<open>The cast of a signed 64-bit value to \<open>uint64_t\<close>.\<close>

definition u64_of_int :: "int \<Rightarrow> u64" where
  "u64_of_int x = nat (x mod 2 ^ 64)"

text \<open>The cast of a \<open>uint64_t\<close> to a signed 64-bit type.\<close>

definition int_of_u64 :: "u64 \<Rightarrow> int" where
  "int_of_u64 x = (int x + 2 ^ 63) mod 2 ^ 64 - 2 ^ 63"

lemma U64_pos [simp]: "0 < U64"
  by (simp add: U64_def)

lemma add64_small [u64_simps]: "a + b < U64 \<Longrightarrow> add64 a b = a + b"
  by (simp add: add64_def)

lemma add64_lt [simp]: "add64 a b < U64"
  by (simp add: add64_def)

lemma sub64_small [u64_simps]: "b \<le> a \<Longrightarrow> a < U64 \<Longrightarrow> sub64 a b = a - b"
proof -
  assume ba: "b \<le> a" and a: "a < U64"
  then have "a + (U64 - b mod U64) = (a - b) + U64" by simp
  with a show "sub64 a b = a - b" by (simp add: sub64_def)
qed

lemma mul64_small [u64_simps]: "a * b < U64 \<Longrightarrow> mul64 a b = a * b"
  by (simp add: mul64_def)

lemma u64_of_int_nonneg [u64_simps]: "0 \<le> x \<Longrightarrow> x < 2 ^ 64 \<Longrightarrow> u64_of_int x = nat x"
  by (simp add: u64_of_int_def)

lemma u64_of_int_lt [simp]: "u64_of_int x < U64"
proof -
  have "x mod 2 ^ 64 < 2 ^ 64" by simp
  then have "nat (x mod 2 ^ 64) < nat (2 ^ 64)" by (simp add: nat_mono_iff)
  then show ?thesis by (simp add: u64_of_int_def U64_def)
qed

subsection \<open>Error numbers\<close>

datatype errno =
    EPERM | ENOENT | EINTR | EIO | EBADF | EAGAIN | ENOMEM | EFAULT | EEXIST | EINVAL
  | EMFILE | ENOLCK | ENOSYS | ELOOP | ERESTART | EOPNOTSUPP | ETIMEDOUT

text \<open>The numeric values of \<open>include/uapi/xos/errno.h\<close>; EWOULDBLOCK is EAGAIN there.\<close>

fun errno_code :: "errno \<Rightarrow> int" where
  "errno_code EPERM = 1"
| "errno_code ENOENT = 2"
| "errno_code EINTR = 4"
| "errno_code EIO = 5"
| "errno_code EBADF = 9"
| "errno_code EAGAIN = 11"
| "errno_code ENOMEM = 12"
| "errno_code EFAULT = 14"
| "errno_code EEXIST = 17"
| "errno_code EINVAL = 22"
| "errno_code EMFILE = 24"
| "errno_code ENOLCK = 37"
| "errno_code ENOSYS = 38"
| "errno_code ELOOP = 40"
| "errno_code ERESTART = 85"
| "errno_code EOPNOTSUPP = 95"
| "errno_code ETIMEDOUT = 110"

abbreviation EWOULDBLOCK :: errno where
  "EWOULDBLOCK \<equiv> EAGAIN"

type_synonym 'a result = "errno + 'a"

subsection \<open>Allocation outcomes\<close>

type_synonym kmem = "bool list"

fun kmalloc_ok :: "kmem \<Rightarrow> bool \<times> kmem" where
  "kmalloc_ok [] = (True, [])"
| "kmalloc_ok (b # bs) = (b, bs)"

text \<open>Outcome lists in which every allocation succeeds.\<close>

definition kmem_all_ok :: "kmem \<Rightarrow> bool" where
  "kmem_all_ok k \<longleftrightarrow> (\<forall>b \<in> set k. b)"

lemma kmem_all_ok_Nil [simp]: "kmem_all_ok []"
  by (simp add: kmem_all_ok_def)

lemma kmem_all_okD [kmem_simps]:
  "kmem_all_ok k \<Longrightarrow> fst (kmalloc_ok k) \<and> kmem_all_ok (snd (kmalloc_ok k))"
  by (cases k) (auto simp: kmem_all_ok_def)

subsection \<open>Pages\<close>

definition PAGE_SIZE :: nat where
  "PAGE_SIZE = 4096"

lemma PAGE_SIZE_pos [simp]: "0 < PAGE_SIZE"
  by (simp add: PAGE_SIZE_def)

subsection \<open>Refinement by operations\<close>

text \<open>Running a list of operations, collecting their results.\<close>

primrec run_ops :: "('o \<Rightarrow> 's \<Rightarrow> 'r \<times> 's) \<Rightarrow> 'o list \<Rightarrow> 's \<Rightarrow> 'r list \<times> 's" where
  "run_ops f [] s = ([], s)"
| "run_ops f (p # ps) s = (let (r, s) = f p s; (rs, s) = run_ops f ps s in (r # rs, s))"

text \<open>
  The contract between a component and its abstract specification: each permitted operation keeps
  the invariant, returns what the specification returns and commutes with the abstraction. Whole
  histories then agree.
\<close>

locale refinement =
  fixes inv :: "'s \<Rightarrow> bool"
    and abs :: "'s \<Rightarrow> 'a"
    and permitted :: "'s \<Rightarrow> 'o \<Rightarrow> bool"
    and cstep :: "'o \<Rightarrow> 's \<Rightarrow> 'r \<times> 's"
    and astep :: "'o \<Rightarrow> 'a \<Rightarrow> 'r \<times> 'a"
  assumes refine_step: "inv s \<Longrightarrow> permitted s p \<Longrightarrow> cstep p s = (r, s') \<Longrightarrow> inv s' \<and> astep p (abs s) = (r, abs s')"
    and permitted_step: "inv s \<Longrightarrow> permitted s p \<Longrightarrow> permitted s q \<Longrightarrow> cstep p s = (r, s') \<Longrightarrow> permitted s' q"
begin

lemma refine_run:
  assumes "inv s" and "\<forall>p \<in> set ps. permitted s p" and "run_ops cstep ps s = (rs, s')"
  shows "inv s' \<and> run_ops astep ps (abs s) = (rs, abs s')"
  using assms
proof (induction ps arbitrary: s rs)
  case (Cons p ps)
  obtain r s1 where p: "cstep p s = (r, s1)" by (cases "cstep p s")
  obtain rs1 where rs: "run_ops cstep ps s1 = (rs1, s')" "rs = r # rs1"
    using Cons.prems(3) p by (auto split: prod.splits)
  have "inv s1 \<and> astep p (abs s) = (r, abs s1)" using refine_step [OF Cons.prems(1) _ p] Cons.prems(2) by simp
  moreover have "\<forall>q \<in> set ps. permitted s1 q"
    using permitted_step [OF Cons.prems(1) _ _ p] Cons.prems(2) by simp
  ultimately show ?case using Cons.IH [OF _ _ rs(1)] rs(2) by simp
qed simp

end

end
