(* ===== verification/Bfc.thy ===== *)
theory Bfc
  imports Prelude
begin

text \<open>
  The physical page allocator of \<open>kernel/xcore/mem/alloc.c\<close>.

  The store is the array \<open>bfc_frames\<close> of page descriptors; a \<open>struct page *\<close> is its index
  there. The free list is the doubly linked, address-ordered list of free blocks threaded
  through the head descriptor of each block. The operations are translated pointer by
  pointer; a list of (start, length) blocks is their abstract view, the operations refine
  first-fit allocation and coalescing insertion on it, and both allocation entry points are
  instances of one page-allocator contract.
\<close>

subsection \<open>State\<close>

datatype page_status = PAGE_FREE | PAGE_USED | PAGE_SLAB | PAGE_RESERVED

record page =
  status :: page_status
  p_refcount :: int
  cont_page_num :: nat
  pg_prev :: "nat option"
  pg_next :: "nat option"

record bfc_state =
  bfc_frames :: "nat \<Rightarrow> page"
  bfc_free_list :: "nat option"
  used_pages :: int

subsection \<open>Operations\<close>

text \<open>One store through a page pointer.\<close>

definition set_page :: "nat \<Rightarrow> (page \<Rightarrow> page) \<Rightarrow> bfc_state \<Rightarrow> bfc_state" where
  "set_page i f s = s\<lparr>bfc_frames := (bfc_frames s)(i := f (bfc_frames s i))\<rparr>"

text \<open>The \<open>for (i < n)\<close> loop that marks an allocated run.\<close>

primrec mark_used :: "nat \<Rightarrow> nat \<Rightarrow> bfc_state \<Rightarrow> bfc_state" where
  "mark_used cur 0 s = s"
| "mark_used cur (Suc n) s =
     set_page (cur + n) (\<lambda>p. p\<lparr>status := PAGE_USED, p_refcount := 1\<rparr>) (mark_used cur n s)"

text \<open>The first-fit walk: \<open>Some None\<close> when the list ends, \<open>Some (Some (prev, cur))\<close> at a hit.\<close>

partial_function (option) bfc_search ::
  "(nat \<Rightarrow> page \<Rightarrow> bool) \<Rightarrow> (nat \<Rightarrow> page) \<Rightarrow> nat option \<Rightarrow> nat option \<Rightarrow>
     (nat option \<times> nat) option option" where
  "bfc_search fits fr prev cur =
     (if cur = None then Some None
      else if fits (the cur) (fr (the cur)) then Some (Some (prev, the cur))
      else bfc_search fits fr cur (pg_next (fr (the cur))))"

text \<open>Make \<open>prev\<close> (or the list head) point to \<open>x\<close>, and back-link from a successor.\<close>

definition link_next :: "nat option \<Rightarrow> nat option \<Rightarrow> bfc_state \<Rightarrow> bfc_state" where
  "link_next prev x s =
     (case prev of
        None \<Rightarrow> s\<lparr>bfc_free_list := x\<rparr>
      | Some p \<Rightarrow> set_page p (\<lambda>q. q\<lparr>pg_next := x\<rparr>) s)"

definition link_prev :: "nat option \<Rightarrow> nat option \<Rightarrow> bfc_state \<Rightarrow> bfc_state" where
  "link_prev x prev s =
     (case x of
        None \<Rightarrow> s
      | Some c \<Rightarrow> set_page c (\<lambda>q. q\<lparr>pg_prev := prev\<rparr>) s)"

text \<open>The body under the successful size test: exact fit, or split off the tail.\<close>

definition bfc_take :: "nat \<Rightarrow> nat option \<Rightarrow> nat \<Rightarrow> bfc_state \<Rightarrow> bfc_state" where
  "bfc_take n prev cur s =
     (let pg = bfc_frames s cur in
      if cont_page_num pg = n then
        let s = link_next prev (pg_next pg) s;
            s = link_prev (pg_next pg) prev s;
            s = mark_used cur n s
        in s\<lparr>used_pages := add32s (used_pages s) (int n)\<rparr>
      else
        let remaining = cont_page_num pg - n;
            s = set_page cur (\<lambda>q. q\<lparr>cont_page_num := n\<rparr>) s;
            s = mark_used cur n s;
            new_block = cur + n;
            s = set_page new_block
                  (\<lambda>q. q\<lparr>status := PAGE_FREE, cont_page_num := remaining,
                          pg_prev := prev, pg_next := pg_next pg\<rparr>) s;
            s = link_next prev (Some new_block) s;
            s = link_prev (pg_next pg) (Some new_block) s;
            s = set_page cur (\<lambda>q. q\<lparr>pg_prev := None, pg_next := None\<rparr>) s
        in s\<lparr>used_pages := add32s (used_pages s) (int n)\<rparr>)"

definition bfc_alloc_where ::
  "(nat \<Rightarrow> page \<Rightarrow> bool) \<Rightarrow> nat \<Rightarrow> bfc_state \<Rightarrow> (nat option \<times> bfc_state) option" where
  "bfc_alloc_where fits n s =
     (if n = 0 then Some (None, s)
      else case bfc_search fits (bfc_frames s) None (bfc_free_list s) of
             None \<Rightarrow> None
           | Some None \<Rightarrow> Some (None, s)
           | Some (Some (prev, cur)) \<Rightarrow> Some (Some cur, bfc_take n prev cur s))"

definition bfc_alloc_page :: "nat \<Rightarrow> bfc_state \<Rightarrow> (nat option \<times> bfc_state) option" where
  "bfc_alloc_page n s = bfc_alloc_where (\<lambda>_ pg. n \<le> cont_page_num pg) n s"

definition LOW_LIMIT :: nat where
  "LOW_LIMIT = 0x100000000"

definition bfc_alloc_page_low :: "nat \<Rightarrow> bfc_state \<Rightarrow> (nat option \<times> bfc_state) option" where
  "bfc_alloc_page_low n s =
     bfc_alloc_where
       (\<lambda>c pg. n \<le> cont_page_num pg \<and> add64 (mul64 c PAGE_SIZE) (mul64 n PAGE_SIZE) \<le> LOW_LIMIT)
       n s"


text \<open>
  The ordered walk of \<open>bfc_free_page\<close>: advance while \<open>cur < page\<close>. It returns the pair
  (prev, cur) between which the block is linked.
\<close>

partial_function (option) bfc_position ::
  "(nat \<Rightarrow> page) \<Rightarrow> nat \<Rightarrow> nat option \<Rightarrow> nat option \<Rightarrow> (nat option \<times> nat option) option" where
  "bfc_position fr pg prev cur =
     (if cur = None \<or> \<not> the cur < pg then Some (prev, cur)
      else bfc_position fr pg cur (pg_next (fr (the cur))))"

text \<open>Coalesce the block \<open>page\<close> with its predecessor; the merged head is the new \<open>page\<close>.\<close>

definition merge_prev :: "nat option \<Rightarrow> nat option \<Rightarrow> nat \<Rightarrow> bfc_state \<Rightarrow> nat \<times> bfc_state" where
  "merge_prev prev cur pg s =
     (case prev of
        None \<Rightarrow> (pg, s)
      | Some p \<Rightarrow>
          if p + cont_page_num (bfc_frames s p) = pg then
            let s = set_page p (\<lambda>q. q\<lparr>cont_page_num :=
                      cont_page_num q + cont_page_num (bfc_frames s pg)\<rparr>) s;
                s = set_page p (\<lambda>q. q\<lparr>pg_next := cur\<rparr>) s;
                s = link_prev cur (Some p) s
            in (p, s)
          else (pg, s))"

text \<open>Coalesce the block \<open>page\<close> with its successor.\<close>

definition merge_next :: "nat option \<Rightarrow> nat \<Rightarrow> bfc_state \<Rightarrow> bfc_state" where
  "merge_next cur pg s =
     (case cur of
        None \<Rightarrow> s
      | Some c \<Rightarrow>
          if pg + cont_page_num (bfc_frames s pg) = c then
            let cpg = bfc_frames s c;
                s = set_page pg (\<lambda>q. q\<lparr>cont_page_num := cont_page_num q + cont_page_num cpg\<rparr>) s;
                s = set_page pg (\<lambda>q. q\<lparr>pg_next := pg_next cpg\<rparr>) s
            in link_prev (pg_next cpg) (Some pg) s
          else s)"

text \<open>
  \<open>bfc_free_page\<close>: \<open>None\<close> is the panic of the debug build's ASSERT on a slab page. The second
  component is the head of the resulting block, or \<open>None\<close> for the NULL return.
\<close>

definition bfc_free_page :: "nat option \<Rightarrow> nat \<Rightarrow> bfc_state \<Rightarrow> (nat option \<times> bfc_state) option" where
  "bfc_free_page page n s =
     (case page of
        None \<Rightarrow> Some (None, s)
      | Some pg \<Rightarrow>
          if n = 0 then Some (None, s)
          else if status (bfc_frames s pg) = PAGE_SLAB then None
          else
            let s = s\<lparr>used_pages := add32s (used_pages s) (- int n)\<rparr>;
                s = set_page pg (\<lambda>q. q\<lparr>status := PAGE_FREE, cont_page_num := n\<rparr>) s
            in
            if bfc_free_list s = None then
              let s = set_page pg (\<lambda>q. q\<lparr>pg_prev := None, pg_next := None\<rparr>) s
              in Some (Some pg, s\<lparr>bfc_free_list := Some pg\<rparr>)
            else
              case bfc_position (bfc_frames s) pg None (bfc_free_list s) of
                None \<Rightarrow> None
              | Some (prev, cur) \<Rightarrow>
                  let s = set_page pg (\<lambda>q. q\<lparr>pg_prev := prev, pg_next := cur\<rparr>) s;
                      s = link_next prev (Some pg) s;
                      s = link_prev cur (Some pg) s;
                      (pg', s) = merge_prev prev cur pg s
                  in Some (Some pg', merge_next cur pg' s))"

partial_function (option) bfc_count :: "(nat \<Rightarrow> page) \<Rightarrow> nat option \<Rightarrow> nat \<Rightarrow> nat option" where
  "bfc_count fr cur npages =
     (if cur = None then Some npages
      else bfc_count fr (pg_next (fr (the cur))) (npages + cont_page_num (fr (the cur))))"

definition bfc_free_page_nums :: "bfc_state \<Rightarrow> nat option" where
  "bfc_free_page_nums s = bfc_count (bfc_frames s) (bfc_free_list s) 0"

text \<open>The walks by cases on the current pointer, as evaluation uses them.\<close>

lemma bfc_search_code [code]:
  "bfc_search fits fr prev None = Some None"
  "bfc_search fits fr prev (Some c) =
     (if fits c (fr c) then Some (Some (prev, c)) else bfc_search fits fr (Some c) (pg_next (fr c)))"
  by (simp_all add: bfc_search.simps [of fits fr prev])

lemma bfc_position_code [code]:
  "bfc_position fr pg prev None = Some (prev, None)"
  "bfc_position fr pg prev (Some c) =
     (if c < pg then bfc_position fr pg (Some c) (pg_next (fr c)) else Some (prev, Some c))"
  by (simp_all add: bfc_position.simps [of fr pg prev])

lemma bfc_count_code [code]:
  "bfc_count fr None npages = Some npages"
  "bfc_count fr (Some c) npages = bfc_count fr (pg_next (fr c)) (npages + cont_page_num (fr c))"
  by (simp_all add: bfc_count.simps [of fr _ npages])

subsection \<open>The free list as a list of blocks\<close>

text \<open>
  \<open>dll fr prev cur xs nxt\<close>: starting at \<open>cur\<close> with predecessor \<open>prev\<close>, the pointers in \<open>fr\<close>
  link exactly the descriptors \<open>xs\<close> and lead to \<open>nxt\<close>.
\<close>

fun dll :: "(nat \<Rightarrow> page) \<Rightarrow> nat option \<Rightarrow> nat option \<Rightarrow> nat list \<Rightarrow> nat option \<Rightarrow> bool" where
  "dll fr prev cur [] nxt \<longleftrightarrow> cur = nxt"
| "dll fr prev cur (x # xs) nxt \<longleftrightarrow>
     cur = Some x \<and> pg_prev (fr x) = prev \<and> dll fr (Some x) (pg_next (fr x)) xs nxt"

definition last_or :: "nat option \<Rightarrow> nat list \<Rightarrow> nat option" where
  "last_or prev xs = (if xs = [] then prev else Some (last xs))"

type_synonym blocks = "(nat \<times> nat) list"

text \<open>Blocks are non-empty, in address order, inside the frame array and never adjacent.\<close>

fun blocks_ok :: "nat \<Rightarrow> nat \<Rightarrow> blocks \<Rightarrow> bool" where
  "blocks_ok lo npages [] \<longleftrightarrow> True"
| "blocks_ok lo npages ((a, n) # bs) \<longleftrightarrow>
     lo \<le> a \<and> 0 < n \<and> a + n \<le> npages \<and> blocks_ok (Suc (a + n)) npages bs"

definition block_list :: "(nat \<Rightarrow> page) \<Rightarrow> nat list \<Rightarrow> blocks" where
  "block_list fr xs = map (\<lambda>x. (x, cont_page_num (fr x))) xs"

definition bfc_rep :: "nat \<Rightarrow> bfc_state \<Rightarrow> blocks \<Rightarrow> bool" where
  "bfc_rep npages s bs \<longleftrightarrow>
     dll (bfc_frames s) None (bfc_free_list s) (map fst bs) None \<and>
     block_list (bfc_frames s) (map fst bs) = bs \<and> blocks_ok 0 npages bs"

definition pages_of :: "blocks \<Rightarrow> nat set" where
  "pages_of bs = (\<Union>(a, n) \<in> set bs. {a..<a + n})"

text \<open>First fit on blocks.\<close>

fun first_fit :: "(nat \<Rightarrow> nat \<Rightarrow> bool) \<Rightarrow> nat \<Rightarrow> blocks \<Rightarrow> (nat \<times> blocks) option" where
  "first_fit fits n [] = None"
| "first_fit fits n ((a, m) # bs) =
     (if fits a m then Some (a, if m = n then bs else (a + n, m - n) # bs)
      else map_option (\<lambda>(p, bs'). (p, (a, m) # bs')) (first_fit fits n bs))"

text \<open>Insertion of a block in address order, coalescing with both neighbours.\<close>

fun coalesce :: "nat \<Rightarrow> nat \<Rightarrow> blocks \<Rightarrow> blocks" where
  "coalesce p n [] = [(p, n)]"
| "coalesce p n ((a, m) # bs) =
     (if p + n = a then (p, n + m) # bs else (p, n) # (a, m) # bs)"

fun insert_block :: "nat \<Rightarrow> nat \<Rightarrow> blocks \<Rightarrow> blocks" where
  "insert_block p n [] = [(p, n)]"
| "insert_block p n ((a, m) # bs) =
     (if a < p
      then if a + m = p then coalesce a (m + n) bs else (a, m) # insert_block p n bs
      else coalesce p n ((a, m) # bs))"


subsection \<open>Pointer lemmas\<close>

lemma last_or_Nil [simp]: "last_or prev [] = prev"
  and last_or_Cons [simp]: "last_or prev (x # xs) = last_or (Some x) xs"
  and last_or_snoc [simp]: "last_or prev (xs @ [x]) = Some x"
  by (simp_all add: last_or_def)

lemma dll_append [simp]:
  "dll fr prev cur (xs @ ys) nxt \<longleftrightarrow>
     (\<exists>mid. dll fr prev cur xs mid \<and> dll fr (last_or prev xs) mid ys nxt)"
  by (induction xs arbitrary: prev cur) auto

lemma dll_cong:
  "(\<And>x. x \<in> set xs \<Longrightarrow> pg_prev (fr' x) = pg_prev (fr x) \<and> pg_next (fr' x) = pg_next (fr x)) \<Longrightarrow>
     dll fr' prev cur xs nxt = dll fr prev cur xs nxt"
  by (induction xs arbitrary: prev cur) auto

lemma dll_agree:
  assumes "dll fr prev cur xs nxt" and "set xs \<inter> A = {}"
    and "\<And>i. i \<notin> A \<Longrightarrow> pg_prev (fr' i) = pg_prev (fr i) \<and> pg_next (fr' i) = pg_next (fr i)"
  shows "dll fr' prev cur xs nxt"
  using assms by (subst dll_cong [of xs fr' fr]) auto

lemma bfc_frames_set_page [simp]:
  "bfc_frames (set_page i f s) = (bfc_frames s)(i := f (bfc_frames s i))"
  and bfc_free_list_set_page [simp]: "bfc_free_list (set_page i f s) = bfc_free_list s"
  and used_pages_set_page [simp]: "used_pages (set_page i f s) = used_pages s"
  by (simp_all add: set_page_def)

lemma mark_used_frames [simp]:
  "bfc_frames (mark_used cur n s) i =
     (if cur \<le> i \<and> i < cur + n then (bfc_frames s i)\<lparr>status := PAGE_USED, p_refcount := 1\<rparr>
      else bfc_frames s i)"
  by (induction n) auto

lemma mark_used_rest [simp]:
  "bfc_free_list (mark_used cur n s) = bfc_free_list s"
  "used_pages (mark_used cur n s) = used_pages s"
  by (induction n) auto

lemma link_next_frame:
  "cont_page_num (bfc_frames (link_next prev x s) i) = cont_page_num (bfc_frames s i)"
  "pg_prev (bfc_frames (link_next prev x s) i) = pg_prev (bfc_frames s i)"
  "status (bfc_frames (link_next prev x s) i) = status (bfc_frames s i)"
  "p_refcount (bfc_frames (link_next prev x s) i) = p_refcount (bfc_frames s i)"
  "used_pages (link_next prev x s) = used_pages s"
  "prev \<noteq> Some i \<Longrightarrow> bfc_frames (link_next prev x s) i = bfc_frames s i"
  by (auto simp: link_next_def split: option.splits)

lemma link_prev_frame:
  "cont_page_num (bfc_frames (link_prev x prev s) i) = cont_page_num (bfc_frames s i)"
  "pg_next (bfc_frames (link_prev x prev s) i) = pg_next (bfc_frames s i)"
  "status (bfc_frames (link_prev x prev s) i) = status (bfc_frames s i)"
  "p_refcount (bfc_frames (link_prev x prev s) i) = p_refcount (bfc_frames s i)"
  "used_pages (link_prev x prev s) = used_pages s"
  "bfc_free_list (link_prev x prev s) = bfc_free_list s"
  "x \<noteq> Some i \<Longrightarrow> bfc_frames (link_prev x prev s) i = bfc_frames s i"
  by (auto simp: link_prev_def split: option.splits)

lemmas link_frame = link_next_frame link_prev_frame

text \<open>Redirecting the last pointer of a prefix, and the back pointer of a suffix.\<close>

lemma dll_link_next:
  assumes "dll (bfc_frames s) None (bfc_free_list s) xs mid" and "distinct xs"
  shows "dll (bfc_frames (link_next (last_or None xs) y s)) None
           (bfc_free_list (link_next (last_or None xs) y s)) xs y"
proof (cases xs rule: rev_cases)
  case Nil
  then show ?thesis by (simp add: link_next_def)
next
  case (snoc as a)
  with assms have a: "a \<notin> set as" by simp
  let ?s = "link_next (Some a) y s"
  have "dll (bfc_frames ?s) None (bfc_free_list s) as (Some a)"
    using assms snoc a by (subst dll_cong [of as _ "bfc_frames s"]) (auto simp: link_next_def)
  then show ?thesis using assms snoc a by (auto simp: link_next_def)
qed

lemma dll_link_prev:
  assumes "dll (bfc_frames s) prev cur ys None" and "distinct ys"
  shows "dll (bfc_frames (link_prev cur prev' s)) prev' cur ys None"
proof (cases ys)
  case Nil
  then show ?thesis using assms by simp
next
  case (Cons b bs)
  with assms have b: "b \<notin> set bs" and cur: "cur = Some b" by auto
  have "dll (bfc_frames (link_prev (Some b) prev' s)) (Some b) (pg_next (bfc_frames s b)) bs None"
    using assms Cons b by (subst dll_cong [of bs _ "bfc_frames s"]) (auto simp: link_prev_def)
  then show ?thesis using Cons cur by (simp add: link_prev_def)
qed

lemma bfc_search_none:
  "dll fr prev cur xs None \<Longrightarrow> (\<And>x. x \<in> set xs \<Longrightarrow> \<not> fits x (fr x)) \<Longrightarrow>
     bfc_search fits fr prev cur = Some None"
  by (induction xs arbitrary: prev cur) (simp_all add: bfc_search.simps)

lemma bfc_search_hit:
  "dll fr prev cur (xs @ x # ys) nxt \<Longrightarrow> (\<And>z. z \<in> set xs \<Longrightarrow> \<not> fits z (fr z)) \<Longrightarrow> fits x (fr x) \<Longrightarrow>
     bfc_search fits fr prev cur = Some (Some (last_or prev xs, x))"
  by (induction xs arbitrary: prev cur) (auto simp: bfc_search.simps)

lemma bfc_position_split:
  "dll fr prev cur (xs @ ys) None \<Longrightarrow> (\<And>x. x \<in> set xs \<Longrightarrow> x < pg) \<Longrightarrow> (ys \<noteq> [] \<Longrightarrow> \<not> hd ys < pg) \<Longrightarrow>
     bfc_position fr pg prev cur =
       Some (last_or prev xs, if ys = [] then None else Some (hd ys))"
proof (induction xs arbitrary: prev cur)
  case Nil
  then show ?case by (cases ys) (simp_all add: bfc_position.simps)
next
  case (Cons x xs)
  then show ?case by (auto simp: bfc_position.simps [of _ _ _ "Some x"])
qed

lemma bfc_count_dll:
  "dll fr prev cur xs None \<Longrightarrow>
     bfc_count fr cur acc = Some (acc + sum_list (map (\<lambda>x. cont_page_num (fr x)) xs))"
  by (induction xs arbitrary: prev cur acc) (simp_all add: bfc_count.simps)


subsection \<open>Block lemmas\<close>

lemma blocks_ok_mono: "blocks_ok lo np bs \<Longrightarrow> lo' \<le> lo \<Longrightarrow> blocks_ok lo' np bs"
  by (cases bs) auto

lemma blocks_ok_ge: "blocks_ok lo np bs \<Longrightarrow> (a, n) \<in> set bs \<Longrightarrow> lo \<le> a \<and> 0 < n \<and> a + n \<le> np"
  by (induction bs arbitrary: lo) (force dest: blocks_ok_mono)+

lemma blocks_ok_append:
  "blocks_ok lo np (xs @ (a, n) # ys) \<longleftrightarrow>
     blocks_ok lo np xs \<and> (\<forall>(b, m) \<in> set xs. b + m < a) \<and> lo \<le> a \<and> 0 < n \<and> a + n \<le> np \<and>
     blocks_ok (Suc (a + n)) np ys"
  by (induction lo np xs rule: blocks_ok.induct) auto

lemma blocks_ok_distinct: "blocks_ok lo np bs \<Longrightarrow> distinct (map fst bs)"
proof (induction bs arbitrary: lo)
  case (Cons b bs)
  obtain a n where b: "b = (a, n)" by (cases b)
  with Cons.prems have ok: "blocks_ok (Suc (a + n)) np bs" by simp
  have "a \<notin> set (map fst bs)" using blocks_ok_ge [OF ok] by fastforce
  with Cons.IH [OF ok] b show ?case by simp
qed simp

lemma blocks_ok_inside:
  assumes "blocks_ok lo np (xs @ (a, n) # ys)" and "0 < k" and "k \<le> n"
  shows "a + k \<notin> fst ` set (xs @ (a, n) # ys)"
proof -
  have "blocks_ok (Suc (a + n)) np ys" using assms by (simp add: blocks_ok_append)
  then have "\<forall>(b, m) \<in> set ys. a + n < b" using blocks_ok_ge by fastforce
  moreover have "\<forall>(b, m) \<in> set xs. b + m < a" using assms by (simp add: blocks_ok_append)
  ultimately show ?thesis using assms by force
qed

lemma block_list_eq:
  "block_list fr (map fst bs) = bs \<longleftrightarrow> (\<forall>a n. (a, n) \<in> set bs \<longrightarrow> cont_page_num (fr a) = n)"
  by (induction bs) (auto simp: block_list_def)

lemma bfc_rep_iff:
  "bfc_rep np s bs \<longleftrightarrow>
     dll (bfc_frames s) None (bfc_free_list s) (map fst bs) None \<and>
     (\<forall>a n. (a, n) \<in> set bs \<longrightarrow> cont_page_num (bfc_frames s a) = n) \<and> blocks_ok 0 np bs"
  by (simp add: bfc_rep_def block_list_eq)

lemma first_fit_hit:
  "(\<And>a m. (a, m) \<in> set xs \<Longrightarrow> \<not> fits a m) \<Longrightarrow> fits x m \<Longrightarrow>
     first_fit fits n (xs @ (x, m) # ys) =
       Some (x, xs @ (if m = n then ys else (x + n, m - n) # ys))"
  by (induction xs) auto

lemma first_fit_none: "(\<And>a m. (a, m) \<in> set xs \<Longrightarrow> \<not> fits a m) \<Longrightarrow> first_fit fits n xs = None"
  by (induction xs) auto

lemma first_fit_cases:
  obtains (none) "\<And>a m. (a, m) \<in> set bs \<Longrightarrow> \<not> fits a m" and "first_fit fits n bs = None"
  | (hit) xs x m ys where "bs = xs @ (x, m) # ys" and "\<And>a k. (a, k) \<in> set xs \<Longrightarrow> \<not> fits a k"
      and "fits x m" and "first_fit fits n bs = Some (x, xs @ (if m = n then ys else (x + n, m - n) # ys))"
proof (cases "\<exists>b \<in> set bs. fits (fst b) (snd b)")
  case False
  then show thesis by (intro none first_fit_none) auto
next
  case True
  then obtain xs b ys where bs: "bs = xs @ b # ys" and b: "fits (fst b) (snd b)"
    and xs: "\<forall>z \<in> set xs. \<not> fits (fst z) (snd z)"
    by (rule split_list_first_propE)
  obtain x m where "b = (x, m)" by (cases b)
  with bs b have bs': "bs = xs @ (x, m) # ys" and fit: "fits x m" by simp_all
  have xs': "\<not> fits a k" if "(a, k) \<in> set xs" for a k using xs that by force
  show thesis
    by (rule hit [OF bs' xs' fit]) (use first_fit_hit [of xs fits x m n ys] bs' xs' fit in auto)
qed

subsection \<open>Allocation refines first fit\<close>


lemma last_or_notin: "i \<notin> set xs \<Longrightarrow> last_or None xs \<noteq> Some i"
  by (auto simp: last_or_def)

lemma dll_cur_notin: "dll fr q cur ys None \<Longrightarrow> i \<notin> set ys \<Longrightarrow> cur \<noteq> Some i"
  by (cases ys) auto

text \<open>Every relinking of the allocator joins a prefix, at most one new block and a suffix.\<close>

lemma dll_splice:
  assumes pre: "dll (bfc_frames s) None (bfc_free_list s) xs mid"
    and new: "dll (bfc_frames s) (last_or None xs) y zs cur"
    and suf: "dll (bfc_frames s) q cur ys None"
    and dist: "distinct (xs @ zs @ ys)"
  defines "s' \<equiv> link_prev cur (last_or None (xs @ zs)) (link_next (last_or None xs) y s)"
  shows "dll (bfc_frames s') None (bfc_free_list s') (xs @ zs @ ys) None"
proof -
  let ?s1 = "link_next (last_or None xs) y s"
  have keep1: "bfc_frames ?s1 i = bfc_frames s i" if "i \<notin> set xs" for i
    using that by (intro link_frame last_or_notin)
  have keep2: "bfc_frames s' i = bfc_frames ?s1 i" if "i \<notin> set ys" for i
    unfolding s'_def using dll_cur_notin [OF suf that] by (rule link_frame)
  have "dll (bfc_frames ?s1) None (bfc_free_list ?s1) xs y"
    using pre dist by (intro dll_link_next) auto
  then have "dll (bfc_frames s') None (bfc_free_list ?s1) xs y"
    using dist by (rule_tac dll_agree [where A = "set ys"]) (auto simp: keep2)
  then have 1: "dll (bfc_frames s') None (bfc_free_list s') xs y"
    by (simp add: s'_def link_frame)
  have 2: "dll (bfc_frames s') (last_or None xs) y zs cur"
    using dist by (intro dll_agree [OF new, where A = "set xs \<union> set ys"]) (auto simp: keep1 keep2)
  have "dll (bfc_frames ?s1) q cur ys None"
    using dist by (intro dll_agree [OF suf, where A = "set xs"]) (auto simp: keep1)
  then have 3: "dll (bfc_frames s') (last_or None (xs @ zs)) cur ys None"
    unfolding s'_def using dist by (intro dll_link_prev) auto
  have "last_or (last_or None xs) zs = last_or None (xs @ zs)"
    by (auto simp: last_or_def)
  with 1 2 3 show ?thesis by auto
qed

lemma bfc_rep_splitD:
  assumes "bfc_rep np s (xs @ (x, m) # ys)"
  shows "dll (bfc_frames s) None (bfc_free_list s) (map fst xs) (Some x)"
    and "dll (bfc_frames s) (Some x) (pg_next (bfc_frames s x)) (map fst ys) None"
    and "cont_page_num (bfc_frames s x) = m"
    and "\<And>a k. (a, k) \<in> set xs \<union> set ys \<Longrightarrow> cont_page_num (bfc_frames s a) = k"
    and "blocks_ok 0 np (xs @ (x, m) # ys)"
    and "distinct (map fst xs @ x # map fst ys)"
    and "pg_prev (bfc_frames s x) = last_or None (map fst xs)"
  using assms blocks_ok_distinct [of 0 np "xs @ (x, m) # ys"] by (auto simp: bfc_rep_iff)

lemma bfc_take_exact:
  assumes rep: "bfc_rep np s (xs @ (x, n) # ys)"
  shows "bfc_rep np (bfc_take n (last_or None (map fst xs)) x s) (xs @ ys)"
proof -
  note D = bfc_rep_splitD [OF rep]
  let ?p = "last_or None (map fst xs)" and ?nx = "pg_next (bfc_frames s x)"
  define s1 where "s1 = link_prev ?nx ?p (link_next ?p ?nx s)"
  have fr: "bfc_frames (bfc_take n ?p x s) = bfc_frames (mark_used x n s1)"
    "bfc_free_list (bfc_take n ?p x s) = bfc_free_list s1"
    by (simp_all add: bfc_take_def D(3) s1_def Let_def)
  have "dll (bfc_frames s1) None (bfc_free_list s1) (map fst xs @ [] @ map fst ys) None"
    using D dll_splice [of s "map fst xs" "Some x" ?nx "[]" ?nx "Some x" "map fst ys"]
    by (simp add: s1_def)
  then have "dll (bfc_frames (mark_used x n s1)) None (bfc_free_list s1) (map fst (xs @ ys)) None"
    by (subst dll_cong [of _ _ "bfc_frames s1"]) auto
  moreover have "blocks_ok 0 np (xs @ ys)"
    using D(5) by (cases ys) (fastforce simp: blocks_ok_append)+
  ultimately show ?thesis
    using D(4) by (auto simp: bfc_rep_iff fr s1_def link_frame)
qed

lemma bfc_take_split:
  assumes rep: "bfc_rep np s (xs @ (x, m) # ys)" and n: "0 < n" "n < m"
  shows "bfc_rep np (bfc_take n (last_or None (map fst xs)) x s) (xs @ (x + n, m - n) # ys)"
proof -
  note D = bfc_rep_splitD [OF rep]
  let ?p = "last_or None (map fst xs)" and ?nx = "pg_next (bfc_frames s x)" and ?b = "x + n"
  define s1 where "s1 = mark_used x n (set_page x (\<lambda>q. q\<lparr>cont_page_num := n\<rparr>) s)"
  define s2 where "s2 = set_page ?b (\<lambda>q. q\<lparr>status := PAGE_FREE, cont_page_num := m - n,
                          pg_prev := ?p, pg_next := ?nx\<rparr>) s1"
  define s3 where "s3 = link_prev ?nx (Some ?b) (link_next ?p (Some ?b) s2)"
  define s4 where "s4 = set_page x (\<lambda>q. q\<lparr>pg_prev := None, pg_next := None\<rparr>) s3"
  have fr: "bfc_frames (bfc_take n ?p x s) = bfc_frames s4"
    "bfc_free_list (bfc_take n ?p x s) = bfc_free_list s4"
    using n by (simp_all add: bfc_take_def D(3) s1_def s2_def s3_def s4_def Let_def)
  have b: "?b \<notin> set (map fst xs)" "?b \<notin> set (map fst ys)" "?b \<noteq> x"
    using blocks_ok_inside [OF D(5), of n] n by auto
  have dist: "distinct (map fst xs @ [?b] @ map fst ys)" using D(6) b by auto
  have same: "pg_prev (bfc_frames s2 i) = pg_prev (bfc_frames s i) \<and>
      pg_next (bfc_frames s2 i) = pg_next (bfc_frames s i)" if "i \<noteq> ?b" for i
    using that by (auto simp: s1_def s2_def)
  have fl: "bfc_free_list s2 = bfc_free_list s" by (simp add: s1_def s2_def)
  have "dll (bfc_frames s2) None (bfc_free_list s2) (map fst xs) (Some x)"
    unfolding fl using b same by (intro dll_agree [OF D(1), where A = "{?b}"]) auto
  moreover have "dll (bfc_frames s2) (Some x) ?nx (map fst ys) None"
    using b same by (intro dll_agree [OF D(2), where A = "{?b}"]) auto
  moreover have "dll (bfc_frames s2) ?p (Some ?b) [?b] ?nx"
    by (simp add: s2_def)
  ultimately have "dll (bfc_frames s3) None (bfc_free_list s3) (map fst xs @ [?b] @ map fst ys) None"
    using dll_splice [of s2 "map fst xs" "Some x" "Some ?b" "[?b]" ?nx "Some x" "map fst ys"] dist
    by (simp add: s3_def)
  then have "dll (bfc_frames s4) None (bfc_free_list s4) (map fst xs @ [?b] @ map fst ys) None"
    using D(6) b by (subst dll_cong [of _ _ "bfc_frames s3"]) (auto simp: s4_def)
  moreover have "cont_page_num (bfc_frames s4 i) =
      (if i = ?b then m - n else if i = x then n else cont_page_num (bfc_frames s i))" for i
    using b by (simp add: s4_def s3_def s2_def s1_def link_frame)
  then have "cont_page_num (bfc_frames s4 a) = k" if "(a, k) \<in> set (xs @ (?b, m - n) # ys)" for a k
    using that D(4) [of a k] D(6) b by (auto simp: image_iff)
  moreover have "blocks_ok 0 np (xs @ (?b, m - n) # ys)"
    using D(5) n by (auto simp: blocks_ok_append intro: blocks_ok_mono)
  ultimately show ?thesis by (simp add: bfc_rep_iff fr)
qed


lemma bfc_take_frames:
  assumes "n \<le> cont_page_num (bfc_frames s x)"
  shows "status (bfc_frames (bfc_take n prev x s) i) =
      (if x \<le> i \<and> i < x + n then PAGE_USED
       else if i = x + n \<and> cont_page_num (bfc_frames s x) \<noteq> n then PAGE_FREE
       else status (bfc_frames s i))"
    and "p_refcount (bfc_frames (bfc_take n prev x s) i) =
      (if x \<le> i \<and> i < x + n then 1 else p_refcount (bfc_frames s i))"
    and "0 < n \<Longrightarrow> cont_page_num (bfc_frames (bfc_take n prev x s) i) =
      (if i = x then n
       else if i = x + n \<and> cont_page_num (bfc_frames s x) \<noteq> n then cont_page_num (bfc_frames s x) - n
       else cont_page_num (bfc_frames s i))"
    and "used_pages (bfc_take n prev x s) = add32s (used_pages s) (int n)"
  using assms by (auto simp: bfc_take_def Let_def link_frame)

text \<open>
  The refinement: an allocation whose fit test agrees with \<open>fb\<close> on the listed blocks returns,
  and computes exactly what \<open>first_fit\<close> computes on the block list.
\<close>

lemma bfc_alloc_where_rep:
  assumes rep: "bfc_rep np s bs" and n: "0 < n"
    and fits: "\<And>a m. (a, m) \<in> set bs \<Longrightarrow> fits a (bfc_frames s a) = fb a m"
    and fb: "\<And>a m. fb a m \<Longrightarrow> n \<le> m"
  shows "case first_fit fb n bs of
           None \<Rightarrow> bfc_alloc_where fits n s = Some (None, s)
         | Some (p, bs') \<Rightarrow> \<exists>prev. bfc_alloc_where fits n s = Some (Some p, bfc_take n prev p s) \<and>
             bfc_rep np (bfc_take n prev p s) bs' \<and> n \<le> cont_page_num (bfc_frames s p)"
proof (rule first_fit_cases [of bs fb n])
  assume none: "\<And>a m. (a, m) \<in> set bs \<Longrightarrow> \<not> fb a m" and ff: "first_fit fb n bs = None"
  have "bfc_search fits (bfc_frames s) None (bfc_free_list s) = Some None"
    using rep none fits by (intro bfc_search_none [of _ _ _ "map fst bs"]) (auto simp: bfc_rep_iff)
  then show ?thesis using n ff by (simp add: bfc_alloc_where_def)
next
  fix xs x m ys
  assume bs: "bs = xs @ (x, m) # ys" and xs: "\<And>a k. (a, k) \<in> set xs \<Longrightarrow> \<not> fb a k" and hit: "fb x m"
    and ff: "first_fit fb n bs = Some (x, xs @ (if m = n then ys else (x + n, m - n) # ys))"
  let ?p = "last_or None (map fst xs)"
  note D = bfc_rep_splitD [OF rep [unfolded bs]]
  have "bfc_search fits (bfc_frames s) None (bfc_free_list s) = Some (Some (?p, x))"
  proof (rule bfc_search_hit [of _ _ _ _ _ "map fst ys" None])
    show "dll (bfc_frames s) None (bfc_free_list s) (map fst xs @ x # map fst ys) None"
      using D(1,2,7) by simp
    show "fits x (bfc_frames s x)" using hit fits [of x m] bs by simp
    show "\<not> fits z (bfc_frames s z)" if z: "z \<in> set (map fst xs)" for z
    proof -
      obtain k where "(z, k) \<in> set xs" using z by auto
      then show ?thesis using xs [of z k] fits [of z k] bs by simp
    qed
  qed
  then have "bfc_alloc_where fits n s = Some (Some x, bfc_take n ?p x s)"
    using n by (simp add: bfc_alloc_where_def)
  moreover have "bfc_rep np (bfc_take n ?p x s) (xs @ (if m = n then ys else (x + n, m - n) # ys))"
  proof (cases "m = n")
    case True
    with bfc_take_exact rep bs show ?thesis by simp
  next
    case False
    with fb [OF hit] have "n < m" by simp
    with bfc_take_split rep bs n show ?thesis by simp
  qed
  moreover have "n \<le> cont_page_num (bfc_frames s x)" using D(3) fb [OF hit] by simp
  ultimately show ?thesis unfolding ff option.case prod.case by blast
qed

lemma first_fit_pages:
  assumes "first_fit fb n bs = Some (p, bs')" and "blocks_ok lo np bs" and "0 < n"
    and fb: "\<And>a m. fb a m \<Longrightarrow> n \<le> m"
  shows "{p..<p + n} \<subseteq> pages_of bs \<and> pages_of bs' = pages_of bs - {p..<p + n}"
proof (rule first_fit_cases [of bs fb n])
  fix xs x m ys
  assume bs: "bs = xs @ (x, m) # ys" and hit: "fb x m"
    and ff: "first_fit fb n bs = Some (x, xs @ (if m = n then ys else (x + n, m - n) # ys))"
  then have p: "p = x" and bs': "bs' = xs @ (if m = n then ys else (x + n, m - n) # ys)"
    using assms by auto
  have "\<forall>(b, k) \<in> set xs. b + k < x" using assms bs by (simp add: blocks_ok_append)
  then have 1: "pages_of xs \<inter> {x..<x + n} = {}" by (auto simp: pages_of_def)
  have "blocks_ok (Suc (x + m)) np ys" using assms bs by (simp add: blocks_ok_append)
  then have "\<forall>(b, k) \<in> set ys. x + m < b" using blocks_ok_ge by fastforce
  then have 2: "pages_of ys \<inter> {x..<x + m} = {}" by (force simp: pages_of_def)
  have 3: "pages_of bs = pages_of xs \<union> {x..<x + m} \<union> pages_of ys"
    "pages_of bs' = pages_of xs \<union> (if m = n then {} else {x + n..<x + m}) \<union> pages_of ys"
    using fb [OF hit] by (auto simp: pages_of_def bs bs')
  show ?thesis using 1 2 fb [OF hit] unfolding p 3 by auto
qed (use assms in auto)


subsection \<open>Freeing refines coalescing insertion\<close>

text \<open>The links and sizes of a block list, before it is coalesced.\<close>

definition bfc_linked :: "bfc_state \<Rightarrow> blocks \<Rightarrow> bool" where
  "bfc_linked s bs \<longleftrightarrow>
     dll (bfc_frames s) None (bfc_free_list s) (map fst bs) None \<and>
     (\<forall>a n. (a, n) \<in> set bs \<longrightarrow> cont_page_num (bfc_frames s a) = n)"

lemma bfc_rep_linked: "bfc_rep np s bs \<longleftrightarrow> bfc_linked s bs \<and> blocks_ok 0 np bs"
  by (auto simp: bfc_rep_iff bfc_linked_def)

lemma bfc_linked_join:
  assumes link: "bfc_linked s (xs @ (a, m) # (b, k) # ys)"
    and dist: "distinct (map fst (xs @ (a, m) # (b, k) # ys))"
    and nx: "nx = pg_next (bfc_frames s b)"
  shows "bfc_linked (link_prev nx (Some a) (set_page a (\<lambda>q. q\<lparr>pg_next := nx\<rparr>)
           (set_page a (\<lambda>q. q\<lparr>cont_page_num := m + k\<rparr>) s))) (xs @ (a, m + k) # ys)"
    (is "bfc_linked ?s' _")
proof -
  define s1 where "s1 = set_page a (\<lambda>q. q\<lparr>cont_page_num := m + k\<rparr>) s"
  let ?xs = "map fst xs @ [a]"
  have s': "?s' = link_prev nx (last_or None (?xs @ [])) (link_next (last_or None ?xs) nx s1)"
    by (simp only: s1_def link_next_def last_or_snoc append_Nil2 option.case)
  have same: "pg_prev (bfc_frames s1 i) = pg_prev (bfc_frames s i) \<and>
      pg_next (bfc_frames s1 i) = pg_next (bfc_frames s i)" for i
    by (simp add: s1_def)
  have fl: "bfc_free_list s1 = bfc_free_list s" by (simp add: s1_def)
  have all: "dll (bfc_frames s) None (bfc_free_list s) (?xs @ b # map fst ys) None"
    using link by (simp add: bfc_linked_def)
  then have pre: "dll (bfc_frames s) None (bfc_free_list s) ?xs (Some b)"
    and suf: "dll (bfc_frames s) (Some b) nx (map fst ys) None"
    by (simp_all add: nx)
  have "dll (bfc_frames s1) None (bfc_free_list s1) ?xs (Some b)"
    unfolding fl using same by (intro dll_agree [OF pre, where A = "{}"]) simp_all
  moreover have "dll (bfc_frames s1) (Some b) nx (map fst ys) None"
    using same by (intro dll_agree [OF suf, where A = "{}"]) simp_all
  ultimately have "dll (bfc_frames ?s') None (bfc_free_list ?s') (?xs @ [] @ map fst ys) None"
    unfolding s' using dist by (intro dll_splice) auto
  moreover have "cont_page_num (bfc_frames ?s' i) = (if i = a then m + k else cont_page_num (bfc_frames s i))" for i
    by (simp add: link_frame)
  ultimately show ?thesis using link dist by (auto simp: bfc_linked_def image_iff)
qed

lemma insert_block_append:
  assumes "blocks_ok lo np (xs @ ys)" and "\<forall>(a, m) \<in> set xs. a < p"
    and "ys = [] \<or> \<not> fst (hd ys) < p"
  shows "insert_block p n (xs @ ys) =
    (if xs = [] then coalesce p n ys
     else let (a, m) = last xs in
       butlast xs @ (if a + m = p then coalesce a (m + n) ys else (a, m) # coalesce p n ys))"
  using assms
proof (induction xs arbitrary: lo)
  case Nil
  then show ?case by (cases ys) auto
next
  case (Cons x xs)
  obtain a m where x: "x = (a, m)" by (cases x)
  show ?case
  proof (cases xs)
    case Nil
    with Cons.prems x show ?thesis by (cases ys) auto
  next
    case (Cons y zs)
    obtain b k where y: "y = (b, k)" by (cases y)
    have "insert_block p n (xs @ ys) = (let (a, m) = last xs in
       butlast xs @ (if a + m = p then coalesce a (m + n) ys else (a, m) # coalesce p n ys))"
      using Cons.IH [of "Suc (a + m)"] Cons.prems x local.Cons by simp
    moreover have "a + m \<noteq> p" "a < p" using Cons.prems x local.Cons y by auto
    ultimately show ?thesis using x local.Cons by (auto simp: Let_def split: prod.splits)
  qed
qed

lemma pages_of_Nil [simp]: "pages_of [] = {}"
  and pages_of_Cons [simp]: "pages_of ((a, n) # bs) = {a..<a + n} \<union> pages_of bs"
  and pages_of_append [simp]: "pages_of (xs @ ys) = pages_of xs \<union> pages_of ys"
  by (auto simp: pages_of_def)

lemma coalesce_pages: "pages_of (coalesce p n bs) = {p..<p + n} \<union> pages_of bs"
  by (cases "(p, n, bs)" rule: coalesce.cases) auto

lemma insert_block_pages: "pages_of (insert_block p n bs) = {p..<p + n} \<union> pages_of bs"
proof (induction p n bs rule: insert_block.induct)
  case (2 p n a m bs)
  then show ?case by (auto simp: coalesce_pages)
qed simp

lemma coalesce_ok:
  "blocks_ok (p + n) np bs \<Longrightarrow> lo \<le> p \<Longrightarrow> 0 < n \<Longrightarrow> p + n \<le> np \<Longrightarrow> blocks_ok lo np (coalesce p n bs)"
  by (cases "(p, n, bs)" rule: coalesce.cases) (auto simp: add.assoc)

lemma blocks_ok_gap:
  "blocks_ok lo np bs \<Longrightarrow> {p..<p + n} \<inter> pages_of bs = {} \<Longrightarrow> p \<le> lo \<Longrightarrow> blocks_ok (p + n) np bs"
proof (cases bs)
  case (Cons b bs')
  assume ok: "blocks_ok lo np bs" and disj: "{p..<p + n} \<inter> pages_of bs = {}" and p: "p \<le> lo"
  obtain c k where b: "b = (c, k)" by (cases b)
  with ok Cons p have "c \<in> pages_of bs" "p \<le> c" by auto
  with disj have "c \<notin> {p..<p + n}" by blast
  with \<open>p \<le> c\<close> have "p + n \<le> c" by simp
  with ok Cons b show ?thesis by simp
qed simp

lemma insert_block_ok:
  "blocks_ok lo np bs \<Longrightarrow> {p..<p + n} \<inter> pages_of bs = {} \<Longrightarrow> lo \<le> p \<Longrightarrow> 0 < n \<Longrightarrow> p + n \<le> np \<Longrightarrow>
     blocks_ok lo np (insert_block p n bs)"
proof (induction p n bs arbitrary: lo rule: insert_block.induct)
  case (2 p n a m bs)
  have disj: "{p..<p + n} \<inter> {a..<a + m} = {}" "{p..<p + n} \<inter> pages_of bs = {}"
    using "2.prems"(2) by (simp_all only: pages_of_Cons Int_Un_distrib Un_empty)
  have ok: "0 < m" "lo \<le> a" "a + m \<le> np" "blocks_ok (Suc (a + m)) np bs" using "2.prems"(1) by auto
  show ?case
  proof (cases "a < p")
    case True
    have "p \<in> {p..<p + n}" using "2.prems"(4) by simp
    with disj(1) have "p \<notin> {a..<a + m}" by blast
    with True have le: "a + m \<le> p" by simp
    show ?thesis
    proof (cases "a + m = p")
      case eq: True
      have "blocks_ok (p + n) np bs" using blocks_ok_gap [OF ok(4) disj(2)] eq by simp
      then show ?thesis
        using True eq ok "2.prems"(3-) coalesce_ok [of a "m + n" np bs lo]
        by (simp add: add.assoc [symmetric])
    next
      case False
      then show ?thesis using True le ok disj(2) "2.prems"(3-) "2.IH" [of "Suc (a + m)"] by simp
    qed
  next
    case False
    then have "blocks_ok p np ((a, m) # bs)" using ok by simp
    from blocks_ok_gap [OF this "2.prems"(2)] have "blocks_ok (p + n) np ((a, m) # bs)" by simp
    then show ?thesis
      using False "2.prems"(3-) coalesce_ok [of p n np "(a, m) # bs" lo] by (simp del: coalesce.simps blocks_ok.simps)
  qed
qed simp


lemma bfc_linked_split:
  assumes "bfc_linked s (xs @ (a, m) # ys)"
  shows "cont_page_num (bfc_frames s a) = m"
    and "pg_next (bfc_frames s a) = (if ys = [] then None else Some (fst (hd ys)))"
  using assms by (auto simp: bfc_linked_def) (cases ys, auto)+

lemma merge_prev_linked:
  assumes link: "bfc_linked s (xs @ (a, m) # (p, n) # ys)"
    and dist: "distinct (map fst (xs @ (a, m) # (p, n) # ys))"
    and cur: "cur = pg_next (bfc_frames s p)" and adj: "a + m = p"
  shows "\<exists>s'. merge_prev (Some a) cur p s = (a, s') \<and> bfc_linked s' (xs @ (a, m + n) # ys)"
proof -
  have c: "cont_page_num (bfc_frames s a) = m" "cont_page_num (bfc_frames s p) = n"
    using bfc_linked_split [OF link] bfc_linked_split [of s "xs @ [(a, m)]" p n ys] link by auto
  then have E: "set_page a (\<lambda>q. q\<lparr>cont_page_num := cont_page_num q + cont_page_num (bfc_frames s p)\<rparr>) s
      = set_page a (\<lambda>q. q\<lparr>cont_page_num := m + n\<rparr>) s"
    by (simp add: set_page_def)
  show ?thesis
    using bfc_linked_join [OF link dist cur, folded E] adj c by (simp add: merge_prev_def Let_def)
qed

lemma merge_next_linked:
  assumes link: "bfc_linked s (xs @ (h, k) # ys)" and dist: "distinct (map fst (xs @ (h, k) # ys))"
    and cur: "cur = (if ys = [] then None else Some (fst (hd ys)))"
  shows "bfc_linked (merge_next cur h s) (xs @ coalesce h k ys)"
proof (cases ys)
  case Nil
  with link cur show ?thesis by (simp add: merge_next_def)
next
  case (Cons y zs)
  obtain c m where y: "y = (c, m)" by (cases y)
  have k: "cont_page_num (bfc_frames s h) = k" "cont_page_num (bfc_frames s c) = m"
    using bfc_linked_split [OF link] bfc_linked_split [of s "xs @ [(h, k)]" c m zs] link Cons y by auto
  then have E: "set_page h (\<lambda>q. q\<lparr>cont_page_num := cont_page_num q + cont_page_num (bfc_frames s c)\<rparr>) s
      = set_page h (\<lambda>q. q\<lparr>cont_page_num := k + m\<rparr>) s"
    by (simp add: set_page_def)
  show ?thesis
    using bfc_linked_join [OF link [unfolded Cons y] dist [unfolded Cons y] refl, folded E] k link cur Cons y
    by (simp add: merge_next_def Let_def)
qed

lemma bfc_rep_heads: "bfc_rep np s bs \<Longrightarrow> set (map fst bs) \<subseteq> pages_of bs"
  by (auto simp: bfc_rep_iff pages_of_def) (metis (no_types, lifting) add_0 atLeastLessThan_iff
      blocks_ok_ge case_prod_conv le_refl less_add_same_cancel1)

text \<open>The insertion step of \<open>bfc_free_page\<close>, up to and including the relinking.\<close>

lemma bfc_free_insert:
  assumes link: "bfc_linked s (xs @ ys)" and dist: "distinct (map fst (xs @ (p, n) # ys))"
    and sz: "cont_page_num (bfc_frames s p) = n"
  defines "cur \<equiv> if ys = [] then None else Some (fst (hd ys))"
  defines "prev \<equiv> last_or None (map fst xs)"
  shows "bfc_linked (link_prev cur (Some p) (link_next prev (Some p)
           (set_page p (\<lambda>q. q\<lparr>pg_prev := prev, pg_next := cur\<rparr>) s))) (xs @ (p, n) # ys)"
proof -
  define s1 where "s1 = set_page p (\<lambda>q. q\<lparr>pg_prev := prev, pg_next := cur\<rparr>) s"
  define s2 where "s2 = link_prev cur (last_or None (map fst xs @ [p])) (link_next prev (Some p) s1)"
  have all: "dll (bfc_frames s) None (bfc_free_list s) (map fst xs @ map fst ys) None"
    using link by (simp add: bfc_linked_def)
  then have pre: "dll (bfc_frames s) None (bfc_free_list s) (map fst xs) cur"
    and suf: "dll (bfc_frames s) prev cur (map fst ys) None"
    by (cases ys; force simp: cur_def prev_def)+
  have p: "p \<notin> set (map fst xs)" "p \<notin> set (map fst ys)" using dist by auto
  have fl: "bfc_free_list s1 = bfc_free_list s" by (simp add: s1_def)
  have "dll (bfc_frames s1) None (bfc_free_list s1) (map fst xs) cur"
    unfolding fl using p by (intro dll_agree [OF pre, where A = "{p}"]) (auto simp: s1_def)
  moreover have "dll (bfc_frames s1) prev cur (map fst ys) None"
    using p by (intro dll_agree [OF suf, where A = "{p}"]) (auto simp: s1_def)
  moreover have "dll (bfc_frames s1) prev (Some p) [p] cur" by (simp add: s1_def)
  ultimately have "dll (bfc_frames s2) None (bfc_free_list s2) (map fst xs @ [p] @ map fst ys) None"
    unfolding s2_def prev_def using dist by (intro dll_splice) (auto simp: prev_def)
  moreover have "cont_page_num (bfc_frames s2 i) = cont_page_num (bfc_frames s i)" for i
    by (simp add: s2_def s1_def link_frame)
  ultimately have "bfc_linked s2 (xs @ (p, n) # ys)"
    using link sz by (auto simp: bfc_linked_def)
  then show ?thesis by (simp add: s2_def s1_def)
qed


lemma bfc_free_merge:
  assumes link: "bfc_linked s (xs @ (p, n) # ys)" and dist: "distinct (map fst (xs @ (p, n) # ys))"
    and ok: "blocks_ok 0 np (xs @ ys)" and xs: "\<forall>(a, m) \<in> set xs. a < p"
    and ys: "ys = [] \<or> \<not> fst (hd ys) < p"
  defines "cur \<equiv> if ys = [] then None else Some (fst (hd ys))"
  shows "\<exists>h s'. merge_prev (last_or None (map fst xs)) cur p s = (h, s') \<and>
           bfc_linked (merge_next cur h s') (insert_block p n (xs @ ys))"
proof (cases xs rule: rev_cases)
  case Nil
  then have "insert_block p n (xs @ ys) = coalesce p n ys"
    using insert_block_append [OF ok xs ys] by simp
  then show ?thesis
    using merge_next_linked [OF link dist refl] Nil by (simp add: merge_prev_def cur_def)
next
  case (snoc zs z)
  obtain a m where z: "z = (a, m)" by (cases z)
  have cur: "cur = pg_next (bfc_frames s p)"
    using bfc_linked_split(2) [OF link] by (simp add: cur_def)
  have link': "bfc_linked s (zs @ (a, m) # (p, n) # ys)" and
    dist': "distinct (map fst (zs @ (a, m) # (p, n) # ys))"
    using link dist snoc z by simp_all
  show ?thesis
  proof (cases "a + m = p")
    case True
    then have ib: "insert_block p n (xs @ ys) = zs @ coalesce a (m + n) ys"
      using insert_block_append [OF ok xs ys] snoc z by simp
    obtain s' where s': "merge_prev (Some a) cur p s = (a, s')" "bfc_linked s' (zs @ (a, m + n) # ys)"
      using merge_prev_linked [OF link' dist' cur True] by blast
    have "bfc_linked (merge_next cur a s') (zs @ coalesce a (m + n) ys)"
      using merge_next_linked [OF s'(2)] dist' by (simp add: cur_def)
    then show ?thesis using s' ib snoc z by auto
  next
    case False
    then have ib: "insert_block p n (xs @ ys) = zs @ (a, m) # coalesce p n ys"
      using insert_block_append [OF ok xs ys] snoc z by simp
    have "merge_prev (last_or None (map fst xs)) cur p s = (p, s)"
      using False snoc z bfc_linked_split(1) [OF link'] by (simp add: merge_prev_def)
    then show ?thesis
      using merge_next_linked [OF link dist refl] ib snoc z by (simp add: cur_def)
  qed
qed

text \<open>Freeing a run that is disjoint from the free pages inserts and coalesces it.\<close>

lemma bfc_free_page_rep:
  assumes rep: "bfc_rep np s bs" and n: "0 < n" and st: "status (bfc_frames s p) \<noteq> PAGE_SLAB"
    and rng: "p + n \<le> np" and disj: "{p..<p + n} \<inter> pages_of bs = {}"
  shows "\<exists>h s'. bfc_free_page (Some p) n s = Some (Some h, s') \<and> bfc_rep np s' (insert_block p n bs)"
proof -
  define s1 where "s1 = set_page p (\<lambda>q. q\<lparr>status := PAGE_FREE, cont_page_num := n\<rparr>)
    (s\<lparr>used_pages := add32s (used_pages s) (- int n)\<rparr>)"
  define xs where "xs = takeWhile (\<lambda>b. fst b < p) bs"
  define ys where "ys = dropWhile (\<lambda>b. fst b < p) bs"
  have bs: "bs = xs @ ys" by (simp add: xs_def ys_def)
  have xs: "\<forall>(a, m) \<in> set xs. a < p" by (auto simp: xs_def dest: set_takeWhileD)
  have ys: "ys = [] \<or> \<not> fst (hd ys) < p"
    using hd_dropWhile [of "\<lambda>b. fst b < p" bs] by (auto simp: ys_def)
  have ok: "blocks_ok 0 np bs" using rep by (simp add: bfc_rep_iff)
  have pn: "p \<notin> set (map fst bs)"
  proof
    assume "p \<in> set (map fst bs)"
    with bfc_rep_heads [OF rep] have "p \<in> pages_of bs" by blast
    moreover have "p \<in> {p..<p + n}" using n by simp
    ultimately show False using disj by blast
  qed
  have dist: "distinct (map fst (xs @ (p, n) # ys))"
    using blocks_ok_distinct [OF ok] pn by (simp add: bs)
  have L: "dll (bfc_frames s1) None (bfc_free_list s1) (map fst bs) None"
    using rep by (subst dll_cong [of _ _ "bfc_frames s"]) (auto simp: s1_def bfc_rep_iff)
  have "cont_page_num (bfc_frames s1 a) = k" if "(a, k) \<in> set bs" for a k
    using rep that pn by (force simp: s1_def bfc_rep_iff)
  with L have link: "bfc_linked s1 (xs @ ys)" by (simp add: bfc_linked_def bs)
  have okb: "blocks_ok 0 np (insert_block p n bs)"
    using insert_block_ok [OF ok disj _ n rng] by simp
  have unfold: "bfc_free_page (Some p) n s =
     (if bfc_free_list s1 = None then
        Some (Some p, (set_page p (\<lambda>q. q\<lparr>pg_prev := None, pg_next := None\<rparr>) s1)\<lparr>bfc_free_list := Some p\<rparr>)
      else case bfc_position (bfc_frames s1) p None (bfc_free_list s1) of
             None \<Rightarrow> None
           | Some (prev, cur) \<Rightarrow>
               let s = link_prev cur (Some p) (link_next prev (Some p)
                         (set_page p (\<lambda>q. q\<lparr>pg_prev := prev, pg_next := cur\<rparr>) s1));
                   (pg', s) = merge_prev prev cur p s
               in Some (Some pg', merge_next cur pg' s))"
    unfolding bfc_free_page_def s1_def Let_def using n st by simp
  show ?thesis
  proof (cases "bs = []")
    case True
    with link bs have "bfc_free_list s1 = None" by (simp add: bfc_linked_def)
    then show ?thesis using okb True unfold by (auto simp: bfc_rep_iff s1_def)
  next
    case False
    let ?prev = "last_or None (map fst xs)" and ?cur = "if ys = [] then None else Some (fst (hd ys))"
    have "bfc_free_list s1 \<noteq> None"
      using L False by (cases bs) auto
    moreover have "bfc_position (bfc_frames s1) p None (bfc_free_list s1) = Some (?prev, ?cur)"
      using link xs ys by (subst bfc_position_split [of _ _ _ "map fst xs" "map fst ys"])
        (auto simp: bfc_linked_def hd_map)
    moreover note bfc_free_merge [OF bfc_free_insert [OF link dist] dist ok [unfolded bs] xs ys]
    ultimately show ?thesis
      using okb unfold by (auto simp: s1_def bs bfc_rep_linked Let_def)
  qed
qed


lemma merge_prev_frame:
  "merge_prev prev cur p s = (h, s') \<Longrightarrow>
     used_pages s' = used_pages s \<and> (\<forall>i. status (bfc_frames s' i) = status (bfc_frames s i))"
  by (auto simp: merge_prev_def link_frame Let_def split: option.splits if_splits)

lemma merge_next_frame:
  "status (bfc_frames (merge_next cur p s) i) = status (bfc_frames s i)"
  "used_pages (merge_next cur p s) = used_pages s"
  by (auto simp: merge_next_def link_frame Let_def split: option.splits)

lemma bfc_free_page_frames:
  assumes "bfc_free_page (Some p) n s = Some (r, s')" and "0 < n"
  shows "status (bfc_frames s' i) = (if i = p then PAGE_FREE else status (bfc_frames s i))"
    and "used_pages s' = add32s (used_pages s) (- int n)"
  using assms
  by (auto simp: bfc_free_page_def Let_def merge_next_frame link_frame
      split: if_splits option.splits prod.splits dest!: merge_prev_frame)

subsection \<open>The page-allocator contract\<close>

text \<open>
  What a client relies on: allocation always returns, a granted run was free and is no longer,
  and a granted run can be given back. The kind \<open>'k\<close> selects the entry point.
\<close>

locale page_allocator =
  fixes inv :: "'s \<Rightarrow> bool"
    and free_pages :: "'s \<Rightarrow> nat set"
    and managed :: "nat set"
    and releasable :: "nat \<Rightarrow> 's \<Rightarrow> bool"
    and alloc :: "'k \<Rightarrow> nat \<Rightarrow> 's \<Rightarrow> (nat option \<times> 's) option"
    and release :: "nat \<Rightarrow> nat \<Rightarrow> 's \<Rightarrow> 's option"
  assumes free_managed: "inv s \<Longrightarrow> free_pages s \<subseteq> managed"
    and alloc_returns: "inv s \<Longrightarrow> \<exists>r s'. alloc k n s = Some (r, s')"
    and alloc_fails: "inv s \<Longrightarrow> alloc k n s = Some (None, s') \<Longrightarrow> s' = s"
    and alloc_grants: "inv s \<Longrightarrow> alloc k n s = Some (Some p, s') \<Longrightarrow>
      0 < n \<and> inv s' \<and> {p..<p + n} \<subseteq> free_pages s \<and> free_pages s' = free_pages s - {p..<p + n} \<and>
      releasable p s'"
    and alloc_keeps: "inv s \<Longrightarrow> alloc k n s = Some (r, s') \<Longrightarrow> releasable q s \<Longrightarrow> releasable q s'"
    and release_ok: "inv s \<Longrightarrow> 0 < n \<Longrightarrow> releasable p s \<Longrightarrow> {p..<p + n} \<subseteq> managed \<Longrightarrow>
      {p..<p + n} \<inter> free_pages s = {} \<Longrightarrow>
      \<exists>s'. release p n s = Some s' \<and> inv s' \<and> free_pages s' = free_pages s \<union> {p..<p + n} \<and>
        (\<forall>q. releasable q s \<longrightarrow> releasable q s')"

text \<open>
  Histories: any interleaving of allocations and releases of runs still held. The last
  argument is the list of runs held by clients.
\<close>

inductive page_history ::
  "('k \<Rightarrow> nat \<Rightarrow> 's \<Rightarrow> (nat option \<times> 's) option) \<Rightarrow> (nat \<Rightarrow> nat \<Rightarrow> 's \<Rightarrow> 's option) \<Rightarrow> 's \<Rightarrow> 's \<Rightarrow> blocks \<Rightarrow> bool"
  for al re s0 where
  start: "page_history al re s0 s0 []"
| grant: "page_history al re s0 s L \<Longrightarrow> al k n s = Some (Some p, s') \<Longrightarrow>
    page_history al re s0 s' ((p, n) # L)"
| refuse: "page_history al re s0 s L \<Longrightarrow> al k n s = Some (None, s') \<Longrightarrow> page_history al re s0 s' L"
| give_back: "page_history al re s0 s L \<Longrightarrow> (p, n) \<in> set L \<Longrightarrow> re p n s = Some s' \<Longrightarrow>
    page_history al re s0 s' (remove1 (p, n) L)"

text \<open>Held runs never overlap each other.\<close>

fun runs_disjoint :: "blocks \<Rightarrow> bool" where
  "runs_disjoint [] \<longleftrightarrow> True"
| "runs_disjoint ((p, n) # L) \<longleftrightarrow> {p..<p + n} \<inter> pages_of L = {} \<and> runs_disjoint L"

lemma runs_disjoint_remove1:
  assumes "runs_disjoint L" and "(p, n) \<in> set L"
  shows "runs_disjoint (remove1 (p, n) L)" and "{p..<p + n} \<inter> pages_of (remove1 (p, n) L) = {}"
    and "pages_of L = {p..<p + n} \<union> pages_of (remove1 (p, n) L)"
  using assms
proof (induction L rule: runs_disjoint.induct)
  case (2 q m L)
  { case 1 then show ?case using 2 by auto }
  { case 2 then show ?case using "2.IH" by auto }
  { case 3 then show ?case using "2.IH" by auto }
qed simp_all


context page_allocator
begin

lemma history_invariant:
  assumes "page_history alloc release s0 s L" and "inv s0"
  shows "inv s \<and> runs_disjoint L \<and> pages_of L \<subseteq> free_pages s0 \<and>
    free_pages s = free_pages s0 - pages_of L \<and> (\<forall>(p, n) \<in> set L. 0 < n \<and> releasable p s)"
  using assms
proof (induction rule: page_history.induct)
  case (grant s L k n p s')
  then have s: "inv s" by blast
  note G = alloc_grants [OF s grant(2)] alloc_keeps [OF s grant(2)]
  have "pages_of ((p, n) # L) \<subseteq> free_pages s0" "{p..<p + n} \<inter> pages_of L = {}"
    "free_pages s' = free_pages s0 - pages_of ((p, n) # L)"
    using G grant.IH [OF grant.prems] by auto
  then show ?case using G grant.IH [OF grant.prems] by auto
next
  case (refuse s L k n s')
  then show ?case using alloc_fails by blast
next
  case (give_back s L p n s')
  then have I: "inv s" "runs_disjoint L" "pages_of L \<subseteq> free_pages s0"
    "free_pages s = free_pages s0 - pages_of L" "0 < n" "releasable p s"
    "\<forall>(p, n) \<in> set L. 0 < n \<and> releasable p s"
    by auto
  note R = runs_disjoint_remove1 [OF I(2) give_back(2)]
  have "{p..<p + n} \<subseteq> managed" using R(3) I(3) free_managed [OF give_back.prems] by blast
  moreover have "{p..<p + n} \<inter> free_pages s = {}" using R(3) I(4) by auto
  ultimately have s': "inv s'" "free_pages s' = free_pages s \<union> {p..<p + n}"
    and rel: "\<And>q. releasable q s \<Longrightarrow> releasable q s'"
    using release_ok [OF I(1,5,6)] give_back(3) by auto
  have "free_pages s' = free_pages s0 - pages_of (remove1 (p, n) L)"
    unfolding s'(2) using R I(3,4) by blast
  moreover have "0 < m \<and> releasable q s'" if "(q, m) \<in> set (remove1 (p, n) L)" for q m
    using that I(7) rel set_remove1_subset [of "(p, n)" L] by blast
  moreover have "pages_of (remove1 (p, n) L) \<subseteq> free_pages s0" using R(3) I(3) by blast
  ultimately show ?case using R(1) s'(1) by blast
qed auto

lemma history_release:
  assumes "page_history alloc release s0 s L" and "inv s0" and "(p, n) \<in> set L"
  shows "\<exists>s'. release p n s = Some s'"
proof -
  note I = history_invariant [OF assms(1,2)]
  have "{p..<p + n} \<subseteq> pages_of L" using assms(3) by (auto simp: pages_of_def)
  then have "{p..<p + n} \<subseteq> managed" "{p..<p + n} \<inter> free_pages s = {}"
    using I free_managed [OF assms(2)] by auto
  then show ?thesis using release_ok [of s n p] I assms(3) by fastforce
qed

end


subsection \<open>The BFC allocator meets the contract\<close>

definition bfc_alloc :: "bool \<Rightarrow> nat \<Rightarrow> bfc_state \<Rightarrow> (nat option \<times> bfc_state) option" where
  "bfc_alloc low n s = (if low then bfc_alloc_page_low n s else bfc_alloc_page n s)"

definition bfc_release :: "nat \<Rightarrow> nat \<Rightarrow> bfc_state \<Rightarrow> bfc_state option" where
  "bfc_release p n s = map_option snd (bfc_free_page (Some p) n s)"

definition bfc_inv :: "nat \<Rightarrow> bfc_state \<Rightarrow> bool" where
  "bfc_inv np s \<longleftrightarrow> (\<exists>bs. bfc_rep np s bs)"

definition bfc_free_set :: "nat \<Rightarrow> bfc_state \<Rightarrow> nat set" where
  "bfc_free_set np s = {i. \<exists>bs. bfc_rep np s bs \<and> i \<in> pages_of bs}"

definition not_slab :: "nat \<Rightarrow> bfc_state \<Rightarrow> bool" where
  "not_slab p s \<longleftrightarrow> status (bfc_frames s p) \<noteq> PAGE_SLAB"

lemma dll_unique: "dll fr prev cur xs None \<Longrightarrow> dll fr prev cur ys None \<Longrightarrow> xs = ys"
proof (induction xs arbitrary: prev cur ys)
  case Nil
  then show ?case by (cases ys) auto
next
  case (Cons x xs)
  then show ?case by (cases ys) auto
qed

lemma bfc_rep_unique: "bfc_rep np s bs \<Longrightarrow> bfc_rep np s bs' \<Longrightarrow> bs = bs'"
  unfolding bfc_rep_def using dll_unique by metis

lemma bfc_free_set_rep: "bfc_rep np s bs \<Longrightarrow> bfc_free_set np s = pages_of bs"
  using bfc_rep_unique by (auto simp: bfc_free_set_def)

definition fit_any :: "nat \<Rightarrow> nat \<Rightarrow> nat \<Rightarrow> bool" where
  "fit_any n a m \<longleftrightarrow> n \<le> m"

definition fit_low :: "nat \<Rightarrow> nat \<Rightarrow> nat \<Rightarrow> bool" where
  "fit_low n a m \<longleftrightarrow> n \<le> m \<and> add64 (mul64 a PAGE_SIZE) (mul64 n PAGE_SIZE) \<le> LOW_LIMIT"

definition fit_kind :: "bool \<Rightarrow> nat \<Rightarrow> nat \<Rightarrow> nat \<Rightarrow> bool" where
  "fit_kind low = (if low then fit_low else fit_any)"

lemma bfc_alloc_rep:
  assumes rep: "bfc_rep np s bs" and n: "0 < n"
  shows "case first_fit (fit_kind low n) n bs of
           None \<Rightarrow> bfc_alloc low n s = Some (None, s)
         | Some (p, bs') \<Rightarrow> \<exists>prev. bfc_alloc low n s = Some (Some p, bfc_take n prev p s) \<and>
             bfc_rep np (bfc_take n prev p s) bs' \<and> n \<le> cont_page_num (bfc_frames s p)"
proof -
  define fits where "fits c pg = fit_kind low n c (cont_page_num pg)" for c and pg :: page
  have al: "bfc_alloc low n s = bfc_alloc_where fits n s"
    by (simp add: bfc_alloc_def bfc_alloc_page_def bfc_alloc_page_low_def fits_def [abs_def] fit_kind_def
        fit_low_def fit_any_def)
  show ?thesis unfolding al
    using rep by (intro bfc_alloc_where_rep [OF rep n])
      (auto simp: fits_def fit_kind_def fit_low_def fit_any_def bfc_rep_iff split: if_splits)
qed

lemma fit_kind_le: "fit_kind low n a m \<Longrightarrow> n \<le> m"
  by (auto simp: fit_kind_def fit_low_def fit_any_def split: if_splits)

lemma bfc_alloc_zero: "bfc_alloc low 0 s = Some (None, s)"
  by (simp add: bfc_alloc_def bfc_alloc_page_def bfc_alloc_page_low_def bfc_alloc_where_def)

lemma bfc_alloc_cases:
  assumes rep: "bfc_rep np s bs" and "bfc_alloc low n s = Some (r, s')"
  obtains (fail) "r = None" and "s' = s"
  | (ok) p prev bs' where "r = Some p" and "0 < n" and "s' = bfc_take n prev p s"
      and "first_fit (fit_kind low n) n bs = Some (p, bs')" and "bfc_rep np s' bs'"
      and "n \<le> cont_page_num (bfc_frames s p)"
proof (cases "n = 0")
  case True
  then show thesis using assms fail by (simp add: bfc_alloc_zero)
next
  case False
  then show thesis using bfc_alloc_rep [OF rep, of n low] assms fail ok by (auto split: option.splits)
qed

interpretation bfc: page_allocator "bfc_inv np" "bfc_free_set np" "{0..<np}" not_slab bfc_alloc bfc_release for np
proof
  fix s k n p q r s'
  assume inv: "bfc_inv np s"
  then obtain bs where rep: "bfc_rep np s bs" by (auto simp: bfc_inv_def)
  note fs = bfc_free_set_rep [OF rep]
  have ok: "blocks_ok 0 np bs" using rep by (simp add: bfc_rep_iff)
  show "bfc_free_set np s \<subseteq> {0..<np}"
    unfolding fs using blocks_ok_ge [OF ok] by (fastforce simp: pages_of_def)
  show "\<exists>r s'. bfc_alloc k n s = Some (r, s')"
    using bfc_alloc_rep [OF rep, of n k] by (cases "n = 0") (auto simp: bfc_alloc_zero split: option.splits)
  show "s' = s" if "bfc_alloc k n s = Some (None, s')"
    using bfc_alloc_cases [OF rep that] by auto
  show "0 < n \<and> bfc_inv np s' \<and> {p..<p + n} \<subseteq> bfc_free_set np s \<and>
      bfc_free_set np s' = bfc_free_set np s - {p..<p + n} \<and> not_slab p s'"
    if "bfc_alloc k n s = Some (Some p, s')"
  proof (cases rule: bfc_alloc_cases [OF rep that])
    case (2 p' prev bs')
    then have "not_slab p s'" by (simp add: not_slab_def bfc_take_frames)
    then show ?thesis
      using 2 first_fit_pages [OF 2(4) ok 2(2) fit_kind_le] fs
        bfc_free_set_rep [OF 2(5)] by (auto simp: bfc_inv_def)
  qed simp
  show "not_slab q s'" if "bfc_alloc k n s = Some (r, s')" and "not_slab q s"
    using bfc_alloc_cases [OF rep that(1)] that(2) by cases (auto simp: not_slab_def bfc_take_frames)
  show "\<exists>s'. bfc_release p n s = Some s' \<and> bfc_inv np s' \<and>
      bfc_free_set np s' = bfc_free_set np s \<union> {p..<p + n} \<and> (\<forall>q. not_slab q s \<longrightarrow> not_slab q s')"
    if n: "0 < n" and st: "not_slab p s" and sub: "{p..<p + n} \<subseteq> {0..<np}"
      and disj: "{p..<p + n} \<inter> bfc_free_set np s = {}"
  proof -
    have "p + n - 1 \<in> {p..<p + n}" using n by simp
    with sub have "p + n \<le> np" using n by auto
    then obtain h s'' where F: "bfc_free_page (Some p) n s = Some (Some h, s'')"
      "bfc_rep np s'' (insert_block p n bs)"
      using bfc_free_page_rep [OF rep n, of p] st disj fs unfolding not_slab_def by blast
    then show ?thesis
      using bfc_free_page_frames [OF F(1) n] bfc_free_set_rep [OF F(2)] fs
      by (auto simp: bfc_release_def bfc_inv_def not_slab_def insert_block_pages)
  qed
qed


subsection \<open>Canonical block lists\<close>

text \<open>
  Blocks are maximal runs, so a well-formed block list is determined by its set of pages: the
  order in which runs were freed leaves no trace.
\<close>

lemma blocks_ok_pages_ge: "blocks_ok lo np bs \<Longrightarrow> i \<in> pages_of bs \<Longrightarrow> lo \<le> i \<and> i < np"
  by (auto simp: pages_of_def dest!: blocks_ok_ge)

lemma blocks_ok_first:
  assumes "blocks_ok lo np ((a, n) # bs)"
  shows "i < a \<Longrightarrow> i \<notin> pages_of ((a, n) # bs)" and "a + n \<notin> pages_of ((a, n) # bs)"
proof -
  have ok: "blocks_ok (Suc (a + n)) np bs" using assms by simp
  show "i < a \<Longrightarrow> i \<notin> pages_of ((a, n) # bs)" "a + n \<notin> pages_of ((a, n) # bs)"
    using blocks_ok_pages_ge [OF ok, of i] blocks_ok_pages_ge [OF ok, of "a + n"] by auto
qed

lemma blocks_ok_canonical:
  "blocks_ok lo np bs \<Longrightarrow> blocks_ok lo' np' bs' \<Longrightarrow> pages_of bs = pages_of bs' \<Longrightarrow> bs = bs'"
proof (induction bs arbitrary: lo lo' bs')
  case Nil
  then show ?case by (cases bs') (force dest: blocks_ok_ge)+
next
  case (Cons b bs)
  obtain a n where b: "b = (a, n)" by (cases b)
  have "0 < n" using Cons.prems b by simp
  then have ne: "a \<in> pages_of (b # bs)" by (simp add: b)
  then obtain a' n' cs where b': "bs' = (a', n') # cs"
    using Cons.prems(3) by (cases bs') (auto simp del: pages_of_Cons)
  note F = blocks_ok_first [OF Cons.prems(1) [unfolded b]]
    and F' = blocks_ok_first [OF Cons.prems(2) [unfolded b']]
  have P: "pages_of ((a, n) # bs) = pages_of ((a', n') # cs)" using Cons.prems(3) b b' by simp
  have n: "0 < n" "0 < n'" using Cons.prems b b' by simp_all
  have "a' \<in> pages_of ((a', n') # cs)" "a \<in> pages_of ((a, n) # bs)" using n by simp_all
  then have aa: "a = a'" using F(1) [of a'] F'(1) [of a] P by (metis linorder_neqE_nat)
  have "n' \<le> n"
  proof (rule ccontr)
    assume "\<not> n' \<le> n"
    then have "a + n \<in> pages_of ((a', n') # cs)" using aa by simp
    with F(2) P show False by blast
  qed
  moreover have "n \<le> n'"
  proof (rule ccontr)
    assume "\<not> n \<le> n'"
    then have "a' + n' \<in> pages_of ((a, n) # bs)" using aa by simp
    with F'(2) P show False by blast
  qed
  ultimately have nn: "n = n'" by simp
  have ok: "blocks_ok (Suc (a + n)) np bs" "blocks_ok (Suc (a + n)) np' cs"
    using Cons.prems b b' aa nn by simp_all
  have "pages_of bs = pages_of ((a, n) # bs) - {a..<a + n}" "pages_of cs = pages_of ((a, n) # cs) - {a..<a + n}"
    using blocks_ok_pages_ge [OF ok(1)] blocks_ok_pages_ge [OF ok(2)] by fastforce+
  then have "pages_of bs = pages_of cs" using P aa nn by simp
  with Cons.IH [OF ok] show ?case by (simp add: b b' aa nn)
qed

lemma pages_of_card: "blocks_ok lo np bs \<Longrightarrow> card (pages_of bs) = sum_list (map snd bs)"
proof (induction bs arbitrary: lo)
  case (Cons b bs)
  obtain a n where b: "b = (a, n)" by (cases b)
  with Cons.prems have ok: "blocks_ok (Suc (a + n)) np bs" by simp
  have "finite (pages_of bs)" by (auto simp: pages_of_def)
  moreover have "{a..<a + n} \<inter> pages_of bs = {}" using blocks_ok_pages_ge [OF ok] by fastforce
  ultimately show ?case using Cons.IH [OF ok] by (simp add: b card_Un_disjoint)
qed simp

lemma first_fit_insert:
  assumes "first_fit (fit_kind low n) n bs = Some (p, bs')" and ok: "blocks_ok 0 np bs" and n: "0 < n"
    and ok': "blocks_ok 0 np bs'"
  shows "insert_block p n bs' = bs" and "p + n \<le> np" and "{p..<p + n} \<inter> pages_of bs' = {}"
proof -
  have P: "{p..<p + n} \<subseteq> pages_of bs \<and> pages_of bs' = pages_of bs - {p..<p + n}"
    by (rule first_fit_pages [OF assms(1) ok n]) (rule fit_kind_le)
  show d: "{p..<p + n} \<inter> pages_of bs' = {}" using P by auto
  have "p + n - 1 \<in> pages_of bs" using P n by fastforce
  then show le: "p + n \<le> np" using blocks_ok_pages_ge [OF ok] n by fastforce
  have "pages_of (insert_block p n bs') = pages_of bs" using P by (auto simp: insert_block_pages)
  then show "insert_block p n bs' = bs"
    using blocks_ok_canonical [OF insert_block_ok [OF ok' d _ n le] ok] by simp
qed



subsection \<open>Properties\<close>

text \<open>A four-block memory of eight frames on which the properties are exercised.\<close>

definition demo_page :: "page_status \<Rightarrow> nat \<Rightarrow> nat option \<Rightarrow> nat option \<Rightarrow> page" where
  "demo_page st n p q = \<lparr>status = st, p_refcount = 0, cont_page_num = n, pg_prev = p, pg_next = q\<rparr>"

definition demo_bfc :: bfc_state where
  "demo_bfc = \<lparr>bfc_frames = (\<lambda>_. demo_page PAGE_USED 1 None None)
       (1 := demo_page PAGE_FREE 2 None (Some 4), 4 := demo_page PAGE_FREE 3 (Some 1) None),
     bfc_free_list = Some 1, used_pages = 3\<rparr>"

lemma demo_bfc_rep: "bfc_rep 8 demo_bfc [(1, 2), (4, 3)]"
  by code_simp

lemma bfc_alloc_some: "map_option fst x = Some r \<Longrightarrow> x = Some (r, snd (the x))"
  by (cases x) auto

lemma demo_bfc_inv: "bfc_inv 8 demo_bfc"
  using demo_bfc_rep by (auto simp: bfc_inv_def)

text \<open>
  C1. Memory safety of the page allocator over every history of \<open>bfc_alloc_page\<close>,
  \<open>bfc_alloc_page_low\<close> and \<open>bfc_free_page\<close> calls that gives back only runs it still holds:
  the free list stays well formed, no two held runs share a page, held pages are never on the
  free list, no page is lost, and every held run can be given back.
\<close>

theorem bfc_history_safe:
  assumes "page_history bfc_alloc bfc_release s0 s L" and "bfc_inv np s0"
  shows "bfc_inv np s \<and> runs_disjoint L \<and> pages_of L \<subseteq> bfc_free_set np s0 \<and>
    bfc_free_set np s = bfc_free_set np s0 - pages_of L \<and>
    (\<forall>p n. (p, n) \<in> set L \<longrightarrow> (\<exists>s'. bfc_release p n s = Some s'))"
  using bfc.history_invariant [OF assms] bfc.history_release [OF assms] by blast

theorem bfc_history_safe_witness:
  "\<exists>s L. length L = 2 \<and> bfc_inv 8 s \<and> runs_disjoint L \<and> pages_of L \<subseteq> bfc_free_set 8 demo_bfc \<and>
    bfc_free_set 8 s = bfc_free_set 8 demo_bfc - pages_of L"
proof -
  let ?s1 = "snd (the (bfc_alloc False 3 demo_bfc))"
  have "map_option fst (bfc_alloc False 3 demo_bfc) = Some (Some 4)" by code_simp
  note 1 = bfc_alloc_some [OF this]
  have "map_option fst (bfc_alloc False 1 ?s1) = Some (Some 1)" by code_simp
  note 2 = bfc_alloc_some [OF this]
  note g = page_history.grant [where al = bfc_alloc and re = bfc_release and k = False]
  have "page_history bfc_alloc bfc_release demo_bfc ?s1 [(4, 3)]"
    by (rule g [OF page_history.start 1])
  then have "page_history bfc_alloc bfc_release demo_bfc (snd (the (bfc_alloc False 1 ?s1))) [(1, 1), (4, 3)]"
    by (rule g [OF _ 2])
  from bfc_history_safe [OF this demo_bfc_inv] show ?thesis
    by (intro exI [of _ "snd (the (bfc_alloc False 1 ?s1))"] exI [of _ "[(1, 1), (4, 3)]"]) auto
qed





text \<open>
  C3. Freeing refines coalescing insertion: giving back a run of pages that are not on the free
  list returns a block head, the new state represents the block list with the run inserted in
  address order and merged with both neighbours, and the usage counter shrinks by \<open>n\<close>.
\<close>

theorem bfc_free_page_refines:
  assumes "bfc_rep np s bs" and "0 < n" and "status (bfc_frames s p) \<noteq> PAGE_SLAB" and "p + n \<le> np"
    and "{p..<p + n} \<inter> pages_of bs = {}"
  shows "\<exists>h s'. bfc_free_page (Some p) n s = Some (Some h, s') \<and> bfc_rep np s' (insert_block p n bs) \<and>
    pages_of (insert_block p n bs) = pages_of bs \<union> {p..<p + n} \<and>
    used_pages s' = add32s (used_pages s) (- int n) \<and> status (bfc_frames s' p) = PAGE_FREE"
proof -
  obtain h s' where F: "bfc_free_page (Some p) n s = Some (Some h, s')" "bfc_rep np s' (insert_block p n bs)"
    using bfc_free_page_rep [OF assms] by blast
  then show ?thesis
    using bfc_free_page_frames [OF F(1) assms(2)] insert_block_pages [of p n bs] by auto
qed

theorem bfc_free_page_refines_witness:
  "\<exists>h s'. bfc_free_page (Some 3) 1 demo_bfc = Some (Some h, s') \<and> bfc_rep 8 s' [(1, 6)]"
proof -
  have s: "status (bfc_frames demo_bfc 3) \<noteq> PAGE_SLAB" by code_simp
  have i: "insert_block 3 1 [(1, 2), (4, 3)] = [(1, 6)]" by code_simp
  have d: "{3..<3 + 1} \<inter> pages_of [(1, 2), (4, 3)] = {}" by auto
  from bfc_free_page_refines [OF demo_bfc_rep _ s _ d, unfolded i] show ?thesis by auto
qed

text \<open>
  C4. Round trip: what \<open>bfc_alloc_page\<close> or \<open>bfc_alloc_page_low\<close> took, \<open>bfc_free_page\<close> puts back:
  freeing the granted run restores exactly the block list that was there before, splits undone.
\<close>

theorem bfc_alloc_free_roundtrip:
  assumes "bfc_rep np s bs" and "bfc_alloc low n s = Some (Some p, s')"
  shows "\<exists>h s''. bfc_free_page (Some p) n s' = Some (Some h, s'') \<and> bfc_rep np s'' bs"
  using assms
proof (cases rule: bfc_alloc_cases [OF assms])
  case (2 p' prev bs')
  have ok: "blocks_ok 0 np bs" "blocks_ok 0 np bs'" using assms(1) 2 by (simp_all add: bfc_rep_iff)
  have p: "p' = p" using 2 by simp
  note F = first_fit_insert [OF 2(4) ok(1) 2(2) ok(2), unfolded p]
  have "status (bfc_frames s' p) \<noteq> PAGE_SLAB" using 2 by (simp add: bfc_take_frames)
  from bfc_free_page_rep [OF 2(5,2) this F(2,3)] show ?thesis by (simp add: F(1))
qed simp

theorem bfc_alloc_free_roundtrip_witness:
  "\<exists>s' h s''. bfc_alloc False 1 demo_bfc = Some (Some 1, s') \<and> bfc_free_page (Some 1) 1 s' = Some (Some h, s'') \<and>
     bfc_rep 8 s'' [(1, 2), (4, 3)]"
proof -
  have "map_option fst (bfc_alloc False 1 demo_bfc) = Some (Some 1)" by code_simp
  note a = bfc_alloc_some [OF this]
  show ?thesis using a bfc_alloc_free_roundtrip [OF demo_bfc_rep a] by blast
qed

text \<open>
  C6. The DMA entry point \<open>bfc_alloc_page_low\<close>: on a machine whose frames lie in the 64-bit
  address space a granted run ends at or below 4 GiB, and it refuses only when no free block has
  room for the run below that limit.
\<close>

theorem bfc_alloc_page_low_bound:
  assumes "bfc_rep np s bs" and "np * PAGE_SIZE < U64" and "0 < n"
  shows "case bfc_alloc_page_low n s of
      None \<Rightarrow> False
    | Some (Some p, s') \<Rightarrow> (p + n) * PAGE_SIZE \<le> LOW_LIMIT \<and> {p..<p + n} \<subseteq> pages_of bs
    | Some (None, s') \<Rightarrow> s' = s \<and>
        (\<forall>a m. (a, m) \<in> set bs \<longrightarrow> n \<le> m \<longrightarrow> \<not> (a + n) * PAGE_SIZE \<le> LOW_LIMIT)"
proof -
  have al: "bfc_alloc True n s = bfc_alloc_page_low n s" by (simp add: bfc_alloc_def)
  have ok: "blocks_ok 0 np bs" using assms(1) by (simp add: bfc_rep_iff)
  have fit: "fit_kind True n a m \<longleftrightarrow> n \<le> m \<and> (a + n) * PAGE_SIZE \<le> LOW_LIMIT" if "(a, m) \<in> set bs" for a m
  proof (cases "n \<le> m")
    case True
    have "(a + n) * PAGE_SIZE \<le> np * PAGE_SIZE" using blocks_ok_ge [OF ok that] True by (intro mult_le_mono1) simp
    with assms(2) have "a * PAGE_SIZE + n * PAGE_SIZE < U64" by (simp add: add_mult_distrib)
    then have "add64 (mul64 a PAGE_SIZE) (mul64 n PAGE_SIZE) = (a + n) * PAGE_SIZE"
      by (simp add: mul64_small add64_small add_mult_distrib)
    then show ?thesis by (simp add: fit_kind_def fit_low_def)
  qed (simp add: fit_kind_def fit_low_def)
  show ?thesis
  proof (cases rule: first_fit_cases [of bs "fit_kind True n" n])
    case none
    then show ?thesis using bfc_alloc_rep [OF assms(1,3), of True] fit by (auto simp: al)
  next
    case (hit xs x m ys)
    have "{x..<x + n} \<subseteq> pages_of bs" using first_fit_pages [OF hit(4) ok assms(3)] fit_kind_le by blast
    then show ?thesis
      using hit bfc_alloc_rep [OF assms(1,3), of True] fit [of x m] by (auto simp: al)
  qed
qed

theorem bfc_alloc_page_low_bound_witness:
  "\<exists>p s'. bfc_alloc_page_low 3 demo_bfc = Some (Some p, s') \<and> (p + 3) * PAGE_SIZE \<le> LOW_LIMIT \<and> {p..<p + 3} \<subseteq> pages_of [(1, 2), (4, 3)]"
  using bfc_alloc_page_low_bound [OF demo_bfc_rep, of 3]
  by (auto simp: PAGE_SIZE_def U64_def LOW_LIMIT_def split: option.splits)

text \<open>
  \<open>bfc_free_page_nums\<close> terminates on every well-formed free list and returns the number of
  free pages.
\<close>

lemma bfc_free_page_nums_card:
  assumes "bfc_rep np s bs"
  shows "bfc_free_page_nums s = Some (card (bfc_free_set np s))"
proof -
  have "sum_list (map (\<lambda>x. cont_page_num (bfc_frames s x)) (map fst bs)) = sum_list (map snd bs)"
    using assms by (intro arg_cong [where f = sum_list]) (auto simp: bfc_rep_iff)
  moreover have "blocks_ok 0 np bs" using assms by (simp add: bfc_rep_iff)
  ultimately show ?thesis
    using assms bfc_count_dll [of "bfc_frames s" None "bfc_free_list s" "map fst bs" 0]
    unfolding bfc_free_page_nums_def bfc_free_set_rep [OF assms] by (simp add: bfc_rep_iff pages_of_card)
qed

end
