(* ===== verification/Bfc_Init.thy ===== *)
theory Bfc_Init
  imports Bfc
begin

text \<open>
  Boot-time construction of the page allocator: the bump allocator of \<open>arch/x64/paging.c\<close> and
  \<open>init_mem\<close> of \<open>kernel/xcore/mem/alloc.c\<close>, which classifies every frame from the EFI memory
  map and threads the free list through the free ones. The free list it builds satisfies the
  allocator's representation invariant, and its pages are exactly the conventional pages that
  no reservation covers.
\<close>

subsection \<open>Boot data\<close>

record efi_memory_descriptor =
  efi_type :: nat
  physical_start :: u64
  number_of_pages :: u64

record boot_info =
  mmap :: "efi_memory_descriptor list"
  kernel_phys :: u64

record intel_stolen_early_info =
  stolen_valid :: bool
  stolen_base :: u64
  stolen_size :: u64

record bump =
  bump_next_phys :: u64
  bump_disabled :: bool
  init_accounted_end :: u64

definition EfiConventionalMemory :: nat where
  "EfiConventionalMemory = 7"

definition DIRECT_MAP_MAX :: u64 where
  "DIRECT_MAP_MAX = 64 * 0x40000000"

definition AP_TRAMPOLINE_PHYS :: u64 where
  "AP_TRAMPOLINE_PHYS = 0x8000"

definition VMA_BASE :: u64 where
  "VMA_BASE = 0xFFFFFF8000000000"

text \<open>\<open>sizeof(struct page)\<close>: two 4-byte fields and the 48-byte slab arm of the union.\<close>

definition SIZEOF_PAGE :: nat where
  "SIZEOF_PAGE = 56"

definition align_up_page :: "u64 \<Rightarrow> u64" where
  "align_up_page v = add64 v (PAGE_SIZE - 1) div PAGE_SIZE * PAGE_SIZE"

definition PHY_TO_PAGE :: "u64 \<Rightarrow> nat" where
  "PHY_TO_PAGE a = a div PAGE_SIZE"

definition GET_PAGE_NUM :: "u64 \<Rightarrow> nat" where
  "GET_PAGE_NUM len = add64 len (PAGE_SIZE - 1) div PAGE_SIZE"

subsection \<open>The bump allocator\<close>

definition bump_init_phys :: "u64 \<Rightarrow> bump \<Rightarrow> bump" where
  "bump_init_phys start b = b\<lparr>bump_next_phys := align_up_page start\<rparr>"

text \<open>\<open>None\<close> is \<open>halt()\<close>: allocation after \<open>bump_disable\<close>. The value is the virtual address.\<close>

definition bump_alloc :: "nat \<Rightarrow> bump \<Rightarrow> (u64 \<times> bump) option" where
  "bump_alloc sz b =
     (if bump_disabled b then None
      else Some (add64 (bump_next_phys b) VMA_BASE,
                 b\<lparr>bump_next_phys := add64 (bump_next_phys b) (align_up_page sz)\<rparr>))"

definition bump_set_accounted :: "u64 \<Rightarrow> bump \<Rightarrow> bump" where
  "bump_set_accounted e b = b\<lparr>init_accounted_end := e\<rparr>"

text \<open>A \<open>for\<close> loop that updates the frames \<open>first .. first + n - 1\<close> below \<open>total_page_frames\<close>.\<close>

definition for_frames :: "nat \<Rightarrow> nat \<Rightarrow> nat \<Rightarrow> (page \<Rightarrow> page) \<Rightarrow> bfc_state \<Rightarrow> bfc_state" where
  "for_frames first n np f s = fold (\<lambda>i. set_page i f) [first..<min (first + n) np] s"

definition bump_disable :: "nat \<Rightarrow> bump \<Rightarrow> bfc_state \<Rightarrow> bump \<times> bfc_state" where
  "bump_disable np b s =
     (let e = bump_next_phys b;
          s = (if init_accounted_end b < e then
                 let idx_start = PHY_TO_PAGE (align_up_page (init_accounted_end b));
                     idx_end = PHY_TO_PAGE (align_up_page e)
                 in for_frames idx_start (idx_end - idx_start) np
                      (\<lambda>p. p\<lparr>status := PAGE_USED, p_refcount := 1\<rparr>) s
               else s)
      in (b\<lparr>bump_disabled := True\<rparr>, s))"

subsection \<open>Classifying the frames\<close>

text \<open>Step 1: the end of the highest conventional descriptor, capped at the direct map.\<close>

definition max_phys_addr :: "efi_memory_descriptor list \<Rightarrow> u64" where
  "max_phys_addr ds =
     min (fold (\<lambda>d m. if efi_type d = EfiConventionalMemory
                      then max m (add64 (physical_start d) (mul64 (number_of_pages d) 4096)) else m) ds 0)
       DIRECT_MAP_MAX"

text \<open>Step 4: every frame starts RESERVED.\<close>

definition reserve_all :: "nat \<Rightarrow> bfc_state \<Rightarrow> bfc_state" where
  "reserve_all np s =
     for_frames 0 np np
       (\<lambda>_. \<lparr>status = PAGE_RESERVED, p_refcount = 0, cont_page_num = 1, pg_prev = None, pg_next = None\<rparr>) s"

text \<open>Step 5: conventional memory becomes FREE.\<close>

definition mark_free :: "nat \<Rightarrow> efi_memory_descriptor \<Rightarrow> bfc_state \<Rightarrow> bfc_state" where
  "mark_free np d s =
     (if efi_type d = EfiConventionalMemory then
        for_frames (PHY_TO_PAGE (align_up_page (physical_start d)))
          (GET_PAGE_NUM (mul64 (number_of_pages d) 4096)) np (\<lambda>p. p\<lparr>status := PAGE_FREE\<rparr>) s
      else s)"

text \<open>Step 5b and the stolen-memory reservation.\<close>

definition reserve_run :: "nat \<Rightarrow> nat \<Rightarrow> nat \<Rightarrow> bfc_state \<Rightarrow> bfc_state" where
  "reserve_run np first n s =
     for_frames first n np (\<lambda>p. p\<lparr>status := PAGE_RESERVED, p_refcount := 0\<rparr>) s"

definition reserve_stolen :: "nat \<Rightarrow> intel_stolen_early_info \<Rightarrow> bfc_state \<Rightarrow> bfc_state" where
  "reserve_stolen np st s =
     (if stolen_valid st
      then reserve_run np (PHY_TO_PAGE (stolen_base st)) (stolen_size st div PAGE_SIZE) s else s)"

text \<open>Step 8: the kernel image and everything up to the bump frontier become USED.\<close>

definition mark_kernel :: "nat \<Rightarrow> u64 \<Rightarrow> u64 \<Rightarrow> bfc_state \<Rightarrow> bfc_state" where
  "mark_kernel np used_start used_end s =
     (let idx_start = PHY_TO_PAGE used_start;
          idx_end = PHY_TO_PAGE (align_up_page used_end)
      in for_frames idx_start (idx_end - idx_start) np
           (\<lambda>p. p\<lparr>status := PAGE_USED, p_refcount := 1\<rparr>) s)"

subsection \<open>Threading the free list\<close>

text \<open>
  Step 9 is a two-state machine over the frames. \<open>bl_cur\<close> is the C \<open>struct page **cur_page\<close>:
  \<open>None\<close> is \<open>&bfc_free_list\<close>, \<open>Some p\<close> is \<open>&frames[p].bfc.next\<close>.
\<close>

record builder =
  bl_state :: nat
  bl_prev :: "nat option"
  bl_cur :: "nat option"
  bl_cont :: nat

definition deref :: "nat option \<Rightarrow> bfc_state \<Rightarrow> nat option" where
  "deref cur s = (case cur of None \<Rightarrow> bfc_free_list s | Some p \<Rightarrow> pg_next (bfc_frames s p))"

definition store_cont :: "builder \<Rightarrow> bfc_state \<Rightarrow> bfc_state" where
  "store_cont b s = set_page (the (deref (bl_cur b) s)) (\<lambda>p. p\<lparr>cont_page_num := bl_cont b\<rparr>) s"

definition build_step :: "nat \<Rightarrow> builder \<times> bfc_state \<Rightarrow> builder \<times> bfc_state" where
  "build_step i bs =
     (let (b, s) = bs; st = status (bfc_frames s i) in
      if bl_state b = 0 then
        if st = PAGE_FREE then
          let s = link_next (bl_cur b) (Some i) s;
              s = set_page (the (deref (bl_cur b) s)) (\<lambda>p. p\<lparr>pg_prev := bl_prev b\<rparr>) s
          in (b\<lparr>bl_state := 1, bl_prev := deref (bl_cur b) s, bl_cont := 1\<rparr>, s)
        else (b, s)
      else
        if st \<noteq> PAGE_FREE then
          let s = store_cont b s
          in (b\<lparr>bl_state := 0, bl_cont := 0, bl_cur := deref (bl_cur b) s\<rparr>, s)
        else (b\<lparr>bl_cont := bl_cont b + 1\<rparr>, s))"

definition build_free_list :: "nat \<Rightarrow> bfc_state \<Rightarrow> bfc_state" where
  "build_free_list np s =
     (let (b, s) = fold build_step [0..<np]
                     (\<lparr>bl_state = 0, bl_prev = None, bl_cur = None, bl_cont = 0\<rparr>, s)
      in if bl_state b = 1 then store_cont b s else s)"

text \<open>
  \<open>init_mem\<close>: the number of frames, the bump allocator and the allocator state after boot.
  \<open>s\<close> is the memory before boot, with whatever the frame array holds.
\<close>

definition init_mem ::
  "boot_info \<Rightarrow> u64 \<Rightarrow> intel_stolen_early_info \<Rightarrow> bump \<Rightarrow> bfc_state \<Rightarrow> (nat \<times> bump \<times> bfc_state) option" where
  "init_mem bi early_bump_end stolen b s =
     (let np = GET_PAGE_NUM (max_phys_addr (mmap bi));
          b = bump_init_phys early_bump_end b
      in case bump_alloc (mul64 np SIZEOF_PAGE) b of
           None \<Rightarrow> None
         | Some (frames, b) \<Rightarrow>
             let s = reserve_all np s;
                 s = fold (mark_free np) (mmap bi) s;
                 s = reserve_run np (PHY_TO_PAGE AP_TRAMPOLINE_PHYS) 1 s;
                 s = reserve_stolen np stolen s;
                 s = mark_kernel np (kernel_phys bi) (bump_next_phys b) s;
                 b = bump_set_accounted (bump_next_phys b) b
             in Some (np, b, build_free_list np s))"


subsection \<open>The free list that is built\<close>

lemma for_frames_frames [simp]:
  "bfc_frames (for_frames a n np f s) i =
     (if a \<le> i \<and> i < a + n \<and> i < np then f (bfc_frames s i) else bfc_frames s i)"
  and for_frames_rest [simp]: "bfc_free_list (for_frames a n np f s) = bfc_free_list s"
    "used_pages (for_frames a n np f s) = used_pages s"
proof -
  have F: "bfc_frames (fold (\<lambda>i. set_page i f) [a..<m] s) i =
      (if a \<le> i \<and> i < m then f (bfc_frames s i) else bfc_frames s i) \<and>
    bfc_free_list (fold (\<lambda>i. set_page i f) [a..<m] s) = bfc_free_list s \<and>
    used_pages (fold (\<lambda>i. set_page i f) [a..<m] s) = used_pages s" for m
    by (induction m) (auto simp: le_Suc_eq)
  show "bfc_frames (for_frames a n np f s) i =
     (if a \<le> i \<and> i < a + n \<and> i < np then f (bfc_frames s i) else bfc_frames s i)"
    "bfc_free_list (for_frames a n np f s) = bfc_free_list s"
    "used_pages (for_frames a n np f s) = used_pages s"
    using F [of "min (a + n) np"] by (auto simp: for_frames_def)
qed

lemma deref_link_next [simp]: "deref cur (link_next cur x s) = x"
  by (simp add: deref_def link_next_def split: option.splits)

lemma deref_set_page:
  "(\<And>q. pg_next (f q) = pg_next q) \<Longrightarrow> deref cur (set_page i f s) = deref cur s"
  by (simp add: deref_def split: option.splits)

lemma blocks_ok_le_np: "blocks_ok lo np bs \<Longrightarrow> np \<le> np' \<Longrightarrow> blocks_ok lo np' bs"
  by (induction lo np bs rule: blocks_ok.induct) auto

lemma deref_dll:
  "dll (bfc_frames s) None (bfc_free_list s) xs nxt \<Longrightarrow> deref (last_or None xs) s = nxt"
  by (cases xs rule: rev_cases) (auto simp: deref_def)

text \<open>
  The invariant after the first \<open>i\<close> frames: in state 0 the blocks are complete and closed, in
  state 1 the last block is still open, ends at \<open>i\<close>, and has no length stored yet.
\<close>

definition build_inv :: "(nat \<Rightarrow> page) \<Rightarrow> nat \<Rightarrow> nat \<Rightarrow> builder \<Rightarrow> bfc_state \<Rightarrow> blocks \<Rightarrow> bool" where
  "build_inv fr0 np i b s bs \<longleftrightarrow>
     (\<forall>j. status (bfc_frames s j) = status (fr0 j)) \<and>
     (\<forall>j. i \<le> j \<longrightarrow> j < np \<longrightarrow> pg_next (bfc_frames s j) = None) \<and>
     dll (bfc_frames s) None (bfc_free_list s) (map fst bs) None \<and>
     blocks_ok 0 i bs \<and> pages_of bs = {j. j < i \<and> status (fr0 j) = PAGE_FREE} \<and>
     bl_prev b = last_or None (map fst bs) \<and>
     (if bl_state b = 0
      then bl_cur b = bl_prev b \<and> (\<forall>a n. (a, n) \<in> set bs \<longrightarrow> a + n < i \<and> cont_page_num (bfc_frames s a) = n)
      else bl_state b = 1 \<and> (\<exists>bs0 p. bs = bs0 @ [(p, bl_cont b)] \<and> p + bl_cont b = i \<and>
             bl_cur b = last_or None (map fst bs0) \<and>
             (\<forall>a n. (a, n) \<in> set bs0 \<longrightarrow> cont_page_num (bfc_frames s a) = n)))"

lemma build_inv_store:
  assumes "build_inv fr0 np i b s bs" and "bl_state b \<noteq> 0"
  shows "bfc_linked (store_cont b s) bs" and "deref (bl_cur b) (store_cont b s) = last_or None (map fst bs)"
    and "\<And>j. status (bfc_frames (store_cont b s) j) = status (bfc_frames s j)"
    and "\<And>j. pg_next (bfc_frames (store_cont b s) j) = pg_next (bfc_frames s j)"
proof -
  obtain bs0 p where bs: "bs = bs0 @ [(p, bl_cont b)]" and cur: "bl_cur b = last_or None (map fst bs0)"
    and c: "\<And>a n. (a, n) \<in> set bs0 \<Longrightarrow> cont_page_num (bfc_frames s a) = n"
    using assms unfolding build_inv_def by (auto split: if_splits)
  have L: "dll (bfc_frames s) None (bfc_free_list s) (map fst bs) None" and ok: "blocks_ok 0 i bs"
    using assms by (simp_all add: build_inv_def)
  have p: "p \<notin> fst ` set bs0" using blocks_ok_distinct [OF ok] by (simp add: bs)
  have d: "deref (bl_cur b) s = Some p" using L deref_dll [of s "map fst bs0" "Some p"] by (simp add: bs cur)
  have s': "store_cont b s = set_page p (\<lambda>q. q\<lparr>cont_page_num := bl_cont b\<rparr>) s"
    by (simp add: store_cont_def d)
  show st: "status (bfc_frames (store_cont b s) j) = status (bfc_frames s j)"
    "pg_next (bfc_frames (store_cont b s) j) = pg_next (bfc_frames s j)" for j
    by (simp_all add: s')
  have L': "dll (bfc_frames (store_cont b s)) None (bfc_free_list (store_cont b s)) (map fst bs) None"
    using L by (subst dll_cong [of _ _ "bfc_frames s"]) (simp_all add: s')
  have "cont_page_num (bfc_frames (store_cont b s) a) = n" if "(a, n) \<in> set bs" for a n
    using that c p by (auto simp: s' bs image_iff)
  with L' show "bfc_linked (store_cont b s) bs" by (simp add: bfc_linked_def)
  have "deref (bl_cur b) (store_cont b s) = Some p"
    using d by (auto simp: s' deref_def split: option.splits)
  then show "deref (bl_cur b) (store_cont b s) = last_or None (map fst bs)" by (simp add: bs)
qed

lemma build_step_open:
  assumes I: "build_inv fr0 np i b s bs" and i: "i < np" and st: "bl_state b = 0"
    and F: "status (fr0 i) = PAGE_FREE" and e: "build_step i (b, s) = (b', s')"
  shows "build_inv fr0 np (Suc i) b' s' (bs @ [(i, 1)])"
proof -
  let ?xs = "map fst bs"
  have status: "\<And>j. status (bfc_frames s j) = status (fr0 j)"
    and nx: "\<And>j. i \<le> j \<Longrightarrow> j < np \<Longrightarrow> pg_next (bfc_frames s j) = None"
    and L: "dll (bfc_frames s) None (bfc_free_list s) ?xs None" and ok: "blocks_ok 0 i bs"
    and P: "pages_of bs = {j. j < i \<and> status (fr0 j) = PAGE_FREE}"
    and cur: "bl_prev b = last_or None ?xs" "bl_cur b = last_or None ?xs"
    and c: "\<And>a n. (a, n) \<in> set bs \<Longrightarrow> a + n < i \<and> cont_page_num (bfc_frames s a) = n"
    using I st by (auto simp: build_inv_def)
  define s1 where "s1 = link_next (last_or None ?xs) (Some i) s"
  have s': "s' = set_page i (\<lambda>p. p\<lparr>pg_prev := last_or None ?xs\<rparr>) s1"
    and b': "b' = b\<lparr>bl_state := 1, bl_prev := Some i, bl_cont := 1\<rparr>"
    using e st F by (simp_all add: build_step_def Let_def status cur deref_set_page s1_def)
  have lt: "x < i" if "x \<in> set ?xs" for x using that blocks_ok_ge [OF ok] by fastforce
  have ni: "i \<notin> set ?xs" using lt by blast
  have keep: "bfc_frames s1 j = bfc_frames s j" if "i \<le> j" for j
    unfolding s1_def using that lt by (intro link_next_frame(6) last_or_notin) force
  have L1: "dll (bfc_frames s1) None (bfc_free_list s1) ?xs (Some i)"
    unfolding s1_def by (rule dll_link_next [OF L blocks_ok_distinct [OF ok]])
  have "dll (bfc_frames s') None (bfc_free_list s') ?xs (Some i)"
    using L1 ni by (subst dll_cong [of _ _ "bfc_frames s1"]) (auto simp: s')
  then have L': "dll (bfc_frames s') None (bfc_free_list s') (map fst (bs @ [(i, 1)])) None"
    using keep nx i by (simp add: s')
  have okb: "blocks_ok 0 (Suc i) (bs @ [(i, 1)])"
    using blocks_ok_le_np [OF ok] c by (auto simp: blocks_ok_append)
  have P': "pages_of (bs @ [(i, 1)]) = {j. j < Suc i \<and> status (fr0 j) = PAGE_FREE}"
    using P F by (auto simp: pages_of_def less_Suc_eq)
  have cont: "cont_page_num (bfc_frames s' a) = n" if "(a, n) \<in> set bs" for a n
    using c that ni by (auto simp: s' s1_def link_next_frame)
  have st': "status (bfc_frames s' j) = status (fr0 j)" for j
    using status by (simp add: s' s1_def link_next_frame)
  have nx': "pg_next (bfc_frames s' j) = None" if "Suc i \<le> j" and "j < np" for j
    using nx keep that by (simp add: s')
  show ?thesis
    unfolding build_inv_def using L' okb P' cont st' nx' cur(2) by (auto simp: b')
qed


lemma build_step_extend:
  assumes I: "build_inv fr0 np i b s bs" and st: "bl_state b \<noteq> 0"
    and F: "status (fr0 i) = PAGE_FREE" and e: "build_step i (b, s) = (b', s')"
  shows "\<exists>bs'. build_inv fr0 np (Suc i) b' s' bs'"
proof -
  obtain bs0 p where bs: "bs = bs0 @ [(p, bl_cont b)]" and pi: "p + bl_cont b = i"
    and cur: "bl_cur b = last_or None (map fst bs0)"
    and c: "\<forall>a n. (a, n) \<in> set bs0 \<longrightarrow> cont_page_num (bfc_frames s a) = n"
    using I st unfolding build_inv_def by (auto split: if_splits)
  have s': "s' = s" and b': "b' = b\<lparr>bl_cont := Suc (bl_cont b)\<rparr>"
    using e st F I by (auto simp: build_step_def build_inv_def)
  have I': "blocks_ok 0 i bs" "pages_of bs = {j. j < i \<and> status (fr0 j) = PAGE_FREE}"
    using I by (simp_all add: build_inv_def)
  have ok: "blocks_ok 0 (Suc i) (bs0 @ [(p, Suc (bl_cont b))])"
    using I'(1) pi blocks_ok_le_np [of 0 i bs0 "Suc i"] by (auto simp: bs blocks_ok_append)
  have "pages_of (bs0 @ [(p, Suc (bl_cont b))]) = insert i (pages_of bs)"
    using pi by (auto simp: bs pages_of_def)
  then have P: "pages_of (bs0 @ [(p, Suc (bl_cont b))]) = {j. j < Suc i \<and> status (fr0 j) = PAGE_FREE}"
    using I'(2) F by (auto simp: less_Suc_eq)
  have "build_inv fr0 np (Suc i) b' s' (bs0 @ [(p, Suc (bl_cont b))])"
    using I st pi cur c ok P unfolding build_inv_def s' b' by (auto simp: bs)
  then show ?thesis by blast
qed

lemma build_step_closed:
  assumes I: "build_inv fr0 np i b s bs"
    and F: "status (fr0 i) \<noteq> PAGE_FREE" and e: "build_step i (b, s) = (b', s')"
  shows "build_inv fr0 np (Suc i) b' s' bs"
proof -
  have I': "blocks_ok 0 i bs" "pages_of bs = {j. j < i \<and> status (fr0 j) = PAGE_FREE}"
    using I by (simp_all add: build_inv_def)
  have P: "pages_of bs = {j. j < Suc i \<and> status (fr0 j) = PAGE_FREE}"
    using I'(2) F by (auto simp: less_Suc_eq)
  have ok: "blocks_ok 0 (Suc i) bs" using blocks_ok_le_np [OF I'(1)] by simp
  have le: "a + n \<le> i" if "(a, n) \<in> set bs" for a n using blocks_ok_ge [OF I'(1) that] by simp
  show ?thesis
  proof (cases "bl_state b = 0")
    case True
    then have "s' = s" "b' = b" using e F I by (simp_all add: build_step_def build_inv_def)
    then show ?thesis using I ok P True unfolding build_inv_def by (auto dest: le)
  next
    case False
    note S = build_inv_store [OF I False]
    have s': "s' = store_cont b s"
      and b': "b' = b\<lparr>bl_state := 0, bl_cont := 0, bl_cur := last_or None (map fst bs)\<rparr>"
      using e F False I S(2) by (simp_all add: build_step_def build_inv_def Let_def)
    show ?thesis using I ok P S(1,3,4) unfolding build_inv_def s' b' bfc_linked_def
      by (auto dest: le simp: less_Suc_eq_le)
  qed
qed

lemma build_free_list_rep:
  assumes "bfc_free_list s = None" and "\<And>j. j < np \<Longrightarrow> pg_next (bfc_frames s j) = None"
  shows "\<exists>bs. bfc_rep np (build_free_list np s) bs \<and>
           pages_of bs = {j. j < np \<and> status (bfc_frames s j) = PAGE_FREE}"
proof -
  let ?b0 = "\<lparr>bl_state = 0, bl_prev = None, bl_cur = None, bl_cont = 0\<rparr>"
  have H: "\<exists>bs. case fold build_step [0..<i] (?b0, s) of (b, s') \<Rightarrow> build_inv (bfc_frames s) np i b s' bs"
    if "i \<le> np" for i
    using that
  proof (induction i)
    case 0
    then show ?case using assms by (auto simp: build_inv_def intro!: exI [of _ "[]"])
  next
    case (Suc i)
    obtain b s1 where f: "fold build_step [0..<i] (?b0, s) = (b, s1)" by fastforce
    obtain b' s' where e: "build_step i (b, s1) = (b', s')" by fastforce
    from Suc f obtain bs where "build_inv (bfc_frames s) np i b s1 bs" by auto
    then have "\<exists>bs. build_inv (bfc_frames s) np (Suc i) b' s' bs"
      using build_step_open [OF _ _ _ _ e] build_step_extend [OF _ _ _ e] build_step_closed [OF _ _ e] Suc.prems
      by (cases "status (bfc_frames s i) = PAGE_FREE"; cases "bl_state b = 0") (blast intro: Suc_le_lessD)+
    then show ?case by (simp add: f e)
  qed
  obtain b s' where f: "fold build_step [0..<np] (?b0, s) = (b, s')" by fastforce
  with H [of np] obtain bs where I: "build_inv (bfc_frames s) np np b s' bs" by auto
  have "bfc_linked (build_free_list np s) bs"
  proof (cases "bl_state b = 0")
    case True
    then show ?thesis using I by (simp add: build_free_list_def f build_inv_def bfc_linked_def)
  next
    case False
    then have "bl_state b = 1" using I by (simp add: build_inv_def)
    then show ?thesis using build_inv_store(1) [OF I False] by (simp add: build_free_list_def f)
  qed
  then show ?thesis using I by (auto simp: bfc_rep_linked build_inv_def)
qed


subsection \<open>The memory map as the firmware documents it\<close>

text \<open>
  Descriptors are page aligned and do not wrap around the 64-bit physical address space, as
  the UEFI specification requires of \<open>GetMemoryMap\<close>.
\<close>

definition efi_map_ok :: "efi_memory_descriptor list \<Rightarrow> bool" where
  "efi_map_ok ds \<longleftrightarrow>
     (\<forall>d \<in> set ds. PAGE_SIZE dvd physical_start d \<and>
        physical_start d + number_of_pages d * PAGE_SIZE + PAGE_SIZE \<le> U64)"

definition conventional :: "efi_memory_descriptor list \<Rightarrow> nat \<Rightarrow> bool" where
  "conventional ds i \<longleftrightarrow>
     (\<exists>d \<in> set ds. efi_type d = EfiConventionalMemory \<and> physical_start d \<le> i * PAGE_SIZE \<and>
        i * PAGE_SIZE < physical_start d + number_of_pages d * PAGE_SIZE)"

definition stolen_page :: "intel_stolen_early_info \<Rightarrow> nat \<Rightarrow> bool" where
  "stolen_page st i \<longleftrightarrow> stolen_valid st \<and>
     PHY_TO_PAGE (stolen_base st) \<le> i \<and> i < PHY_TO_PAGE (stolen_base st) + stolen_size st div PAGE_SIZE"

lemma align_up_page_aligned:
  "PAGE_SIZE dvd a \<Longrightarrow> a + PAGE_SIZE \<le> U64 \<Longrightarrow> align_up_page a = a"
  by (auto simp: align_up_page_def add64_small PAGE_SIZE_def elim!: dvdE)

lemma GET_PAGE_NUM_mult: "n * PAGE_SIZE + PAGE_SIZE \<le> U64 \<Longrightarrow> GET_PAGE_NUM (mul64 n 4096) = n"
  by (auto simp: GET_PAGE_NUM_def add64_small mul64_small PAGE_SIZE_def)

lemma GET_PAGE_NUM_gt: "e + PAGE_SIZE \<le> U64 \<Longrightarrow> i < GET_PAGE_NUM e \<longleftrightarrow> i * PAGE_SIZE < e"
  by (auto simp: GET_PAGE_NUM_def add64_small PAGE_SIZE_def)

lemma align_up_page_idx:
  "e + PAGE_SIZE \<le> U64 \<Longrightarrow> i < PHY_TO_PAGE (align_up_page e) \<longleftrightarrow> i * PAGE_SIZE < e"
  by (auto simp: PHY_TO_PAGE_def align_up_page_def add64_small PAGE_SIZE_def)

lemma max_phys_addr_covers:
  assumes "efi_map_ok ds"
  shows "i * PAGE_SIZE < max_phys_addr ds \<longleftrightarrow> i * PAGE_SIZE < DIRECT_MAP_MAX \<and>
    (\<exists>d \<in> set ds. efi_type d = EfiConventionalMemory \<and>
        i * PAGE_SIZE < physical_start d + number_of_pages d * PAGE_SIZE)"
proof -
  have "x < fold (\<lambda>d m. if efi_type d = EfiConventionalMemory
             then max m (add64 (physical_start d) (mul64 (number_of_pages d) 4096)) else m) ds m0 \<longleftrightarrow>
    x < m0 \<or> (\<exists>d \<in> set ds. efi_type d = EfiConventionalMemory \<and>
      x < physical_start d + number_of_pages d * PAGE_SIZE)" for x m0
    using assms
  proof (induction ds arbitrary: m0)
    case (Cons d ds)
    then have "add64 (physical_start d) (mul64 (number_of_pages d) 4096) =
        physical_start d + number_of_pages d * PAGE_SIZE" and "efi_map_ok ds"
      by (auto simp: efi_map_ok_def add64_small mul64_small PAGE_SIZE_def)
    then show ?case using Cons.IH by (auto simp: less_max_iff_disj)
  qed simp
  then show ?thesis by (auto simp: max_phys_addr_def)
qed

lemma mark_free_fold:
  assumes "efi_map_ok ds"
  shows "status (bfc_frames (fold (mark_free np) ds s) i) =
      (if i < np \<and> conventional ds i then PAGE_FREE else status (bfc_frames s i))"
    and "pg_next (bfc_frames (fold (mark_free np) ds s) i) = pg_next (bfc_frames s i)"
    and "bfc_free_list (fold (mark_free np) ds s) = bfc_free_list s"
  using assms
proof (induction ds arbitrary: s)
  case Nil
  { case 1 then show ?case by (simp add: conventional_def) }
  { case 2 then show ?case by simp }
  { case 3 then show ?case by simp }
next
  case (Cons d ds)
  have ok: "efi_map_ok ds" if "efi_map_ok (d # ds)" using that by (simp add: efi_map_ok_def)
  { case 1
    then have "PAGE_SIZE dvd physical_start d" by (simp add: efi_map_ok_def)
    then obtain k where k: "physical_start d = k * PAGE_SIZE" by (metis dvdE mult.commute)
    have "PHY_TO_PAGE (align_up_page (physical_start d)) = k"
      using 1 by (subst align_up_page_aligned) (auto simp: efi_map_ok_def PHY_TO_PAGE_def k)
    moreover have "GET_PAGE_NUM (mul64 (number_of_pages d) 4096) = number_of_pages d"
      using 1 by (intro GET_PAGE_NUM_mult) (auto simp: efi_map_ok_def)
    moreover have "k \<le> i \<and> i < k + number_of_pages d \<longleftrightarrow> k * PAGE_SIZE \<le> i * PAGE_SIZE \<and>
        i * PAGE_SIZE < k * PAGE_SIZE + number_of_pages d * PAGE_SIZE"
      by (simp add: PAGE_SIZE_def) linarith
    ultimately show ?case using Cons.IH(1) [OF ok [OF 1]]
      by (auto simp: mark_free_def conventional_def k) }
  { case 2 then show ?case using Cons.IH(2) [OF ok [OF 2]] by (simp add: mark_free_def) }
  { case 3 then show ?case using Cons.IH(3) [OF ok [OF 3]] by (simp add: mark_free_def) }
qed


text \<open>Where the frame array ends: it starts at the page-aligned frontier of early paging.\<close>

definition frames_end :: "u64 \<Rightarrow> nat \<Rightarrow> u64" where
  "frames_end early np = align_up_page early + align_up_page (np * SIZEOF_PAGE)"

lemma align_up_page_bound: "a + PAGE_SIZE \<le> U64 \<Longrightarrow> align_up_page a < a + PAGE_SIZE"
  by (auto simp: align_up_page_def add64_small PAGE_SIZE_def)

lemma init_mem_frames:
  assumes map: "efi_map_ok (mmap bi)" and b: "\<not> bump_disabled b" and fl: "bfc_free_list s = None"
    and np: "np = GET_PAGE_NUM (max_phys_addr (mmap bi))" and early: "early < 2 ^ 63"
  shows "\<exists>b' s1. init_mem bi early stolen b s = Some (np, b', build_free_list np s1) \<and>
    bump_next_phys b' = frames_end early np \<and> init_accounted_end b' = frames_end early np \<and>
    bfc_free_list s1 = None \<and>
    (\<forall>i < np. pg_next (bfc_frames s1 i) = None \<and>
      (status (bfc_frames s1 i) = PAGE_FREE \<longleftrightarrow> conventional (mmap bi) i \<and>
         i \<noteq> PHY_TO_PAGE AP_TRAMPOLINE_PHYS \<and> \<not> stolen_page stolen i \<and>
         \<not> (PHY_TO_PAGE (kernel_phys bi) \<le> i \<and> i * PAGE_SIZE < frames_end early np)))"
proof -
  let ?b = "bump_init_phys early b"
  have "max_phys_addr (mmap bi) \<le> DIRECT_MAP_MAX" by (simp add: max_phys_addr_def)
  then have npb: "np \<le> 2 ^ 24" by (simp add: np GET_PAGE_NUM_def add64_small U64_def PAGE_SIZE_def DIRECT_MAP_MAX_def)
  then have sz: "mul64 np SIZEOF_PAGE = np * SIZEOF_PAGE" "np * SIZEOF_PAGE \<le> 2 ^ 30"
    by (simp_all add: SIZEOF_PAGE_def mul64_small U64_def)
  have fe: "frames_end early np + PAGE_SIZE \<le> U64"
    using align_up_page_bound [of early] align_up_page_bound [of "np * SIZEOF_PAGE"] early sz(2)
    by (simp add: frames_end_def U64_def PAGE_SIZE_def)
  then have fe': "frames_end early np < U64" using PAGE_SIZE_pos by linarith
  obtain v b1 where al: "bump_alloc (mul64 np SIZEOF_PAGE) ?b = Some (v, b1)"
    and b1: "bump_next_phys b1 = frames_end early np"
    using b fe' by (auto simp: bump_alloc_def bump_init_phys_def frames_end_def sz add64_small)
  define s1 where "s1 = mark_kernel np (kernel_phys bi) (frames_end early np) (reserve_stolen np stolen
    (reserve_run np (PHY_TO_PAGE AP_TRAMPOLINE_PHYS) 1 (fold (mark_free np) (mmap bi) (reserve_all np s))))"
  have im: "init_mem bi early stolen b s =
      Some (np, bump_set_accounted (frames_end early np) b1, build_free_list np s1)"
    unfolding init_mem_def np [symmetric] Let_def al s1_def by (simp add: b1)
  note F = mark_free_fold [OF map]
  have "pg_next (bfc_frames s1 i) = None \<and>
      (status (bfc_frames s1 i) = PAGE_FREE \<longleftrightarrow> conventional (mmap bi) i \<and>
         i \<noteq> PHY_TO_PAGE AP_TRAMPOLINE_PHYS \<and> \<not> stolen_page stolen i \<and>
         \<not> (PHY_TO_PAGE (kernel_phys bi) \<le> i \<and> i * PAGE_SIZE < frames_end early np))"
    if "i < np" for i
    unfolding align_up_page_idx [OF fe, symmetric] using that
    by (auto simp: s1_def mark_kernel_def reserve_stolen_def stolen_page_def reserve_run_def reserve_all_def Let_def F)
  moreover have "bfc_free_list s1 = None"
    using fl by (simp add: s1_def mark_kernel_def reserve_stolen_def reserve_run_def reserve_all_def Let_def F)
  ultimately show ?thesis using im b1 by (auto simp: bump_set_accounted_def)
qed


subsection \<open>Properties\<close>

text \<open>
  C5. Boot establishes the allocator: for every EFI memory map the specification allows,
  \<open>init_mem\<close> returns, the free list it threads satisfies the allocator's invariant, and the
  free pages are exactly the conventional pages below the direct-map limit, minus the AP
  trampoline page, the stolen graphics memory, and the kernel image up to the end of the frame
  array.
\<close>

theorem init_mem_correct:
  assumes "efi_map_ok (mmap bi)" and "\<not> bump_disabled b" and "bfc_free_list s = None" and "early < 2 ^ 63"
  shows "\<exists>np b' s'. init_mem bi early stolen b s = Some (np, b', s') \<and> bfc_inv np s' \<and>
    bump_next_phys b' = frames_end early np \<and>
    bfc_free_set np s' = {i. i * PAGE_SIZE < DIRECT_MAP_MAX \<and> conventional (mmap bi) i \<and>
      i \<noteq> PHY_TO_PAGE AP_TRAMPOLINE_PHYS \<and> \<not> stolen_page stolen i \<and>
      \<not> (PHY_TO_PAGE (kernel_phys bi) \<le> i \<and> i * PAGE_SIZE < frames_end early np)}"
proof -
  define np where "np = GET_PAGE_NUM (max_phys_addr (mmap bi))"
  obtain b' s1 where im: "init_mem bi early stolen b s = Some (np, b', build_free_list np s1)"
    and b': "bump_next_phys b' = frames_end early np" and fl: "bfc_free_list s1 = None"
    and fr: "\<forall>i < np. pg_next (bfc_frames s1 i) = None \<and>
      (status (bfc_frames s1 i) = PAGE_FREE \<longleftrightarrow> conventional (mmap bi) i \<and>
         i \<noteq> PHY_TO_PAGE AP_TRAMPOLINE_PHYS \<and> \<not> stolen_page stolen i \<and>
         \<not> (PHY_TO_PAGE (kernel_phys bi) \<le> i \<and> i * PAGE_SIZE < frames_end early np))"
    using init_mem_frames [OF assms(1-3) np_def assms(4)] by blast
  obtain bs where bs: "bfc_rep np (build_free_list np s1) bs"
    and P: "pages_of bs = {j. j < np \<and> status (bfc_frames s1 j) = PAGE_FREE}"
    using build_free_list_rep [OF fl] fr by blast
  have "max_phys_addr (mmap bi) + PAGE_SIZE \<le> U64"
    by (simp add: max_phys_addr_def U64_def PAGE_SIZE_def DIRECT_MAP_MAX_def min_def)
  then have "i < np \<and> conventional (mmap bi) i \<longleftrightarrow> i * PAGE_SIZE < DIRECT_MAP_MAX \<and> conventional (mmap bi) i" for i
    unfolding np_def using max_phys_addr_covers [OF assms(1)] by (auto simp: GET_PAGE_NUM_gt conventional_def)
  then show ?thesis using im b' bs fr by (auto simp: bfc_inv_def bfc_free_set_rep [OF bs] P)
qed

theorem init_mem_correct_witness:
  "\<exists>np b' s'. init_mem \<lparr>mmap = [\<lparr>efi_type = 7, physical_start = 0, number_of_pages = 64\<rparr>], kernel_phys = 0x10000\<rparr>
       0x14000 \<lparr>stolen_valid = True, stolen_base = 0x30000, stolen_size = 0x2000\<rparr>
       \<lparr>bump_next_phys = 0, bump_disabled = False, init_accounted_end = 0\<rparr>
       \<lparr>bfc_frames = \<lambda>_. demo_page PAGE_SLAB 5 (Some 3) (Some 9), bfc_free_list = None, used_pages = 0\<rparr> = Some (np, b', s') \<and>
     bfc_inv np s' \<and> 7 \<in> bfc_free_set np s' \<and> 8 \<notin> bfc_free_set np s' \<and> 48 \<notin> bfc_free_set np s' \<and>
     64 \<notin> bfc_free_set np s'"
  (is "\<exists>np b' s'. init_mem ?bi ?e ?st ?b ?s = _ \<and> _")
proof -
  have "efi_map_ok (mmap ?bi)" "\<not> bump_disabled ?b" "bfc_free_list ?s = None" "(?e::nat) < 2 ^ 63"
    by (simp_all add: efi_map_ok_def PAGE_SIZE_def U64_def)
  from init_mem_correct [OF this, of ?st] show ?thesis
    by (auto simp: conventional_def EfiConventionalMemory_def PAGE_SIZE_def DIRECT_MAP_MAX_def PHY_TO_PAGE_def
        AP_TRAMPOLINE_PHYS_def stolen_page_def)
qed

text \<open>
  What \<open>bump_disable\<close> does to bump pages allocated after \<open>init_mem\<close>: it marks their
  descriptors USED, but unlinks nothing, so the set of pages that \<open>bfc_alloc_page\<close> hands out is
  unchanged: a page it marked remains allocatable when it was on the free list.
\<close>

lemma bump_disable_keeps_free_list:
  assumes "bfc_inv np s" and "init_accounted_end b < bump_next_phys b"
  shows "bfc_inv np (snd (bump_disable np b s)) \<and>
    bfc_free_set np (snd (bump_disable np b s)) = bfc_free_set np s \<and>
    (\<forall>i. PHY_TO_PAGE (align_up_page (init_accounted_end b)) \<le> i \<and>
         i < PHY_TO_PAGE (align_up_page (bump_next_phys b)) \<and> i < np \<longrightarrow>
         status (bfc_frames (snd (bump_disable np b s)) i) = PAGE_USED)"
proof -
  obtain bs where bs: "bfc_rep np s bs" using assms by (auto simp: bfc_inv_def)
  let ?s = "snd (bump_disable np b s)"
  have "dll (bfc_frames ?s) None (bfc_free_list ?s) (map fst bs) None"
    using bs by (subst dll_cong [of _ _ "bfc_frames s"]) (auto simp: bump_disable_def Let_def bfc_rep_iff)
  then have "bfc_rep np ?s bs" using bs by (auto simp: bump_disable_def Let_def bfc_rep_iff)
  with bs show ?thesis using assms(2) by (auto simp: bfc_inv_def bfc_free_set_rep bump_disable_def Let_def)
qed

end
