(* ===== verification/File_Lock.thy ===== *)
theory File_Lock
  imports Prelude
begin

text \<open>
  Advisory file locks of \<open>kernel/bsd/file_lock.c\<close>: POSIX record locks, OFD record locks and BSD
  flock locks, all on the one list \<open>inode->i_flock\<close>.

  A blocking request is modelled against its environment, one element of a list per turn of its
  loop: what the other tasks do to the inode between the release of \<open>i_flock_lock\<close> and the store of
  BLOCKED, what they do while the task is blocked, and whether the alarm timer or a signal wakes it.
  \<open>schedule()\<close> returns only if one of them wakes the task; else the request stays blocked.
\<close>

subsection \<open>State\<close>

record file_lock =
  owner_pid :: int
  owner_file :: "nat option"
  is_ofd :: bool
  is_bsd :: bool
  lk_type :: int
  lk_start :: u64
  lk_end :: u64

text \<open>The lock-related part of an inode; \<open>wq_wakes\<close> counts the calls of \<open>__wake_up\<close> on its queue.\<close>

record inode =
  i_flock :: "file_lock list"
  i_size :: u64
  i_wq :: bool
  wq_wakes :: nat

record flock =
  l_type :: int
  l_whence :: int
  l_start :: int
  l_len :: int
  l_pid :: int

text \<open>An open file description: its identity, whether it has an inode, and its offset.\<close>

record open_file =
  f_id :: nat
  f_has_inode :: bool
  f_offset :: u64

definition F_RDLCK :: int where "F_RDLCK = 0"
definition F_WRLCK :: int where "F_WRLCK = 1"
definition F_UNLCK :: int where "F_UNLCK = 2"
definition F_GETLK :: int where "F_GETLK = 5"
definition F_SETLK :: int where "F_SETLK = 6"
definition F_SETLKW :: int where "F_SETLKW = 7"
definition F_OFD_GETLK :: int where "F_OFD_GETLK = 36"
definition F_OFD_SETLK :: int where "F_OFD_SETLK = 37"
definition F_OFD_SETLKW :: int where "F_OFD_SETLKW = 38"
definition SEEK_SET :: int where "SEEK_SET = 0"
definition SEEK_CUR :: int where "SEEK_CUR = 1"
definition SEEK_END :: int where "SEEK_END = 2"

lemmas lock_consts = F_RDLCK_def F_WRLCK_def F_UNLCK_def F_GETLK_def F_SETLK_def F_SETLKW_def
  F_OFD_GETLK_def F_OFD_SETLK_def F_OFD_SETLKW_def SEEK_SET_def SEEK_CUR_def SEEK_END_def

lemma lock_consts_distinct [simp]:
  "F_RDLCK \<noteq> F_WRLCK" "F_RDLCK \<noteq> F_UNLCK" "F_WRLCK \<noteq> F_UNLCK" "F_SETLK \<noteq> F_GETLK" "F_SETLKW \<noteq> F_GETLK"
  "F_SETLK \<noteq> F_SETLKW" "F_OFD_SETLK \<noteq> F_OFD_GETLK" "F_OFD_SETLKW \<noteq> F_OFD_GETLK" "F_OFD_SETLK \<noteq> F_OFD_SETLKW"
  "F_WRLCK \<noteq> F_RDLCK" "F_UNLCK \<noteq> F_RDLCK" "F_UNLCK \<noteq> F_WRLCK"
  by (simp_all add: lock_consts)

abbreviation FLOCK_END_EOF :: u64 where
  "FLOCK_END_EOF \<equiv> UINT64_MAX"

definition flock_end :: "u64 \<Rightarrow> u64 \<Rightarrow> u64" where
  "flock_end start len = (if len = 0 then FLOCK_END_EOF else add64 start len)"

subsection \<open>Record locks: POSIX and OFD\<close>

text \<open>The owner test shared by the scans: same class, and same process or same description.\<close>

definition same_owner :: "int \<Rightarrow> nat option \<Rightarrow> bool \<Rightarrow> file_lock \<Rightarrow> bool" where
  "same_owner pid fowner ofd fl \<longleftrightarrow>
     is_ofd fl = ofd \<and> (if ofd then owner_file fl = fowner else owner_pid fl = pid)"

fun find_conflict ::
  "int \<Rightarrow> nat option \<Rightarrow> bool \<Rightarrow> int \<Rightarrow> u64 \<Rightarrow> u64 \<Rightarrow> file_lock list \<Rightarrow> file_lock option" where
  "find_conflict pid fowner ofd ty start stop [] = None"
| "find_conflict pid fowner ofd ty start stop (fl # fls) =
     (if is_bsd fl then find_conflict pid fowner ofd ty start stop fls
      else if same_owner pid fowner ofd fl then find_conflict pid fowner ofd ty start stop fls
      else if lk_type fl = F_RDLCK \<and> ty = F_RDLCK then find_conflict pid fowner ofd ty start stop fls
      else if lk_start fl < stop \<and> start < lk_end fl then Some fl
      else find_conflict pid fowner ofd ty start stop fls)"

definition mk_lock :: "int \<Rightarrow> nat option \<Rightarrow> bool \<Rightarrow> int \<Rightarrow> u64 \<Rightarrow> u64 \<Rightarrow> file_lock" where
  "mk_lock pid fowner ofd ty start stop =
     \<lparr>owner_pid = pid, owner_file = fowner, is_ofd = ofd, is_bsd = False, lk_type = ty,
      lk_start = start, lk_end = stop\<rparr>"

text \<open>Is the lock removed (and possibly split) by a deletion of \<open>[start, stop)\<close>?\<close>

definition deletes :: "int \<Rightarrow> nat option \<Rightarrow> bool \<Rightarrow> u64 \<Rightarrow> u64 \<Rightarrow> file_lock \<Rightarrow> bool" where
  "deletes pid fowner ofd start stop fl \<longleftrightarrow>
     \<not> is_bsd fl \<and> same_owner pid fowner ofd fl \<and> \<not> (lk_end fl \<le> start \<or> stop \<le> lk_start fl)"

text \<open>The residuals of a deleted lock; each is lost when its allocation fails.\<close>

definition residuals ::
  "int \<Rightarrow> nat option \<Rightarrow> bool \<Rightarrow> u64 \<Rightarrow> u64 \<Rightarrow> file_lock \<Rightarrow> kmem \<Rightarrow> file_lock list \<times> kmem" where
  "residuals pid fowner ofd start stop fl mem =
     (let (front, mem) =
            (if lk_start fl < start then
               case kmalloc_ok mem of
                 (True, mem) \<Rightarrow> ([mk_lock pid fowner ofd (lk_type fl) (lk_start fl) start], mem)
               | (False, mem) \<Rightarrow> ([], mem)
             else ([], mem));
          (rear, mem) =
            (if stop < lk_end fl then
               case kmalloc_ok mem of
                 (True, mem) \<Rightarrow> ([mk_lock pid fowner ofd (lk_type fl) stop (lk_end fl)], mem)
               | (False, mem) \<Rightarrow> ([], mem)
             else ([], mem))
      in (front @ rear, mem))"

text \<open>
  The deletion walk. The list is \<open>kept @ todo\<close> with the cursor at the head of \<open>todo\<close>. The next
  node is read before the current one is unlinked and the residuals are pushed at the back, so
  the walk visits residuals unless the deleted lock was the last node.
\<close>

function delete_walk ::
  "int \<Rightarrow> nat option \<Rightarrow> bool \<Rightarrow> u64 \<Rightarrow> u64 \<Rightarrow> file_lock list \<Rightarrow> file_lock list \<Rightarrow> kmem \<Rightarrow>
     file_lock list \<times> kmem" where
  "delete_walk pid fowner ofd start stop kept [] mem = (kept, mem)"
| "delete_walk pid fowner ofd start stop kept (fl # todo) mem =
     (if \<not> deletes pid fowner ofd start stop fl
      then delete_walk pid fowner ofd start stop (kept @ [fl]) todo mem
      else
        let (res, mem') = residuals pid fowner ofd start stop fl mem in
        if todo = [] then (kept @ res, mem')
        else delete_walk pid fowner ofd start stop kept (todo @ res) mem')"
  by pat_completeness auto

lemma residuals_cases:
  assumes "residuals pid fowner ofd start stop fl mem = (res, mem')"
  shows "set res \<subseteq> {mk_lock pid fowner ofd (lk_type fl) (lk_start fl) start |_::unit. lk_start fl < start} \<union>
      {mk_lock pid fowner ofd (lk_type fl) stop (lk_end fl) |_::unit. stop < lk_end fl}"
    and "length res \<le> 2"
    and "\<And>l. l \<in> set res \<Longrightarrow> \<not> deletes pid fowner ofd start stop l"
  using assms
  by (auto simp: residuals_def mk_lock_def deletes_def Let_def split: if_splits prod.splits bool.splits)

text \<open>Each deletion removes a lock of weight three and adds at most two of weight one.\<close>

definition walk_weight :: "int \<Rightarrow> nat option \<Rightarrow> bool \<Rightarrow> u64 \<Rightarrow> u64 \<Rightarrow> file_lock list \<Rightarrow> nat" where
  "walk_weight pid fowner ofd start stop ls =
     sum_list (map (\<lambda>l. if deletes pid fowner ofd start stop l then 3 else 1) ls)"

lemma walk_weight_residuals:
  assumes "residuals pid fowner ofd start stop fl mem = (res, mem')"
  shows "walk_weight pid fowner ofd start stop res \<le> 2"
proof -
  have "walk_weight pid fowner ofd start stop res = sum_list (map (\<lambda>_. 1 :: nat) res)"
    unfolding walk_weight_def using residuals_cases(3) [OF assms]
    by (intro arg_cong [where f = sum_list] map_cong) auto
  then show ?thesis using residuals_cases(2) [OF assms] by (simp add: sum_list_triv)
qed

termination delete_walk
proof (relation "measure (\<lambda>(pid, fowner, ofd, start, stop, kept, todo, mem).
    walk_weight pid fowner ofd start stop todo)", goal_cases)
  case 1 then show ?case by simp
next
  case 2 then show ?case by (simp add: walk_weight_def)
next
  case (3 pid fowner ofd start e kept fl todo mem x res mem')
  then show ?case using walk_weight_residuals [of pid fowner ofd start e fl mem res mem']
    by (simp add: walk_weight_def)
qed

definition locks_delete_range ::
  "int \<Rightarrow> nat option \<Rightarrow> bool \<Rightarrow> u64 \<Rightarrow> u64 \<Rightarrow> file_lock list \<Rightarrow> kmem \<Rightarrow> file_lock list \<times> kmem" where
  "locks_delete_range pid fowner ofd start stop ls mem =
     delete_walk pid fowner ofd start stop [] ls mem"

definition locks_insert ::
  "int \<Rightarrow> nat option \<Rightarrow> bool \<Rightarrow> int \<Rightarrow> u64 \<Rightarrow> u64 \<Rightarrow> file_lock list \<Rightarrow> kmem \<Rightarrow>
     unit result \<times> file_lock list \<times> kmem" where
  "locks_insert pid fowner ofd ty start stop ls mem =
     (let (ls, mem) = locks_delete_range pid fowner ofd start stop ls mem in
      case kmalloc_ok mem of
        (False, mem) \<Rightarrow> (Inl ENOMEM, ls, mem)
      | (True, mem) \<Rightarrow> (Inr (), ls @ [mk_lock pid fowner ofd ty start stop], mem))"


subsection \<open>Blocking requests\<close>

definition wake_up_inode :: "inode \<Rightarrow> inode" where
  "wake_up_inode ip = (if i_wq ip then ip\<lparr>wq_wakes := Suc (wq_wakes ip)\<rparr> else ip)"

definition inode_wq_get :: "inode \<Rightarrow> kmem \<Rightarrow> bool \<times> inode \<times> kmem" where
  "inode_wq_get ip mem =
     (if i_wq ip then (True, ip, mem)
      else case kmalloc_ok mem of
             (True, mem) \<Rightarrow> (True, ip\<lparr>i_wq := True\<rparr>, mem)
           | (False, mem) \<Rightarrow> (False, ip, mem))"

text \<open>
  One turn: \<open>window\<close> happens before the task is BLOCKED, when \<open>wake_wq_target\<close> ignores it; \<open>asleep\<close>
  happens while it is BLOCKED, when a call of \<open>__wake_up\<close> wakes it; \<open>timer\<close> says that the timer queue
  or a signal wakes it, \<open>sig\<close> that a signal is pending when it runs again.
\<close>

type_synonym lock_env = "((inode \<Rightarrow> inode) \<times> (inode \<Rightarrow> inode) \<times> bool \<times> bool) list"

type_synonym lock_outcome = "unit result \<times> inode \<times> kmem"

text \<open>
  The retry loop of \<open>apply_lock\<close> and \<open>do_flock\<close>. \<open>attempt\<close> is the critical section, \<open>None\<close> when it
  found a conflict; \<open>wq\<close> says whether the loop already holds the wait queue.
\<close>

fun lock_wait_loop ::
  "(inode \<Rightarrow> kmem \<Rightarrow> lock_outcome option) \<Rightarrow> bool \<Rightarrow> bool \<Rightarrow> lock_env \<Rightarrow> kmem \<Rightarrow> inode \<Rightarrow>
     lock_outcome option" where
  "lock_wait_loop attempt blocking wq env mem ip =
     (case attempt ip mem of
        Some out \<Rightarrow> Some out
      | None \<Rightarrow>
          if \<not> blocking then Some (Inl EAGAIN, ip, mem)
          else
            let (wq, ip, mem) = (if wq then (True, ip, mem) else inode_wq_get ip mem) in
            if \<not> wq then Some (Inl ENOMEM, ip, mem)
            else
              case env of
                [] \<Rightarrow> None
              | (window, asleep, timer, sig) # env \<Rightarrow>
                  let ip0 = window ip; ip1 = asleep ip0 in
                  if wq_wakes ip1 = wq_wakes ip0 \<and> \<not> timer then None
                  else if sig then Some (Inl ERESTART, ip1, mem)
                  else lock_wait_loop attempt blocking wq env mem ip1)"

declare lock_wait_loop.simps [simp del]

lemma lock_wait_loop_done: "attempt ip mem = Some out \<Longrightarrow> lock_wait_loop attempt blocking wq env mem ip = Some out"
  by (subst lock_wait_loop.simps) simp

lemma lock_wait_loop_refused:
  "attempt ip mem = None \<Longrightarrow> lock_wait_loop attempt False wq env mem ip = Some (Inl EAGAIN, ip, mem)"
  by (subst lock_wait_loop.simps) simp

lemma lock_wait_loop_nowq:
  "attempt ip mem = None \<Longrightarrow> (if wq then (True, ip, mem) else inode_wq_get ip mem) = (False, ip1, m1) \<Longrightarrow>
     lock_wait_loop attempt True wq env mem ip = Some (Inl ENOMEM, ip1, m1)"
  by (subst lock_wait_loop.simps) (simp split: if_splits)

lemma lock_wait_loop_blocked:
  "attempt ip mem = None \<Longrightarrow> (if wq then (True, ip, mem) else inode_wq_get ip mem) = (True, ip1, m1) \<Longrightarrow>
     lock_wait_loop attempt True wq [] mem ip = None"
  by (subst lock_wait_loop.simps) (simp split: if_splits)

lemma lock_wait_loop_woken:
  "attempt ip mem = None \<Longrightarrow> (if wq then (True, ip, mem) else inode_wq_get ip mem) = (True, ip1, m1) \<Longrightarrow>
     lock_wait_loop attempt True wq ((w, g, timer, sig) # env) mem ip =
       (if wq_wakes (g (w ip1)) = wq_wakes (w ip1) \<and> \<not> timer then None
        else if sig then Some (Inl ERESTART, g (w ip1), m1) else lock_wait_loop attempt True True env m1 (g (w ip1)))"
  by (subst lock_wait_loop.simps) (simp add: Let_def split: if_splits)

lemma wq_get_cases:
  obtains w ip1 m1 where "(if wq then (True, ip, mem) else inode_wq_get ip mem) = (w, ip1, m1)"
    and "i_flock ip1 = i_flock ip"
  by (cases "if wq then (True, ip, mem) else inode_wq_get ip mem")
    (auto simp: inode_wq_get_def split: if_splits prod.splits bool.splits)

lemmas lock_wait_loop_eqs = lock_wait_loop_done lock_wait_loop_refused lock_wait_loop_nowq
  lock_wait_loop_blocked lock_wait_loop_woken

definition apply_attempt ::
  "int \<Rightarrow> nat option \<Rightarrow> bool \<Rightarrow> int \<Rightarrow> u64 \<Rightarrow> u64 \<Rightarrow> inode \<Rightarrow> kmem \<Rightarrow> lock_outcome option" where
  "apply_attempt pid fowner ofd ty start stop ip mem =
     (if ty = F_UNLCK then
        let (ls, mem) = locks_delete_range pid fowner ofd start stop (i_flock ip) mem
        in Some (Inr (), wake_up_inode (ip\<lparr>i_flock := ls\<rparr>), mem)
      else
        case find_conflict pid fowner ofd ty start stop (i_flock ip) of
          Some conf \<Rightarrow> None
        | None \<Rightarrow>
            let (r, ls, mem) = locks_insert pid fowner ofd ty start stop (i_flock ip) mem
            in Some (r, wake_up_inode (ip\<lparr>i_flock := ls\<rparr>), mem))"

definition apply_lock ::
  "int \<Rightarrow> nat option \<Rightarrow> bool \<Rightarrow> int \<Rightarrow> u64 \<Rightarrow> u64 \<Rightarrow> bool \<Rightarrow> lock_env \<Rightarrow> kmem \<Rightarrow> inode \<Rightarrow>
     lock_outcome option" where
  "apply_lock pid fowner ofd ty start stop blocking env mem ip =
     lock_wait_loop (apply_attempt pid fowner ofd ty start stop) blocking False env mem ip"

subsection \<open>The fcntl entry points\<close>

text \<open>Validation and resolution of the absolute byte range.\<close>

definition flock_range :: "open_file \<Rightarrow> inode \<Rightarrow> flock \<Rightarrow> (u64 \<times> u64) result" where
  "flock_range f ip lk =
     (if \<not> f_has_inode f then Inl ENOLCK
      else if l_type lk \<noteq> F_RDLCK \<and> l_type lk \<noteq> F_WRLCK \<and> l_type lk \<noteq> F_UNLCK then Inl EINVAL
      else if l_whence lk \<noteq> SEEK_SET \<and> l_whence lk \<noteq> SEEK_CUR \<and> l_whence lk \<noteq> SEEK_END then Inl EINVAL
      else
        let base = (if l_whence lk = SEEK_SET then 0 else if l_whence lk = SEEK_CUR then f_offset f else i_size ip)
        in if l_start lk < 0 then Inl EINVAL
           else
             let start = add64 base (u64_of_int (l_start lk));
                 stop = flock_end start (u64_of_int (l_len lk))
             in if stop < start then Inl EINVAL else Inr (start, stop))"

text \<open>The answer of a probe.\<close>

definition getlk_report :: "file_lock option \<Rightarrow> flock" where
  "getlk_report conf =
     (case conf of
        Some c \<Rightarrow>
          \<lparr>l_type = lk_type c, l_whence = SEEK_SET, l_start = int_of_u64 (lk_start c),
           l_len = (if lk_end c = FLOCK_END_EOF then 0 else int_of_u64 (sub64 (lk_end c) (lk_start c))),
           l_pid = owner_pid c\<rparr>
      | None \<Rightarrow> \<lparr>l_type = F_UNLCK, l_whence = SEEK_SET, l_start = 0, l_len = 0, l_pid = 0\<rparr>)"

definition do_fcntl_lock ::
  "int \<Rightarrow> open_file \<Rightarrow> int \<Rightarrow> flock \<Rightarrow> lock_env \<Rightarrow> kmem \<Rightarrow> inode \<Rightarrow>
     (unit result \<times> flock \<times> inode \<times> kmem) option" where
  "do_fcntl_lock pid f cmd lk env mem ip =
     (case flock_range f ip lk of
        Inl e \<Rightarrow> Some (Inl e, lk, ip, mem)
      | Inr (start, stop) \<Rightarrow>
          if cmd = F_GETLK then
            Some (Inr (), getlk_report (find_conflict pid None False (l_type lk) start stop (i_flock ip)), ip, mem)
          else map_option (\<lambda>(r, ip, mem). (r, lk, ip, mem))
                 (apply_lock pid None False (l_type lk) start stop (cmd = F_SETLKW) env mem ip))"

definition do_fcntl_lock_ofd ::
  "int \<Rightarrow> open_file \<Rightarrow> int \<Rightarrow> flock \<Rightarrow> lock_env \<Rightarrow> kmem \<Rightarrow> inode \<Rightarrow>
     (unit result \<times> flock \<times> inode \<times> kmem) option" where
  "do_fcntl_lock_ofd pid f cmd lk env mem ip =
     (case flock_range f ip lk of
        Inl e \<Rightarrow> Some (Inl e, lk, ip, mem)
      | Inr (start, stop) \<Rightarrow>
          if cmd = F_OFD_GETLK then
            Some (Inr (), getlk_report (find_conflict pid (Some (f_id f)) True (l_type lk) start stop (i_flock ip)), ip, mem)
          else map_option (\<lambda>(r, ip, mem). (r, lk, ip, mem))
                 (apply_lock pid (Some (f_id f)) True (l_type lk) start stop (cmd = F_OFD_SETLKW) env mem ip))"

subsection \<open>BSD flock\<close>

definition LOCK_SH :: nat where "LOCK_SH = 1"
definition LOCK_EX :: nat where "LOCK_EX = 2"
definition LOCK_NB :: nat where "LOCK_NB = 4"
definition LOCK_UN :: nat where "LOCK_UN = 8"

lemmas flock_consts = LOCK_SH_def LOCK_EX_def LOCK_NB_def LOCK_UN_def

text \<open>\<open>None\<close> is the return value -1.\<close>

definition flock_op_type :: "nat \<Rightarrow> int option" where
  "flock_op_type oper = (if oper = LOCK_SH then Some F_RDLCK else if oper = LOCK_EX then Some F_WRLCK else None)"

fun bsd_flock_conflict :: "nat \<Rightarrow> int \<Rightarrow> file_lock list \<Rightarrow> file_lock option" where
  "bsd_flock_conflict f ty [] = None"
| "bsd_flock_conflict f ty (fl # fls) =
     (if \<not> is_bsd fl then bsd_flock_conflict f ty fls
      else if owner_file fl = Some f then bsd_flock_conflict f ty fls
      else if lk_type fl = F_RDLCK \<and> ty = F_RDLCK then bsd_flock_conflict f ty fls
      else Some fl)"

definition bsd_flock_drop :: "nat \<Rightarrow> file_lock list \<Rightarrow> file_lock list" where
  "bsd_flock_drop f ls = filter (\<lambda>fl. \<not> (is_bsd fl \<and> owner_file fl = Some f)) ls"

definition mk_bsd_lock :: "int \<Rightarrow> nat \<Rightarrow> int \<Rightarrow> file_lock" where
  "mk_bsd_lock pid f ty =
     \<lparr>owner_pid = pid, owner_file = Some f, is_ofd = False, is_bsd = True, lk_type = ty,
      lk_start = 0, lk_end = FLOCK_END_EOF\<rparr>"

definition flock_attempt :: "int \<Rightarrow> nat \<Rightarrow> nat \<Rightarrow> inode \<Rightarrow> kmem \<Rightarrow> lock_outcome option" where
  "flock_attempt pid f oper ip mem =
     (if oper = LOCK_UN then
        Some (Inr (), wake_up_inode (ip\<lparr>i_flock := bsd_flock_drop f (i_flock ip)\<rparr>), mem)
      else
        case flock_op_type oper of
          None \<Rightarrow> Some (Inl EINVAL, ip, mem)
        | Some ty \<Rightarrow>
            case bsd_flock_conflict f ty (i_flock ip) of
              Some conf \<Rightarrow> None
            | None \<Rightarrow>
                let ip = ip\<lparr>i_flock := bsd_flock_drop f (i_flock ip)\<rparr> in
                case kmalloc_ok mem of
                  (False, mem) \<Rightarrow> Some (Inl ENOMEM, ip, mem)
                | (True, mem) \<Rightarrow>
                    Some (Inr (), wake_up_inode (ip\<lparr>i_flock := i_flock ip @ [mk_bsd_lock pid f ty]\<rparr>), mem))"

text \<open>\<open>operation\<close> is split into the bit LOCK_NB and the rest.\<close>

definition do_flock :: "int \<Rightarrow> open_file \<Rightarrow> nat \<Rightarrow> lock_env \<Rightarrow> kmem \<Rightarrow> inode \<Rightarrow> lock_outcome option" where
  "do_flock pid f operation env mem ip =
     (let nb = odd (operation div LOCK_NB);
          oper = (if nb then operation - LOCK_NB else operation)
      in if \<not> f_has_inode f then
           (if oper \<noteq> LOCK_SH \<and> oper \<noteq> LOCK_EX \<and> oper \<noteq> LOCK_UN then Some (Inl EINVAL, ip, mem)
            else Some (Inr (), ip, mem))
         else lock_wait_loop (flock_attempt pid (f_id f) oper) (\<not> nb) False env mem ip)"

subsection \<open>Release on exit, close and eviction\<close>

definition release_where :: "(file_lock \<Rightarrow> bool) \<Rightarrow> inode \<Rightarrow> inode" where
  "release_where dead ip =
     (let ip' = ip\<lparr>i_flock := filter (\<lambda>fl. \<not> dead fl) (i_flock ip)\<rparr>
      in if \<exists>fl \<in> set (i_flock ip). dead fl then wake_up_inode ip' else ip')"

definition release_pid_on_inode :: "int \<Rightarrow> inode \<Rightarrow> inode" where
  "release_pid_on_inode dead_pid ip = release_where (\<lambda>fl. \<not> is_ofd fl \<and> owner_pid fl = dead_pid) ip"

text \<open>\<open>inode_for_each\<close> visits every inode of the table.\<close>

definition file_lock_release_pid :: "int \<Rightarrow> (nat \<rightharpoonup> inode) \<Rightarrow> (nat \<rightharpoonup> inode)" where
  "file_lock_release_pid dead_pid inodes = map_option (release_pid_on_inode dead_pid) \<circ> inodes"

definition file_lock_release_file :: "open_file \<Rightarrow> inode \<Rightarrow> inode" where
  "file_lock_release_file f ip =
     (if \<not> f_has_inode f then ip
      else release_where (\<lambda>fl. owner_file fl = Some (f_id f) \<and> (is_ofd fl \<or> is_bsd fl)) ip)"

definition file_lock_release_all :: "inode \<Rightarrow> inode" where
  "file_lock_release_all ip = ip\<lparr>i_flock := []\<rparr>"


subsection \<open>What the list means\<close>

datatype lock_owner = Posix int | Ofd "nat option" | Bsd "nat option"

definition lock_owner :: "file_lock \<Rightarrow> lock_owner" where
  "lock_owner l =
     (if is_bsd l then Bsd (owner_file l) else if is_ofd l then Ofd (owner_file l) else Posix (owner_pid l))"

definition req_owner :: "int \<Rightarrow> nat option \<Rightarrow> bool \<Rightarrow> lock_owner" where
  "req_owner pid fowner ofd = (if ofd then Ofd fowner else Posix pid)"

definition overlap :: "file_lock \<Rightarrow> file_lock \<Rightarrow> bool" where
  "overlap a b \<longleftrightarrow> lk_start a < lk_end b \<and> lk_start b < lk_end a"

text \<open>
  Two locks may coexist when they live in different universes, do not overlap, or are read
  locks of different owners.
\<close>

definition compatible :: "file_lock \<Rightarrow> file_lock \<Rightarrow> bool" where
  "compatible a b \<longleftrightarrow> is_bsd a \<noteq> is_bsd b \<or> \<not> overlap a b \<or>
     (lock_owner a \<noteq> lock_owner b \<and> lk_type a = F_RDLCK \<and> lk_type b = F_RDLCK)"

definition lock_wf :: "file_lock \<Rightarrow> bool" where
  "lock_wf l \<longleftrightarrow> (lk_type l = F_RDLCK \<or> lk_type l = F_WRLCK) \<and> lk_start l \<le> lk_end l \<and>
     (is_bsd l \<longrightarrow> \<not> is_ofd l \<and> lk_start l = 0 \<and> lk_end l = FLOCK_END_EOF)"

definition lock_table_ok :: "file_lock list \<Rightarrow> bool" where
  "lock_table_ok ls \<longleftrightarrow> sorted_wrt compatible ls \<and> (\<forall>l \<in> set ls. lock_wf l)"

lemma lock_table_ok_Nil [simp]: "lock_table_ok []"
  by (simp add: lock_table_ok_def)

text \<open>Owner \<open>own\<close> holds a lock of type \<open>t\<close> on byte \<open>b\<close>.\<close>

definition holds :: "file_lock list \<Rightarrow> lock_owner \<Rightarrow> u64 \<Rightarrow> int \<Rightarrow> bool" where
  "holds ls own b t \<longleftrightarrow> (\<exists>l \<in> set ls. lock_owner l = own \<and> lk_start l \<le> b \<and> b < lk_end l \<and> lk_type l = t)"

named_theorems lock_simps

lemma compatible_sym: "compatible a b \<longleftrightarrow> compatible b a"
  by (auto simp: compatible_def overlap_def)

lemma mk_lock_simps [simp]:
  "is_bsd (mk_lock pid fo ofd ty s e) = False" "is_ofd (mk_lock pid fo ofd ty s e) = ofd"
  "lk_type (mk_lock pid fo ofd ty s e) = ty" "lk_start (mk_lock pid fo ofd ty s e) = s"
  "lk_end (mk_lock pid fo ofd ty s e) = e" "lock_owner (mk_lock pid fo ofd ty s e) = req_owner pid fo ofd"
  by (simp_all add: mk_lock_def lock_owner_def req_owner_def)

lemma same_owner_iff:
  "\<not> is_bsd l \<Longrightarrow> same_owner pid fo ofd l \<longleftrightarrow> lock_owner l = req_owner pid fo ofd"
  by (auto simp: same_owner_def lock_owner_def req_owner_def)

lemma req_owner_not_bsd: "lock_owner l = req_owner pid fo ofd \<Longrightarrow> \<not> is_bsd l"
  by (auto simp: lock_owner_def req_owner_def split: if_splits)

lemma deletes_iff:
  "deletes pid fo ofd s e l \<longleftrightarrow>
     lock_owner l = req_owner pid fo ofd \<and> s < lk_end l \<and> lk_start l < e"
  using same_owner_iff [of l pid fo ofd] by (cases "is_bsd l") (auto simp: deletes_def dest: req_owner_not_bsd)

lemma find_conflict_None:
  "find_conflict pid fo ofd ty s e ls = None \<longleftrightarrow>
     (\<forall>l \<in> set ls. is_bsd l \<or> lock_owner l = req_owner pid fo ofd \<or> (lk_type l = F_RDLCK \<and> ty = F_RDLCK) \<or>
        \<not> (lk_start l < e \<and> s < lk_end l))"
  by (induction ls) (auto simp: same_owner_iff)

lemma bsd_flock_conflict_None:
  "bsd_flock_conflict f ty ls = None \<longleftrightarrow>
     (\<forall>l \<in> set ls. \<not> is_bsd l \<or> owner_file l = Some f \<or> (lk_type l = F_RDLCK \<and> ty = F_RDLCK))"
  by (induction ls) auto

subsection \<open>Deleting a range\<close>

text \<open>A residual is a part of the lock it comes from, outside the deleted range.\<close>

lemma residuals_part:
  assumes "residuals pid fo ofd s e fl mem = (res, mem')" and "deletes pid fo ofd s e fl" and "l \<in> set res"
  shows "lock_owner l = lock_owner fl" "is_bsd l = is_bsd fl" "lk_type l = lk_type fl"
    "lk_start fl \<le> lk_start l" "lk_end l \<le> lk_end fl" "lk_start l \<le> lk_end l"
    "lk_end l \<le> s \<or> e \<le> lk_start l"
  using residuals_cases(1) [OF assms(1)] assms(2,3) by (auto simp: deletes_iff dest: req_owner_not_bsd)

lemma residuals_compatible:
  assumes "residuals pid fo ofd s e fl mem = (res, mem')" and "s \<le> e"
  shows "sorted_wrt compatible res"
  using assms
  by (auto simp: residuals_def Let_def compatible_def overlap_def split: if_splits prod.splits bool.splits)

lemma residuals_all_ok:
  assumes "kmem_all_ok mem"
  shows "\<exists>mem'. kmem_all_ok mem' \<and> residuals pid fo ofd s e fl mem =
    ((if lk_start fl < s then [mk_lock pid fo ofd (lk_type fl) (lk_start fl) s] else []) @
     (if e < lk_end fl then [mk_lock pid fo ofd (lk_type fl) e (lk_end fl)] else []), mem')"
  using kmem_all_okD [OF assms] kmem_all_okD [of "snd (kmalloc_ok mem)"] assms
  by (auto simp: residuals_def Let_def split: prod.splits bool.splits)

lemma compatible_part:
  assumes "compatible fl x" and "lock_owner l = lock_owner fl" "is_bsd l = is_bsd fl" "lk_type l = lk_type fl"
    "lk_start fl \<le> lk_start l" "lk_end l \<le> lk_end fl"
  shows "compatible l x"
  using assms by (auto simp: compatible_def overlap_def)

text \<open>What each deletion preserves, the whole walk preserves.\<close>

lemma delete_walk_invariant:
  assumes "delete_walk pid fo ofd s e kept todo mem = (ls', mem')" and "P (kept @ todo) mem"
    and step: "\<And>kept fl todo res m m'. P (kept @ fl # todo) m \<Longrightarrow> deletes pid fo ofd s e fl \<Longrightarrow>
      residuals pid fo ofd s e fl m = (res, m') \<Longrightarrow> P (kept @ todo @ res) m'"
  shows "P ls' mem'"
  using assms(1,2) step
proof (induction pid fo ofd s e kept todo mem rule: delete_walk.induct)
  case (2 pid fo ofd s e kept fl todo mem)
  show ?case
  proof (cases "deletes pid fo ofd s e fl")
    case False
    then show ?thesis using 2 by simp
  next
    case True
    obtain res m where r: "residuals pid fo ofd s e fl mem = (res, m)" by fastforce
    have ok': "P (kept @ todo @ res) m" by (rule "2.prems"(3) [OF "2.prems"(2) True r])
    show ?thesis
    proof (cases "todo = []")
      case True
      then show ?thesis using "2.prems"(1) \<open>deletes pid fo ofd s e fl\<close> r ok' by simp
    next
      case False
      have "delete_walk pid fo ofd s e kept (todo @ res) m = (ls', mem')"
        using "2.prems"(1) True r False by simp
      from "2.IH"(2) [OF _ r [symmetric] refl False this ok' "2.prems"(3)] show ?thesis
        using True by simp
    qed
  qed
qed simp

lemma delete_walk_gone:
  "delete_walk pid fo ofd s e kept todo mem = (ls', mem') \<Longrightarrow>
     \<forall>l \<in> set kept. \<not> deletes pid fo ofd s e l \<Longrightarrow> l \<in> set ls' \<Longrightarrow> \<not> deletes pid fo ofd s e l"
proof (induction pid fo ofd s e kept todo mem rule: delete_walk.induct)
  case (2 pid fo ofd s e kept fl todo mem)
  obtain res m where r: "residuals pid fo ofd s e fl mem = (res, m)" by fastforce
  show ?case
  proof (cases "deletes pid fo ofd s e fl \<and> todo \<noteq> []")
    case True
    then show ?thesis using 2 r by simp
  next
    case False
    then show ?thesis using 2 r residuals_cases(3) [OF r] by (auto split: if_splits)
  qed
qed simp

lemma delete_step_ok:
  assumes ok: "lock_table_ok (kept @ fl # todo)" and d: "deletes pid fo ofd s e fl"
    and r: "residuals pid fo ofd s e fl m = (res, m')" and se: "s \<le> e"
  shows "lock_table_ok (kept @ todo @ res)"
proof -
  note part = residuals_part [OF r d]
  have fx: "compatible fl x" if "x \<in> set kept \<union> set todo" for x
    using ok that compatible_sym [of fl x] by (auto simp: lock_table_ok_def sorted_wrt_append)
  have K: "compatible l x" if "l \<in> set res" "x \<in> set kept \<union> set todo" for l x
    by (rule compatible_part [OF fx [OF that(2)] part(1-5) [OF that(1)]])
  have K': "compatible x l" if "l \<in> set res" "x \<in> set kept \<union> set todo" for l x
    using K [OF that] compatible_sym by blast
  have "lock_wf l" if "l \<in> set res" for l
  proof -
    have "\<not> is_bsd fl" "lock_wf fl" using d ok by (auto simp: deletes_iff lock_table_ok_def dest: req_owner_not_bsd)
    then show ?thesis using part [OF that] by (simp add: lock_wf_def)
  qed
  then show ?thesis
    using ok K' residuals_compatible [OF r se] by (simp add: lock_table_ok_def sorted_wrt_append ball_Un)
qed

lemma holds_append [simp]: "holds (xs @ ys) own b t \<longleftrightarrow> holds xs own b t \<or> holds ys own b t"
  and holds_Cons [simp]: "holds (l # ys) own b t \<longleftrightarrow>
    lock_owner l = own \<and> lk_start l \<le> b \<and> b < lk_end l \<and> lk_type l = t \<or> holds ys own b t"
  and holds_Nil [simp]: "\<not> holds [] own b t"
  by (auto simp: holds_def)

lemma residuals_holds:
  assumes "residuals pid fo ofd s e fl mem = (res, mem')" and "deletes pid fo ofd s e fl" and "holds res own b t"
  shows "lock_owner fl = own \<and> lk_start fl \<le> b \<and> b < lk_end fl \<and> lk_type fl = t"
  using residuals_part [OF assms(1,2)] assms(3) by (fastforce simp: holds_def)

lemma locks_delete_range_spec:
  assumes D: "locks_delete_range pid fo ofd s e ls mem = (ls', mem')" and "s \<le> e"
  shows "lock_table_ok ls \<Longrightarrow> lock_table_ok ls'"
    and "holds ls' own b t \<Longrightarrow> holds ls own b t \<and> \<not> (own = req_owner pid fo ofd \<and> s \<le> b \<and> b < e)"
    and "own \<noteq> req_owner pid fo ofd \<Longrightarrow>
      filter (\<lambda>l. lock_owner l = own) ls' = filter (\<lambda>l. lock_owner l = own) ls"
    and "l \<in> set ls' \<Longrightarrow> \<not> deletes pid fo ofd s e l"
    and "kmem_all_ok mem \<Longrightarrow> kmem_all_ok mem' \<and>
      (holds ls own b t \<and> \<not> (own = req_owner pid fo ofd \<and> s \<le> b \<and> b < e) \<longrightarrow> holds ls' own b t)"
proof -
  have W: "delete_walk pid fo ofd s e [] ls mem = (ls', mem')" using D by (simp add: locks_delete_range_def)
  note I = delete_walk_invariant [OF W, unfolded append_Nil]
  show "lock_table_ok ls'" if "lock_table_ok ls"
    using I [where P = "\<lambda>ls _. lock_table_ok ls"] that delete_step_ok assms(2) by blast
  show gone: "\<not> deletes pid fo ofd s e l" if "l \<in> set ls'" for l
    using delete_walk_gone [OF W] that by simp
  show "filter (\<lambda>l. lock_owner l = own) ls' = filter (\<lambda>l. lock_owner l = own) ls"
    if own: "own \<noteq> req_owner pid fo ofd"
  proof (rule I [where P = "\<lambda>xs _. filter (\<lambda>l. lock_owner l = own) xs = filter (\<lambda>l. lock_owner l = own) ls"])
    fix kept fl todo res m m'
    assume A: "filter (\<lambda>l. lock_owner l = own) (kept @ fl # todo) = filter (\<lambda>l. lock_owner l = own) ls"
      "deletes pid fo ofd s e fl" "residuals pid fo ofd s e fl m = (res, m')"
    have fl: "lock_owner fl \<noteq> own" using A(2) own by (simp add: deletes_iff)
    then have "filter (\<lambda>l. lock_owner l = own) res = []"
      using residuals_part(1) [OF A(3,2)] by (auto simp: filter_empty_conv)
    then show "filter (\<lambda>l. lock_owner l = own) (kept @ todo @ res) = filter (\<lambda>l. lock_owner l = own) ls"
      using A(1) fl by simp
  qed simp
  have "holds ls' own b t \<longrightarrow> holds ls own b t"
    by (rule I [where P = "\<lambda>xs _. holds xs own b t \<longrightarrow> holds ls own b t"]) (auto dest: residuals_holds)
  then show "holds ls own b t \<and> \<not> (own = req_owner pid fo ofd \<and> s \<le> b \<and> b < e)" if "holds ls' own b t"
  proof -
    from that obtain l where "l \<in> set ls'" "lock_owner l = own" "lk_start l \<le> b" "b < lk_end l"
      by (auto simp: holds_def)
    with gone [of l] \<open>holds ls' own b t \<longrightarrow> _\<close> that show ?thesis by (auto simp: deletes_iff)
  qed
  show "kmem_all_ok mem' \<and>
      (holds ls own b t \<and> \<not> (own = req_owner pid fo ofd \<and> s \<le> b \<and> b < e) \<longrightarrow> holds ls' own b t)"
    if "kmem_all_ok mem"
  proof (rule I [where P = "\<lambda>xs m. kmem_all_ok m \<and>
      (holds ls own b t \<and> \<not> (own = req_owner pid fo ofd \<and> s \<le> b \<and> b < e) \<longrightarrow> holds xs own b t)"])
    fix kept fl todo res m m'
    assume A: "kmem_all_ok m \<and> (holds ls own b t \<and> \<not> (own = req_owner pid fo ofd \<and> s \<le> b \<and> b < e) \<longrightarrow>
        holds (kept @ fl # todo) own b t)"
      "deletes pid fo ofd s e fl" "residuals pid fo ofd s e fl m = (res, m')"
    from residuals_all_ok [of m pid fo ofd s e fl] A(1,3)
    have m': "kmem_all_ok m'" and res: "res = (if lk_start fl < s then [mk_lock pid fo ofd (lk_type fl) (lk_start fl) s] else []) @
       (if e < lk_end fl then [mk_lock pid fo ofd (lk_type fl) e (lk_end fl)] else [])" by auto
    show "kmem_all_ok m' \<and> (holds ls own b t \<and> \<not> (own = req_owner pid fo ofd \<and> s \<le> b \<and> b < e) \<longrightarrow>
        holds (kept @ todo @ res) own b t)"
      using A(1,2) m' by (auto simp: res deletes_iff)
  qed (use that in simp)
qed


subsection \<open>Inserting a lock\<close>

lemma locks_insert_spec:
  assumes I: "locks_insert pid fo ofd ty s e ls mem = (r, ls', mem')" and se: "s \<le> e"
    and ty: "ty = F_RDLCK \<or> ty = F_WRLCK" and nc: "find_conflict pid fo ofd ty s e ls = None"
  shows "lock_table_ok ls \<Longrightarrow> lock_table_ok ls'"
    and "own \<noteq> req_owner pid fo ofd \<Longrightarrow>
      filter (\<lambda>l. lock_owner l = own) ls' = filter (\<lambda>l. lock_owner l = own) ls"
    and "kmem_all_ok mem \<Longrightarrow> r = Inr () \<and>
      (holds ls' own b t \<longleftrightarrow> (if own = req_owner pid fo ofd \<and> s \<le> b \<and> b < e then t = ty else holds ls own b t))"
    and "r = Inr () \<or> r = Inl ENOMEM"
proof -
  obtain ds m where D: "locks_delete_range pid fo ofd s e ls mem = (ds, m)" by fastforce
  note S = locks_delete_range_spec [OF D se]
  let ?new = "mk_lock pid fo ofd ty s e"
  have ls': "r = Inr () \<and> ls' = ds @ [?new] \<or> r = Inl ENOMEM \<and> ls' = ds"
    using I by (auto simp: locks_insert_def D split: prod.splits bool.splits)
  then show "r = Inr () \<or> r = Inl ENOMEM" by blast
  show F: "filter (\<lambda>l. lock_owner l = own) ls' = filter (\<lambda>l. lock_owner l = own) ls"
    if "own \<noteq> req_owner pid fo ofd" for own
    using ls' S(3) [OF that] that by auto
  have C: "compatible l ?new" if l: "l \<in> set ds" for l
  proof (cases "lock_owner l = req_owner pid fo ofd")
    case True
    then show ?thesis using S(4) [OF l] by (auto simp: compatible_def overlap_def deletes_iff)
  next
    case False
    have "l \<in> set (filter (\<lambda>x. lock_owner x = lock_owner l) ds)" using l by simp
    then have "l \<in> set ls" unfolding S(3) [OF False] by simp
    then show ?thesis using nc False unfolding find_conflict_None by (force simp: compatible_def overlap_def)
  qed
  show "lock_table_ok ls'" if "lock_table_ok ls"
    using S(1) [OF that] ls' C ty se by (auto simp: lock_table_ok_def sorted_wrt_append lock_wf_def)
  show "r = Inr () \<and>
      (holds ls' own b t \<longleftrightarrow> (if own = req_owner pid fo ofd \<and> s \<le> b \<and> b < e then t = ty else holds ls own b t))"
    if ok: "kmem_all_ok mem"
  proof -
    have "kmem_all_ok m" using S(5) [OF ok] by blast
    then have l2: "r = Inr ()" "ls' = ds @ [?new]"
      using I kmem_all_okD [of m] by (auto simp: locks_insert_def D split: prod.splits bool.splits)
    show ?thesis using S(2) [of own b t] S(5) [OF ok, of own b t] l2 by auto
  qed
qed

lemma bsd_drop_ok: "lock_table_ok ls \<Longrightarrow> lock_table_ok (filter P ls)"
  by (auto simp: lock_table_ok_def sorted_wrt_filter)

lemma mk_bsd_lock_simps [simp]:
  "is_bsd (mk_bsd_lock pid f ty)" "\<not> is_ofd (mk_bsd_lock pid f ty)" "lk_type (mk_bsd_lock pid f ty) = ty"
  "lk_start (mk_bsd_lock pid f ty) = 0" "lk_end (mk_bsd_lock pid f ty) = FLOCK_END_EOF"
  "lock_owner (mk_bsd_lock pid f ty) = Bsd (Some f)" "owner_file (mk_bsd_lock pid f ty) = Some f"
  by (simp_all add: mk_bsd_lock_def lock_owner_def)

lemma bsd_insert_ok:
  assumes ok: "lock_table_ok ls" and nc: "bsd_flock_conflict f ty ls = None"
    and ty: "ty = F_RDLCK \<or> ty = F_WRLCK"
  shows "lock_table_ok (bsd_flock_drop f ls @ [mk_bsd_lock pid f ty])"
proof -
  have "compatible l (mk_bsd_lock pid f ty)" if "l \<in> set (bsd_flock_drop f ls)" for l
  proof (cases "is_bsd l")
    case True
    then have l: "owner_file l \<noteq> Some f" "l \<in> set ls" using that by (simp_all add: bsd_flock_drop_def)
    have "lk_type l = F_RDLCK \<and> ty = F_RDLCK" using nc [unfolded bsd_flock_conflict_None] l True by blast
    moreover have "lock_owner l \<noteq> Bsd (Some f)" using True l(1) by (simp add: lock_owner_def [of l])
    ultimately show ?thesis by (simp add: compatible_def)
  qed (simp add: compatible_def)
  moreover have "lock_wf (mk_bsd_lock pid f ty)" using ty by (simp add: lock_wf_def)
  moreover have "lock_table_ok (bsd_flock_drop f ls)" unfolding bsd_flock_drop_def by (rule bsd_drop_ok [OF ok])
  ultimately show ?thesis by (simp add: lock_table_ok_def sorted_wrt_append ball_Un)
qed

subsection \<open>The lock-section contract\<close>

text \<open>
  A critical section that either completes or reports a conflict: it keeps the table's
  invariant, and it conflicts exactly when some lock of the table blocks the request. The retry
  loop needs no more.
\<close>

locale lock_section =
  fixes valid :: "'q \<Rightarrow> bool"
    and attempt :: "'q \<Rightarrow> inode \<Rightarrow> kmem \<Rightarrow> lock_outcome option"
    and blocks :: "'q \<Rightarrow> file_lock \<Rightarrow> bool"
    and inv :: "file_lock list \<Rightarrow> bool"
  assumes section_inv: "valid q \<Longrightarrow> inv (i_flock ip) \<Longrightarrow> attempt q ip mem = Some (r, ip', mem') \<Longrightarrow> inv (i_flock ip')"
    and section_blocked: "valid q \<Longrightarrow> attempt q ip mem = None \<longleftrightarrow> (\<exists>l \<in> set (i_flock ip). blocks q l)"
begin

lemma loop_inv:
  assumes q: "valid q"
  shows "inv (i_flock ip) \<Longrightarrow> \<forall>(w, g, b) \<in> set env. \<forall>ip. inv (i_flock ip) \<longrightarrow> inv (i_flock (w ip)) \<and> inv (i_flock (g ip)) \<Longrightarrow>
     lock_wait_loop (attempt q) blocking wq env mem ip = Some (r, ip', mem') \<Longrightarrow> inv (i_flock ip')"
proof (induction env arbitrary: wq mem ip)
  case Nil
  obtain w ip1 m1 where w: "(if wq then (True, ip, mem) else inode_wq_get ip mem) = (w, ip1, m1)"
    and ip1: "i_flock ip1 = i_flock ip" by (rule wq_get_cases)
  show ?case
  proof (cases "attempt q ip mem")
    case None
    then show ?thesis using Nil w ip1
      by (cases blocking; cases w) (simp_all add: lock_wait_loop_eqs)
  next
    case (Some out)
    then show ?thesis using Nil section_inv [OF q] by (simp add: lock_wait_loop_done)
  qed
next
  case (Cons x env)
  obtain w ip1 m1 where w: "(if wq then (True, ip, mem) else inode_wq_get ip mem) = (w, ip1, m1)"
    and ip1: "i_flock ip1 = i_flock ip" by (rule wq_get_cases)
  obtain v g timer sig where x: "x = (v, g, timer, sig)" by (cases x)
  have g: "inv (i_flock (g (v ip1)))" using Cons.prems x ip1 by auto
  have env: "\<forall>(w, g, b) \<in> set env. \<forall>ip. inv (i_flock ip) \<longrightarrow> inv (i_flock (w ip)) \<and> inv (i_flock (g ip))" using Cons.prems(2) by simp
  show ?case
  proof (cases "attempt q ip mem")
    case None
    then show ?thesis
      using Cons.prems(1,3) w ip1 x g Cons.IH [OF g env]
      by (cases blocking; cases w; cases sig) (simp_all add: lock_wait_loop_eqs split: if_splits)
  next
    case (Some out)
    then show ?thesis using Cons.prems section_inv [OF q] by (simp add: lock_wait_loop_done)
  qed
qed

lemma loop_nonblocking:
  assumes "valid q" and "l \<in> set (i_flock ip)" and "blocks q l"
  shows "lock_wait_loop (attempt q) False wq env mem ip = Some (Inl EAGAIN, ip, mem)"
  using assms section_blocked [of q ip mem] by (auto simp: lock_wait_loop_eqs)

text \<open>A blocked request that is woken completes when nothing blocks it any more; a wake-up in the window is lost.\<close>

lemma loop_woken:
  assumes q: "valid q" and "wq \<or> i_wq ip" and "l \<in> set (i_flock ip)" and "blocks q l" and "\<forall>l \<in> set (i_flock (g (w ip))). \<not> blocks q l"
    and "wq_wakes (g (w ip)) \<noteq> wq_wakes (w ip)"
  shows "\<exists>out. lock_wait_loop (attempt q) True wq ((w, g, timer, False) # env) mem ip = Some out \<and> attempt q (g (w ip)) mem = Some out"
proof -
  have "(if wq then (True, ip, mem) else inode_wq_get ip mem) = (True, ip, mem)" using assms(2) by (auto simp: inode_wq_get_def)
  moreover have "attempt q ip mem = None" using section_blocked [OF q] assms(3,4) by blast
  moreover have "attempt q (g (w ip)) mem \<noteq> None" using section_blocked [OF q] assms(5) by blast
  ultimately show ?thesis using assms(6) by (auto simp: lock_wait_loop_eqs)
qed

lemma loop_asleep:
  assumes q: "valid q" and "wq \<or> i_wq ip" and "l \<in> set (i_flock ip)" and "blocks q l" and "wq_wakes (g (w ip)) = wq_wakes (w ip)"
  shows "lock_wait_loop (attempt q) True wq ((w, g, False, sig) # env) mem ip = None"
proof -
  have "(if wq then (True, ip, mem) else inode_wq_get ip mem) = (True, ip, mem)" using assms(2) by (auto simp: inode_wq_get_def)
  moreover have "attempt q ip mem = None" using section_blocked [OF q] assms(3,4) by blast
  ultimately show ?thesis using assms(5) by (simp add: lock_wait_loop_eqs)
qed

end

subsection \<open>The two critical sections meet the contract\<close>

type_synonym record_req = "int \<times> nat option \<times> bool \<times> int \<times> u64 \<times> u64"

fun record_valid :: "record_req \<Rightarrow> bool" where
  "record_valid (pid, fo, ofd, ty, s, e) \<longleftrightarrow> s \<le> e \<and> (ty = F_RDLCK \<or> ty = F_WRLCK \<or> ty = F_UNLCK)"

fun record_attempt :: "record_req \<Rightarrow> inode \<Rightarrow> kmem \<Rightarrow> lock_outcome option" where
  "record_attempt (pid, fo, ofd, ty, s, e) = apply_attempt pid fo ofd ty s e"

fun record_blocks :: "record_req \<Rightarrow> file_lock \<Rightarrow> bool" where
  "record_blocks (pid, fo, ofd, ty, s, e) l \<longleftrightarrow> ty \<noteq> F_UNLCK \<and> \<not> is_bsd l \<and>
     lock_owner l \<noteq> req_owner pid fo ofd \<and> \<not> (lk_type l = F_RDLCK \<and> ty = F_RDLCK) \<and> lk_start l < e \<and> s < lk_end l"

lemma wake_up_inode_flock [simp]: "i_flock (wake_up_inode ip) = i_flock ip"
  by (simp add: wake_up_inode_def)

interpretation record_section: lock_section record_valid record_attempt record_blocks lock_table_ok
proof
  fix q :: record_req and ip mem r ip' mem'
  assume v: "record_valid q"
  obtain pid fo ofd ty s e where q: "q = (pid, fo, ofd, ty, s, e)" by (metis prod_cases6)
  show "lock_table_ok (i_flock ip')"
    if ok: "lock_table_ok (i_flock ip)" and a: "record_attempt q ip mem = Some (r, ip', mem')"
  proof (cases "ty = F_UNLCK")
    case True
    obtain ds m where D: "locks_delete_range pid fo ofd s e (i_flock ip) mem = (ds, m)" by fastforce
    then show ?thesis using a q v True locks_delete_range_spec(1) [OF D _ ok]
      by (auto simp: apply_attempt_def)
  next
    case False
    obtain r1 ls m where I: "locks_insert pid fo ofd ty s e (i_flock ip) mem = (r1, ls, m)" by (metis prod_cases3)
    then show ?thesis using a q v False locks_insert_spec(1) [OF I _ _ _ ok]
      by (auto simp: apply_attempt_def split: option.splits)
  qed
  show "record_attempt q ip mem = None \<longleftrightarrow> (\<exists>l \<in> set (i_flock ip). record_blocks q l)"
  proof -
    have "record_attempt q ip mem = None \<longleftrightarrow>
        ty \<noteq> F_UNLCK \<and> find_conflict pid fo ofd ty s e (i_flock ip) \<noteq> None"
      by (auto simp: q apply_attempt_def split: option.splits prod.splits)
    also have "\<dots> \<longleftrightarrow> (\<exists>l \<in> set (i_flock ip). record_blocks q l)"
      unfolding find_conflict_None by (auto simp: q)
    finally show ?thesis .
  qed
qed

type_synonym flock_req = "int \<times> nat \<times> nat"

fun bsd_attempt :: "flock_req \<Rightarrow> inode \<Rightarrow> kmem \<Rightarrow> lock_outcome option" where
  "bsd_attempt (pid, f, oper) = flock_attempt pid f oper"

fun bsd_blocks :: "flock_req \<Rightarrow> file_lock \<Rightarrow> bool" where
  "bsd_blocks (pid, f, oper) l \<longleftrightarrow> (oper = LOCK_SH \<or> oper = LOCK_EX) \<and> is_bsd l \<and>
     owner_file l \<noteq> Some f \<and> \<not> (lk_type l = F_RDLCK \<and> oper = LOCK_SH)"

lemma flock_op_type_range: "flock_op_type oper = Some ty \<Longrightarrow> ty = F_RDLCK \<or> ty = F_WRLCK"
  by (auto simp: flock_op_type_def split: if_splits)

interpretation bsd_section: lock_section "\<lambda>_. True" bsd_attempt bsd_blocks lock_table_ok
proof
  fix q :: flock_req and ip mem r ip' mem'
  obtain pid f oper where q: "q = (pid, f, oper)" by (metis prod_cases3)
  show "lock_table_ok (i_flock ip')"
    if ok: "lock_table_ok (i_flock ip)" and a: "bsd_attempt q ip mem = Some (r, ip', mem')"
  proof (cases "oper = LOCK_UN \<or> flock_op_type oper = None")
    case True
    then show ?thesis using a ok bsd_drop_ok [OF ok]
      by (auto simp: q flock_attempt_def bsd_flock_drop_def split: if_splits)
  next
    case False
    then obtain ty where ty: "flock_op_type oper = Some ty" by auto
    show ?thesis
    proof (cases "bsd_flock_conflict f ty (i_flock ip)")
      case None
      note I = bsd_insert_ok [OF ok None flock_op_type_range [OF ty]]
      have D: "lock_table_ok (bsd_flock_drop f (i_flock ip))" unfolding bsd_flock_drop_def by (rule bsd_drop_ok [OF ok])
      show ?thesis using a None False ty I [of pid] D
        by (auto simp: q flock_attempt_def Let_def split: prod.splits bool.splits)
    qed (use a False ty in \<open>simp add: q flock_attempt_def\<close>)
  qed
  show "bsd_attempt q ip mem = None \<longleftrightarrow> (\<exists>l \<in> set (i_flock ip). bsd_blocks q l)"
  proof -
    have "bsd_attempt q ip mem = None \<longleftrightarrow> oper \<noteq> LOCK_UN \<and>
        (\<exists>ty. flock_op_type oper = Some ty \<and> bsd_flock_conflict f ty (i_flock ip) \<noteq> None)"
      by (auto simp: q flock_attempt_def Let_def split: option.splits prod.splits bool.splits)
    also have "\<dots> \<longleftrightarrow> (\<exists>l \<in> set (i_flock ip). bsd_blocks q l)"
      unfolding bsd_flock_conflict_None by (auto simp: q flock_op_type_def flock_consts lock_consts)
    finally show ?thesis .
  qed
qed


subsection \<open>Facts the properties share\<close>

lemma flock_range_valid:
  "flock_range f ip lk = Inr (s, e) \<Longrightarrow>
     s \<le> e \<and> (l_type lk = F_RDLCK \<or> l_type lk = F_WRLCK \<or> l_type lk = F_UNLCK)"
  by (auto simp: flock_range_def Let_def split: if_splits)

definition rely_ok :: "lock_env \<Rightarrow> bool" where
  "rely_ok env \<longleftrightarrow> (\<forall>(w, g, b) \<in> set env. \<forall>ip. lock_table_ok (i_flock ip) \<longrightarrow> lock_table_ok (i_flock (w ip)) \<and> lock_table_ok (i_flock (g ip)))"

lemma apply_lock_ok:
  assumes "apply_lock pid fo ofd ty s e blocking env mem ip = Some (r, ip', mem')" and "rely_ok env"
    and "record_valid (pid, fo, ofd, ty, s, e)" and "lock_table_ok (i_flock ip)"
  shows "lock_table_ok (i_flock ip')"
  using record_section.loop_inv [OF assms(3,4), of env blocking False mem r ip' mem'] assms(1,2)
  by (simp add: apply_lock_def rely_ok_def)

lemma do_fcntl_lock_ok:
  assumes "do_fcntl_lock pid f cmd lk env mem ip = Some (r, lk', ip', mem') \<or>
      do_fcntl_lock_ofd pid f cmd lk env mem ip = Some (r, lk', ip', mem')"
    and "rely_ok env" and ok: "lock_table_ok (i_flock ip)"
  shows "lock_table_ok (i_flock ip')"
proof (cases "flock_range f ip lk")
  case (Inr se)
  obtain s e where se: "se = (s, e)" by (cases se)
  have v: "record_valid (pid, fo, ofd, l_type lk, s, e)" for fo ofd
    using flock_range_valid Inr se by simp
  show ?thesis
    using assms(1) ok apply_lock_ok [OF _ assms(2) v ok]
    by (auto simp: do_fcntl_lock_def do_fcntl_lock_ofd_def Inr se split: if_splits)
qed (use assms in \<open>auto simp: do_fcntl_lock_def do_fcntl_lock_ofd_def\<close>)

lemma do_flock_ok:
  assumes "do_flock pid f operation env mem ip = Some (r, ip', mem')" and "rely_ok env"
    and ok: "lock_table_ok (i_flock ip)"
  shows "lock_table_ok (i_flock ip')"
proof -
  have "bsd_attempt (pid, f_id f, oper) = flock_attempt pid (f_id f) oper" for oper by (rule ext) simp
  then show ?thesis
    using assms bsd_section.loop_inv [OF TrueI ok, where env = env and wq = False and mem = mem and r = r
        and ip' = ip' and mem' = mem' and q = "(pid, f_id f, _)"]
    by (auto simp: do_flock_def rely_ok_def Let_def split: if_splits)
qed

lemma release_where_ok: "lock_table_ok (i_flock ip) \<Longrightarrow> lock_table_ok (i_flock (release_where P ip))"
  by (auto simp: release_where_def Let_def bsd_drop_ok)

text \<open>What a compatible table means byte by byte.\<close>

lemma lock_table_ok_bytes:
  assumes ok: "lock_table_ok ls" and h: "holds ls o1 b t1" "holds ls o2 b t2"
    and u: "(\<exists>x. o1 = Bsd x) \<longleftrightarrow> (\<exists>x. o2 = Bsd x)"
  shows "o1 = o2 \<and> t1 = t2 \<or> o1 \<noteq> o2 \<and> t1 = F_RDLCK \<and> t2 = F_RDLCK"
proof -
  obtain i where i: "i < length ls" "lock_owner (ls ! i) = o1" "lk_start (ls ! i) \<le> b" "b < lk_end (ls ! i)"
    "lk_type (ls ! i) = t1" using h(1) by (auto simp: holds_def in_set_conv_nth)
  obtain j where j: "j < length ls" "lock_owner (ls ! j) = o2" "lk_start (ls ! j) \<le> b" "b < lk_end (ls ! j)"
    "lk_type (ls ! j) = t2" using h(2) by (auto simp: holds_def in_set_conv_nth)
  have C: "compatible (ls ! m) (ls ! n)" if "m < n" "n < length ls" for m n
    using ok that by (simp add: lock_table_ok_def sorted_wrt_iff_nth_less)
  show ?thesis
  proof (cases "i = j")
    case False
    then have "compatible (ls ! i) (ls ! j)"
      using C i j compatible_sym by (metis linorder_neqE_nat)
    moreover have "is_bsd (ls ! i) = is_bsd (ls ! j)"
      using u i(2) j(2) by (auto simp: lock_owner_def split: if_splits)
    moreover have "overlap (ls ! i) (ls ! j)" using i j by (simp add: overlap_def)
    ultimately show ?thesis using i j by (auto simp: compatible_def)
  qed (use i j in auto)
qed

subsection \<open>Properties\<close>

text \<open>
  Every state an inode's lock list can reach by the entry points of this file, from the empty
  list, with any arguments, any allocation failures and any rely-respecting interference
  while a request is blocked.
\<close>

inductive lock_reach :: "inode \<Rightarrow> bool" where
  fresh: "i_flock ip = [] \<Longrightarrow> lock_reach ip"
| posix: "lock_reach ip \<Longrightarrow> rely_ok env \<Longrightarrow> do_fcntl_lock pid f cmd lk env mem ip = Some (r, lk', ip', mem') \<Longrightarrow>
    lock_reach ip'"
| ofd: "lock_reach ip \<Longrightarrow> rely_ok env \<Longrightarrow> do_fcntl_lock_ofd pid f cmd lk env mem ip = Some (r, lk', ip', mem') \<Longrightarrow>
    lock_reach ip'"
| bsd: "lock_reach ip \<Longrightarrow> rely_ok env \<Longrightarrow> do_flock pid f operation env mem ip = Some (r, ip', mem') \<Longrightarrow>
    lock_reach ip'"
| exit_pid: "lock_reach ip \<Longrightarrow> lock_reach (release_pid_on_inode pid ip)"
| close_file: "lock_reach ip \<Longrightarrow> lock_reach (file_lock_release_file f ip)"
| evict: "lock_reach ip \<Longrightarrow> lock_reach (file_lock_release_all ip)"

lemma lock_reach_ok: "lock_reach ip \<Longrightarrow> lock_table_ok (i_flock ip)"
proof (induction rule: lock_reach.induct)
  case (posix ip env pid f cmd lk mem r lk' ip' mem')
  then show ?case using do_fcntl_lock_ok by blast
next
  case (ofd ip env pid f cmd lk mem r lk' ip' mem')
  then show ?case using do_fcntl_lock_ok by blast
next
  case (bsd ip env pid f operation mem r ip' mem')
  then show ?case using do_flock_ok by blast
qed (auto simp: release_pid_on_inode_def file_lock_release_file_def file_lock_release_all_def release_where_ok)

text \<open>
  C9. Mutual exclusion: in every reachable state, two holders of one byte within the record-lock
  universe (POSIX and OFD) or within the BSD universe are the same owner with the same mode, or
  different owners that both hold read locks.
\<close>

theorem lock_exclusion:
  assumes "lock_reach ip" and "holds (i_flock ip) o1 b t1" and "holds (i_flock ip) o2 b t2"
    and "(\<exists>x. o1 = Bsd x) \<longleftrightarrow> (\<exists>x. o2 = Bsd x)"
  shows "o1 = o2 \<and> t1 = t2 \<or> o1 \<noteq> o2 \<and> t1 = F_RDLCK \<and> t2 = F_RDLCK"
  by (rule lock_table_ok_bytes [OF lock_reach_ok [OF assms(1)] assms(2-4)])

text \<open>An inode on which process 7 holds a write lock on bytes 10 to 19, and a request for it.\<close>

definition demo_file :: open_file where
  "demo_file = \<lparr>f_id = 1, f_has_inode = True, f_offset = 0\<rparr>"

definition demo_flock :: flock where
  "demo_flock = \<lparr>l_type = 1, l_whence = 0, l_start = 10, l_len = 10, l_pid = 0\<rparr>"

definition demo_inode :: inode where
  "demo_inode = \<lparr>i_flock = [mk_lock 7 None False F_WRLCK 10 20], i_size = 100, i_wq = False, wq_wakes = 0\<rparr>"

lemma demo_range: "flock_range demo_file ip demo_flock = Inr (10, 20)"
  by (simp add: flock_range_def demo_file_def demo_flock_def lock_consts add64_small u64_of_int_def flock_end_def U64_def)

lemma demo_type: "l_type demo_flock = F_WRLCK"
  by (simp add: demo_flock_def lock_consts)

lemma demo_inode_reach: "lock_reach demo_inode"
proof -
  let ?ip = "demo_inode\<lparr>i_flock := []\<rparr>"
  have "do_fcntl_lock 7 demo_file F_SETLK demo_flock [] [] ?ip = Some (Inr (), demo_flock, demo_inode, [])"
    by (simp add: do_fcntl_lock_def demo_range demo_type apply_lock_def lock_wait_loop_done apply_attempt_def
        demo_inode_def locks_insert_def locks_delete_range_def wake_up_inode_def)
  moreover have "lock_reach ?ip" by (rule lock_reach.fresh) simp
  ultimately show ?thesis using lock_reach.posix [of ?ip "[]"] by (simp add: rely_ok_def)
qed

theorem lock_exclusion_witness:
  "holds (i_flock demo_inode) (Posix 7) 12 F_WRLCK \<and> \<not> holds (i_flock demo_inode) (Ofd (Some 3)) 12 F_RDLCK"
proof -
  have h: "holds (i_flock demo_inode) (Posix 7) 12 F_WRLCK" by (simp add: demo_inode_def req_owner_def)
  then show ?thesis using lock_exclusion [OF demo_inode_reach h, of "Ofd (Some 3)" F_RDLCK] by (auto simp: lock_consts)
qed


text \<open>
  C10. A record-lock request, byte by byte. With memory available, a non-blocking request either
  meets a conflicting lock of another owner, and then fails with EAGAIN and changes nothing, or
  succeeds: exactly the requested bytes of exactly that owner take the requested mode (or no
  mode, for an unlock), and nobody holds anything different anywhere else.
\<close>

theorem apply_lock_bytes:
  assumes "record_valid (pid, fo, ofd, ty, s, e)" and "kmem_all_ok mem"
  shows "if \<exists>l \<in> set (i_flock ip). record_blocks (pid, fo, ofd, ty, s, e) l
    then apply_lock pid fo ofd ty s e False env mem ip = Some (Inl EAGAIN, ip, mem)
    else \<exists>ip' mem'. apply_lock pid fo ofd ty s e False env mem ip = Some (Inr (), ip', mem') \<and>
      (\<forall>own b t. holds (i_flock ip') own b t \<longleftrightarrow>
         (if own = req_owner pid fo ofd \<and> s \<le> b \<and> b < e then ty \<noteq> F_UNLCK \<and> t = ty
          else holds (i_flock ip) own b t))"
proof (cases "\<exists>l \<in> set (i_flock ip). record_blocks (pid, fo, ofd, ty, s, e) l")
  case True
  then show ?thesis
    using record_section.loop_nonblocking [OF assms(1), of _ ip False env mem] by (auto simp: apply_lock_def)
next
  case False
  then have nc: "ty \<noteq> F_UNLCK \<Longrightarrow> find_conflict pid fo ofd ty s e (i_flock ip) = None"
    unfolding find_conflict_None by auto
  have se: "s \<le> e" and ty: "ty = F_RDLCK \<or> ty = F_WRLCK \<or> ty = F_UNLCK" using assms(1) by auto
  show ?thesis
  proof (cases "ty = F_UNLCK")
    case True
    obtain ds m where D: "locks_delete_range pid fo ofd s e (i_flock ip) mem = (ds, m)" by fastforce
    note S = locks_delete_range_spec(2,5) [OF D se]
    have "holds ds own b t \<longleftrightarrow> (if own = req_owner pid fo ofd \<and> s \<le> b \<and> b < e then False else holds (i_flock ip) own b t)"
      for own b t using S(1) [of own b t] S(2) [OF assms(2), of own b t] by auto
    then show ?thesis using False True D
      by (auto simp: apply_lock_def lock_wait_loop_done apply_attempt_def)
  next
    case False
    obtain r ls m where I: "locks_insert pid fo ofd ty s e (i_flock ip) mem = (r, ls, m)" by (metis prod_cases3)
    have ty': "ty = F_RDLCK \<or> ty = F_WRLCK" using ty False by blast
    note S = locks_insert_spec(3) [OF I se ty' nc [OF False] assms(2)]
    show ?thesis using \<open>\<not> (\<exists>l \<in> _. _ l)\<close> False I S nc [OF False]
      by (auto simp: apply_lock_def lock_wait_loop_done apply_attempt_def)
  qed
qed

theorem apply_lock_bytes_witness:
  "apply_lock 9 None False F_RDLCK 0 30 False [] [] demo_inode = Some (Inl EAGAIN, demo_inode, []) \<and>
   (\<exists>ip' mem'. apply_lock 7 None False F_UNLCK 12 15 False [] [] demo_inode = Some (Inr (), ip', mem') \<and>
      holds (i_flock ip') (Posix 7) 11 F_WRLCK \<and> \<not> holds (i_flock ip') (Posix 7) 12 F_WRLCK)"
proof -
  have b: "\<exists>l \<in> set (i_flock demo_inode). record_blocks (9, None, False, F_RDLCK, 0, 30) l"
    by (simp add: demo_inode_def req_owner_def)
  have nb: "\<not> (\<exists>l \<in> set (i_flock demo_inode). record_blocks (7, None, False, F_UNLCK, 12, 15) l)" by simp
  have h: "holds (i_flock demo_inode) (Posix 7) 11 F_WRLCK" by (simp add: demo_inode_def req_owner_def)
  show ?thesis
    using apply_lock_bytes [of 9 None False F_RDLCK 0 30 "[]" demo_inode "[]"] b
      apply_lock_bytes [of 7 None False F_UNLCK 12 15 "[]" demo_inode "[]"] nb h
    by (auto simp: req_owner_def)
qed

lemma find_conflict_blocks:
  "find_conflict pid fo ofd ty s e ls = Some l \<Longrightarrow> ty \<noteq> F_UNLCK \<Longrightarrow> l \<in> set ls \<and> record_blocks (pid, fo, ofd, ty, s, e) l"
  by (induction ls) (auto simp: same_owner_iff split: if_splits)

lemma probe_apply:
  assumes "record_valid (pid, fo, ofd, ty, s, e)" and "ty \<noteq> F_UNLCK" and "kmem_all_ok mem"
  shows "case find_conflict pid fo ofd ty s e (i_flock ip) of
      None \<Rightarrow> \<exists>ip' mem'. apply_lock pid fo ofd ty s e False env mem ip = Some (Inr (), ip', mem')
    | Some l \<Rightarrow> l \<in> set (i_flock ip) \<and> apply_lock pid fo ofd ty s e False env mem ip = Some (Inl EAGAIN, ip, mem)"
proof (cases "find_conflict pid fo ofd ty s e (i_flock ip)")
  case None
  obtain r ls m where I: "locks_insert pid fo ofd ty s e (i_flock ip) mem = (r, ls, m)" by (metis prod_cases3)
  have "r = Inr ()" using locks_insert_spec(3) [OF I _ _ None assms(3)] assms(1,2) by auto
  then show ?thesis using None I assms(2) by (simp add: apply_lock_def lock_wait_loop_done apply_attempt_def)
next
  case (Some l)
  then show ?thesis
    using assms(2) find_conflict_blocks [OF Some assms(2)]
    by (simp add: apply_lock_def lock_wait_loop_refused apply_attempt_def)
qed

text \<open>
  C11. F_GETLK predicts F_SETLK, for POSIX and for OFD locks: the probe changes nothing and
  reports F_UNLCK exactly when the same request would be granted; otherwise the request would
  fail with EAGAIN and the report describes a lock of the table.
\<close>

theorem getlk_predicts_setlk:
  assumes "flock_range f ip lk = Inr (s, e)" and "l_type lk \<noteq> F_UNLCK" and "kmem_all_ok mem"
    and "lock_table_ok (i_flock ip)"
  shows "(\<exists>rep ip' mem'. do_fcntl_lock pid f F_GETLK lk env mem ip = Some (Inr (), rep, ip, mem) \<and>
      (if l_type rep = F_UNLCK then do_fcntl_lock pid f F_SETLK lk env mem ip = Some (Inr (), lk, ip', mem')
       else do_fcntl_lock pid f F_SETLK lk env mem ip = Some (Inl EAGAIN, lk, ip, mem) \<and>
         (\<exists>l \<in> set (i_flock ip). rep = getlk_report (Some l)))) \<and>
    (\<exists>rep ip' mem'. do_fcntl_lock_ofd pid f F_OFD_GETLK lk env mem ip = Some (Inr (), rep, ip, mem) \<and>
      (if l_type rep = F_UNLCK then do_fcntl_lock_ofd pid f F_OFD_SETLK lk env mem ip = Some (Inr (), lk, ip', mem')
       else do_fcntl_lock_ofd pid f F_OFD_SETLK lk env mem ip = Some (Inl EAGAIN, lk, ip, mem) \<and>
         (\<exists>l \<in> set (i_flock ip). rep = getlk_report (Some l))))"
proof -
  have v: "record_valid (pid, fo, ofd, l_type lk, s, e)" for fo ofd
    using flock_range_valid [OF assms(1)] by simp
  have ty: "lk_type l \<noteq> F_UNLCK" if "l \<in> set (i_flock ip)" for l
    using assms(4) that by (auto simp: lock_table_ok_def lock_wf_def)
  note P = probe_apply [OF v assms(2,3), where ip = ip and env = env]
  show ?thesis
    using P [of None False] P [of "Some (f_id f)" True] ty
    by (auto simp: do_fcntl_lock_def do_fcntl_lock_ofd_def assms(1) getlk_report_def split: option.splits)
qed

theorem getlk_predicts_setlk_witness:
  "\<exists>rep. do_fcntl_lock 9 demo_file F_GETLK demo_flock [] [] demo_inode = Some (Inr (), rep, demo_inode, []) \<and>
     l_type rep = F_WRLCK \<and> l_pid rep = 7 \<and>
     do_fcntl_lock 9 demo_file F_SETLK demo_flock [] [] demo_inode = Some (Inl EAGAIN, demo_flock, demo_inode, [])"
proof -
  have "do_fcntl_lock 9 demo_file F_GETLK demo_flock [] [] demo_inode =
      Some (Inr (), getlk_report (Some (mk_lock 7 None False F_WRLCK 10 20)), demo_inode, [])"
    by (simp add: do_fcntl_lock_def demo_range demo_type demo_inode_def same_owner_iff req_owner_def)
  then show ?thesis
    using getlk_predicts_setlk [OF demo_range, of "[]" demo_inode 9 "[]"] lock_reach_ok [OF demo_inode_reach]
    by (auto simp: demo_type getlk_report_def mk_lock_def)
qed


text \<open>The operations of another task that may take a lock away.\<close>

datatype lock_release = Rel_unlock int "nat option" bool u64 u64 kmem | Rel_exit int | Rel_close open_file

fun run_release :: "lock_release \<Rightarrow> inode \<Rightarrow> inode" where
  "run_release (Rel_unlock pid fo ofd s e mem) ip =
     (case apply_lock pid fo ofd F_UNLCK s e False [] mem ip of None \<Rightarrow> ip | Some (r, ip', mem') \<Rightarrow> ip')"
| "run_release (Rel_exit pid) ip = release_pid_on_inode pid ip"
| "run_release (Rel_close f) ip = file_lock_release_file f ip"

lemma release_where_wakes:
  "i_wq ip \<Longrightarrow> i_flock (release_where P ip) \<noteq> i_flock ip \<Longrightarrow> wq_wakes (release_where P ip) = Suc (wq_wakes ip)"
  by (cases "\<exists>fl \<in> set (i_flock ip). P fl") (auto simp: release_where_def Let_def wake_up_inode_def)

lemma unlock_runs:
  "apply_lock pid fo ofd F_UNLCK s e blocking env mem ip =
     (let (ls, mem) = locks_delete_range pid fo ofd s e (i_flock ip) mem in Some (Inr (), wake_up_inode (ip\<lparr>i_flock := ls\<rparr>), mem))"
proof -
  obtain ls m where d: "locks_delete_range pid fo ofd s e (i_flock ip) mem = (ls, m)" by fastforce
  then have "apply_attempt pid fo ofd F_UNLCK s e ip mem = Some (Inr (), wake_up_inode (ip\<lparr>i_flock := ls\<rparr>), m)" by (simp add: apply_attempt_def)
  then show ?thesis by (simp add: apply_lock_def lock_wait_loop_done d)
qed

lemma run_release_wakes:
  assumes "i_wq ip" and "i_flock (run_release rel ip) \<noteq> i_flock ip"
  shows "wq_wakes (run_release rel ip) = Suc (wq_wakes ip)"
  using assms
  by (cases rel)
    (auto simp: unlock_runs wake_up_inode_def release_pid_on_inode_def file_lock_release_file_def release_where_wakes split: prod.splits if_splits)

text \<open>
  C12. F_SETLKW waits for the release of the lock that blocks it, here by an unlock, an exit or a
  close of another task after any other activity \<open>g\<close>. When the release comes while the task is
  blocked it is woken and, with memory available, the request returns success. When the same release
  comes in the window between the conflict check and the store of BLOCKED, the wake-up is lost and
  the request sleeps on although nothing blocks it.
\<close>

theorem setlkw_returns:
  assumes "record_valid (pid, fo, ofd, ty, s, e)" and "i_wq ip" and "\<exists>l \<in> set (i_flock ip). record_blocks (pid, fo, ofd, ty, s, e) l"
    and "i_wq (g ip)" and "wq_wakes ip \<le> wq_wakes (g ip)" and "\<exists>l \<in> set (i_flock (g ip)). record_blocks (pid, fo, ofd, ty, s, e) l"
    and "\<forall>l \<in> set (i_flock (run_release rel (g ip))). \<not> record_blocks (pid, fo, ofd, ty, s, e) l" and "kmem_all_ok mem"
  shows "(\<exists>ip' mem'. apply_lock pid fo ofd ty s e True [(id, run_release rel \<circ> g, False, False)] mem ip = Some (Inr (), ip', mem')) \<and>
    apply_lock pid fo ofd ty s e True [(run_release rel \<circ> g, id, False, False)] mem ip = None"
proof -
  let ?q = "(pid, fo, ofd, ty, s, e)" and ?ip = "run_release rel (g ip)"
  obtain l where l: "l \<in> set (i_flock ip)" "record_blocks ?q l" using assms(3) by blast
  have "i_flock ?ip \<noteq> i_flock (g ip)" using assms(6,7) by metis
  then have "wq_wakes ?ip \<noteq> wq_wakes ip" using run_release_wakes [OF assms(4)] assms(5) by simp
  then obtain out where L: "apply_lock pid fo ofd ty s e True [(id, run_release rel \<circ> g, False, False)] mem ip = Some out"
    and A: "apply_attempt pid fo ofd ty s e ?ip mem = Some out"
    using record_section.loop_woken [OF assms(1) _ l, of False "run_release rel \<circ> g" id False "[]" mem] assms(2,7) by (auto simp: apply_lock_def)
  have "fst out = Inr ()"
  proof (cases "ty = F_UNLCK")
    case False
    with A obtain r ls m where nc: "find_conflict pid fo ofd ty s e (i_flock ?ip) = None"
      and I: "locks_insert pid fo ofd ty s e (i_flock ?ip) mem = (r, ls, m)" and o: "fst out = r"
      by (auto simp: apply_attempt_def split: option.splits prod.splits)
    show ?thesis using locks_insert_spec(3) [OF I _ _ nc assms(8)] assms(1) False o by auto
  qed (use A in \<open>auto simp: apply_attempt_def split: prod.splits\<close>)
  moreover have "apply_lock pid fo ofd ty s e True [(run_release rel \<circ> g, id, False, False)] mem ip = None"
    using record_section.loop_asleep [OF assms(1) _ l, of False id "run_release rel \<circ> g" False "[]" mem] assms(2) by (simp add: apply_lock_def)
  ultimately show ?thesis using L by (cases out) auto
qed

theorem setlkw_returns_witness:
  "(\<exists>ip' mem'. apply_lock 9 None False F_WRLCK 0 30 True [(id, run_release (Rel_exit 7) \<circ> id, False, False)] []
      (demo_inode\<lparr>i_wq := True\<rparr>) = Some (Inr (), ip', mem')) \<and>
   apply_lock 9 None False F_WRLCK 0 30 True [(run_release (Rel_exit 7) \<circ> id, id, False, False)] [] (demo_inode\<lparr>i_wq := True\<rparr>) = None"
  by (rule setlkw_returns)
    (simp_all add: demo_inode_def release_pid_on_inode_def release_where_def wake_up_inode_def mk_lock_def lock_owner_def req_owner_def lock_consts)

text \<open>
  C13. BSD flock: a non-blocking request by a description fails with EWOULDBLOCK, unchanged,
  exactly when another description holds an incompatible BSD lock. Otherwise it succeeds, record
  locks are untouched, an exclusive lock is then the only BSD lock of the inode, a shared lock
  stands among shared locks only, and an unlock leaves the description with none.
\<close>

theorem do_flock_exclusive:
  assumes "f_has_inode f" and "oper = LOCK_SH \<or> oper = LOCK_EX \<or> oper = LOCK_UN" and "kmem_all_ok mem"
  shows "if \<exists>l \<in> set (i_flock ip). bsd_blocks (pid, f_id f, oper) l
    then do_flock pid f (oper + LOCK_NB) env mem ip = Some (Inl EAGAIN, ip, mem)
    else \<exists>ip' mem'. do_flock pid f (oper + LOCK_NB) env mem ip = Some (Inr (), ip', mem') \<and>
      filter (\<lambda>l. \<not> is_bsd l) (i_flock ip') = filter (\<lambda>l. \<not> is_bsd l) (i_flock ip) \<and>
      (oper = LOCK_EX \<longrightarrow> filter is_bsd (i_flock ip') = [mk_bsd_lock pid (f_id f) F_WRLCK]) \<and>
      (oper = LOCK_SH \<longrightarrow> mk_bsd_lock pid (f_id f) F_RDLCK \<in> set (i_flock ip') \<and>
         (\<forall>l \<in> set (i_flock ip'). is_bsd l \<longrightarrow> lk_type l = F_RDLCK)) \<and>
      (oper = LOCK_UN \<longrightarrow> (\<forall>l \<in> set (i_flock ip'). lock_owner l \<noteq> Bsd (Some (f_id f))))"
proof -
  have op: "odd ((oper + LOCK_NB) div LOCK_NB)" using assms(2) by (auto simp: flock_consts)
  have D: "do_flock pid f (oper + LOCK_NB) env mem ip = lock_wait_loop (flock_attempt pid (f_id f) oper) False False env mem ip"
    using op assms(1) by (simp add: do_flock_def Let_def)
  show ?thesis
  proof (cases "\<exists>l \<in> set (i_flock ip). bsd_blocks (pid, f_id f, oper) l")
    case True
    then show ?thesis using bsd_section.loop_nonblocking [OF TrueI, of _ ip "(pid, f_id f, oper)" False env mem]
      by (auto simp: D)
  next
    case False
    define ls where "ls = bsd_flock_drop (f_id f) (i_flock ip) @
      (if oper = LOCK_UN then [] else [mk_bsd_lock pid (f_id f) (if oper = LOCK_SH then F_RDLCK else F_WRLCK)])"
    have "fst (kmalloc_ok mem)" using kmem_all_okD [OF assms(3)] by simp
    moreover have "bsd_flock_conflict (f_id f) ty (i_flock ip) = None" if "flock_op_type oper = Some ty" for ty
      using False that assms(2) unfolding bsd_flock_conflict_None
      by (auto simp: flock_op_type_def flock_consts lock_consts split: if_splits)
    ultimately obtain ip' mem' where A: "flock_attempt pid (f_id f) oper ip mem = Some (Inr (), ip', mem')"
      and ls: "i_flock ip' = ls"
      using assms(2) by (cases "kmalloc_ok mem") (auto simp: flock_attempt_def flock_op_type_def ls_def flock_consts Let_def)
    have "filter (\<lambda>l. \<not> is_bsd l) ls = filter (\<lambda>l. \<not> is_bsd l) (i_flock ip)"
      by (auto simp: ls_def bsd_flock_drop_def intro: filter_cong)
    moreover have "filter is_bsd ls = [mk_bsd_lock pid (f_id f) F_WRLCK]" if "oper = LOCK_EX"
      using False that by (auto simp: ls_def bsd_flock_drop_def flock_consts filter_empty_conv)
    moreover have "\<forall>l \<in> set ls. is_bsd l \<longrightarrow> lk_type l = F_RDLCK" if "oper = LOCK_SH"
      using False that by (auto simp: ls_def bsd_flock_drop_def flock_consts)
    moreover have "\<forall>l \<in> set ls. lock_owner l \<noteq> Bsd (Some (f_id f))" if "oper = LOCK_UN"
      using that by (auto simp: ls_def bsd_flock_drop_def lock_owner_def)
    moreover have "mk_bsd_lock pid (f_id f) F_RDLCK \<in> set ls" if "oper = LOCK_SH"
      using that by (simp add: ls_def flock_consts)
    ultimately show ?thesis using False A ls by (simp add: D lock_wait_loop_done)
  qed
qed

theorem do_flock_exclusive_witness:
  "\<exists>ip' mem'. do_flock 7 demo_file (LOCK_EX + LOCK_NB) [] [] demo_inode = Some (Inr (), ip', mem') \<and>
     filter is_bsd (i_flock ip') = [mk_bsd_lock 7 1 F_WRLCK]"
proof -
  have f: "f_has_inode demo_file" "f_id demo_file = 1" by (simp_all add: demo_file_def)
  have nb: "\<not> (\<exists>l \<in> set (i_flock demo_inode). bsd_blocks (7, 1, LOCK_EX) l)" by (simp add: demo_inode_def)
  show ?thesis
    using do_flock_exclusive [OF f(1), of LOCK_EX "[]" demo_inode 7 "[]", unfolded f(2) if_not_P [OF nb]] by auto
qed


text \<open>
  C14. How negative lengths are treated: relative to the start of the file, \<open>l_len < 0\<close> is rejected
  only when the range would not reach below byte 0; otherwise the unsigned cast turns it into a
  range that runs to within \<open>-(l_start + l_len)\<close> bytes of the top of the address space.
\<close>

theorem flock_range_negative_len:
  assumes "f_has_inode f" and "l_type lk = F_RDLCK \<or> l_type lk = F_WRLCK \<or> l_type lk = F_UNLCK"
    and "l_whence lk = SEEK_SET" and "0 \<le> l_start lk" and "l_start lk < 2 ^ 63"
    and "- (2 ^ 63) \<le> l_len lk" and "l_len lk < 0"
  shows "flock_range f ip lk =
    (if l_start lk + l_len lk < 0 then Inr (nat (l_start lk), nat (l_start lk + l_len lk + 2 ^ 64)) else Inl EINVAL)"
proof -
  let ?s = "l_start lk" and ?n = "l_len lk"
  have "u64_of_int ?s = nat ?s" using assms(4,5) by (simp add: u64_of_int_def)
  moreover have n: "u64_of_int ?n = nat (?n + 2 ^ 64)"
  proof -
    have "?n mod 2 ^ 64 = (?n + 2 ^ 64) mod 2 ^ 64" by simp
    also have "\<dots> = ?n + 2 ^ 64" using assms(6,7) by (intro mod_pos_pos_trivial) auto
    finally show ?thesis by (simp add: u64_of_int_def)
  qed
  moreover have "add64 0 (nat ?s) = nat ?s" using assms(4,5) by (simp add: add64_small U64_def)
  moreover have "add64 (nat ?s) (nat (?n + 2 ^ 64)) =
      (if ?s + ?n < 0 then nat (?s + ?n + 2 ^ 64) else nat (?s + ?n))"
  proof -
    have sum: "nat ?s + nat (?n + 2 ^ 64) = nat (?s + ?n + 2 ^ 64)" using assms(4,6) by simp
    show ?thesis
    proof (cases "?s + ?n < 0")
      case True
      then have "nat (?s + ?n + 2 ^ 64) < U64" by (simp add: U64_def)
      then show ?thesis using True sum by (simp add: add64_def)
    next
      case False
      then have "nat (?s + ?n + 2 ^ 64) = nat (?s + ?n) + U64" by (simp add: U64_def nat_add_distrib)
      moreover have "nat (?s + ?n) < U64" using assms(5,7) by (simp add: U64_def)
      ultimately show ?thesis using False sum by (simp add: add64_def)
    qed
  qed
  moreover have "nat (?n + 2 ^ 64) \<noteq> 0" using assms(6) by simp
  ultimately show ?thesis
    using assms by (auto simp: flock_range_def flock_end_def Let_def lock_consts)
qed

theorem flock_range_negative_len_witness:
  "flock_range demo_file demo_inode (demo_flock\<lparr>l_start := 4, l_len := -6\<rparr>) = Inr (4, 2 ^ 64 - 2)"
  using flock_range_negative_len [of demo_file "demo_flock\<lparr>l_start := 4, l_len := -6\<rparr>" demo_inode]
  by (simp add: demo_file_def demo_flock_def lock_consts)

text \<open>
  C15. Locks at process exit: \<open>file_lock_release_pid\<close> removes every POSIX lock of the process and
  leaves all OFD locks and the POSIX locks of other processes alone, on every inode. It also
  removes every BSD lock that the process created, whether or not the open file description that
  owns it is still open elsewhere.
\<close>

theorem release_pid_exit:
  assumes "lock_table_ok (i_flock ip)" and "inodes i = Some ip"
  shows "\<exists>ip'. file_lock_release_pid pid inodes i = Some ip' \<and>
    (\<forall>b t. \<not> holds (i_flock ip') (Posix pid) b t) \<and>
    (\<forall>p b t. p \<noteq> pid \<longrightarrow> holds (i_flock ip') (Posix p) b t = holds (i_flock ip) (Posix p) b t) \<and>
    (\<forall>x b t. holds (i_flock ip') (Ofd x) b t = holds (i_flock ip) (Ofd x) b t) \<and>
    (\<forall>l \<in> set (i_flock ip). is_bsd l \<and> owner_pid l = pid \<longrightarrow> l \<notin> set (i_flock ip'))"
proof -
  let ?ip = "release_pid_on_inode pid ip"
  have s: "set (i_flock ?ip) = {l \<in> set (i_flock ip). is_ofd l \<or> owner_pid l \<noteq> pid}"
    by (auto simp: release_pid_on_inode_def release_where_def Let_def)
  have w: "is_bsd l \<longrightarrow> \<not> is_ofd l" if "l \<in> set (i_flock ip)" for l
    using assms(1) that by (auto simp: lock_table_ok_def lock_wf_def)
  have "\<forall>b t. \<not> holds (i_flock ?ip) (Posix pid) b t"
    by (auto simp: holds_def s lock_owner_def)
  moreover have "\<forall>p b t. p \<noteq> pid \<longrightarrow> holds (i_flock ?ip) (Posix p) b t = holds (i_flock ip) (Posix p) b t"
    by (auto simp: holds_def s lock_owner_def)
  moreover have "\<forall>x b t. holds (i_flock ?ip) (Ofd x) b t = holds (i_flock ip) (Ofd x) b t"
    by (auto simp: holds_def s lock_owner_def)
  ultimately show ?thesis using assms(2) w by (auto simp: file_lock_release_pid_def s)
qed

theorem release_pid_exit_witness:
  "\<exists>ip'. file_lock_release_pid 7 [3 \<mapsto> demo_inode\<lparr>i_flock := [mk_bsd_lock 7 1 F_WRLCK]\<rparr>] 3 = Some ip' \<and>
     mk_bsd_lock 7 1 F_WRLCK \<notin> set (i_flock ip')"
proof -
  have "lock_table_ok [mk_bsd_lock 7 1 F_WRLCK]" by (simp add: lock_table_ok_def lock_wf_def)
  then show ?thesis
    using release_pid_exit [of "demo_inode\<lparr>i_flock := [mk_bsd_lock 7 1 F_WRLCK]\<rparr>"
        "[3 \<mapsto> demo_inode\<lparr>i_flock := [mk_bsd_lock 7 1 F_WRLCK]\<rparr>]" 3 7]
    by (auto simp: mk_bsd_lock_def)
qed

end
