(* ===== verification/Vma.thy ===== *)
theory Vma
  imports Prelude "HOL-Library.Word"
begin

text \<open>
  The address-space regions of \<open>kernel/xcore/mem/vma.c\<close>: the vaddr-sorted list of
  \<open>mmap_region\<close> structures with lookup, insertion, gap search, splitting, merging, and the range
  operations behind mprotect, munmap and MAP_FIXED.

  A region list is a list of records; the pieces that \<open>vma_split\<close> links in place of a region
  replace it in the list. Reference counts of the backing objects are kept per object, so that
  the "every region struct owns exactly one reference" rule of the source is a balance equation.
\<close>

unbundle bit_operations_syntax

subsection \<open>Regions\<close>

record mmap_region =
  vaddr :: u64
  rsize :: u64
  phys :: u64
  shm_obj :: "nat option"
  prot :: "32 word"
  fd :: int
  offset :: u64
  rflags :: "32 word"
  r_inode :: "nat option"
  shm_private_src :: "nat option"
  r_owner :: "nat option"
  ra_last_page :: u64
  ra_next_page :: u64
  ra_window_pages :: nat
  ra_sequential_faults :: nat

definition KMAP_DMA_OWNED :: "32 word" where "KMAP_DMA_OWNED = 0x40000000"
definition KMAP_VMA_OWNER :: "32 word" where "KMAP_VMA_OWNER = 0x20000000"
definition KMAP_SHM_MAYWRITE :: "32 word" where "KMAP_SHM_MAYWRITE = 0x10000000"
definition MAP_FIXED :: "32 word" where "MAP_FIXED = 0x10"
definition MAP_FIXED_NOREPLACE :: "32 word" where "MAP_FIXED_NOREPLACE = 0x100000"

definition has_flag :: "32 word \<Rightarrow> 32 word \<Rightarrow> bool" where
  "has_flag fl bits \<longleftrightarrow> fl AND bits \<noteq> 0"

definition SIG_TRAMPOLINE_ADDR :: u64 where
  "SIG_TRAMPOLINE_ADDR = 0x50000000"

definition USER_VMA_UPPER_BOUND :: u64 where
  "USER_VMA_UPPER_BOUND = 0x800000000000"

text \<open>Backing objects: shared memory, its writable-mapping counter, inodes and device owners.\<close>

datatype backing = Shm nat | ShmWritable nat | Inode nat | Owner nat

text \<open>
  What the operations change besides the region list: reference counts, the leaf entries of the
  page table, the runs given back to the page allocator, the regions offered to the writeback
  hook, and the allocation outcomes still to come.
\<close>

record vma_env =
  refs :: "backing \<Rightarrow> int"
  ptes :: "u64 \<Rightarrow> bool"
  dma_freed :: "(nat \<times> nat) list"
  wb_log :: "(u64 \<times> u64) list"
  vmem :: kmem

definition region_end :: "mmap_region \<Rightarrow> u64" where
  "region_end r = add64 (vaddr r) (rsize r)"

definition overlaps_signal_trampoline :: "u64 \<Rightarrow> u64 \<Rightarrow> bool" where
  "overlaps_signal_trampoline start len =
     (if len = 0 \<or> UINT64_MAX - len < start then False
      else let stop = start + len
           in start < SIG_TRAMPOLINE_ADDR + PAGE_SIZE \<and> SIG_TRAMPOLINE_ADDR < stop)"

definition vma_reset_readahead :: "mmap_region \<Rightarrow> mmap_region" where
  "vma_reset_readahead r =
     r\<lparr>ra_last_page := UINT64_MAX, ra_next_page := 0, ra_window_pages := 0, ra_sequential_faults := 0\<rparr>"

subsection \<open>Lookup and insertion\<close>

fun vma_find :: "mmap_region list \<Rightarrow> u64 \<Rightarrow> mmap_region option" where
  "vma_find [] a = None"
| "vma_find (mr # mrs) a =
     (if a < vaddr mr then None else if a < region_end mr then Some mr else vma_find mrs a)"

fun vma_insert_sorted :: "mmap_region list \<Rightarrow> mmap_region \<Rightarrow> mmap_region list result" where
  "vma_insert_sorted [] r = Inr [r]"
| "vma_insert_sorted (mr # mrs) r =
     (if vaddr mr < vaddr r then map_sum id ((#) mr) (vma_insert_sorted mrs r)
      else if vaddr mr = vaddr r then Inl EEXIST
      else Inr (r # mr # mrs))"

definition ref_get :: "backing \<Rightarrow> vma_env \<Rightarrow> vma_env" where
  "ref_get b e = e\<lparr>refs := (refs e)(b := refs e b + 1)\<rparr>"

definition ref_put :: "backing \<Rightarrow> vma_env \<Rightarrow> vma_env" where
  "ref_put b e = e\<lparr>refs := (refs e)(b := refs e b - 1)\<rparr>"

text \<open>\<open>NULL\<close> owners are \<open>None\<close>; the callback table of a valid owner always has both callbacks.\<close>

definition vma_adopt_owner :: "mmap_region \<Rightarrow> nat option \<Rightarrow> mmap_region result" where
  "vma_adopt_owner r ow =
     (if ow = None \<or> has_flag (rflags r) KMAP_VMA_OWNER then Inl EINVAL
      else Inr (r\<lparr>r_owner := ow, rflags := rflags r OR KMAP_VMA_OWNER\<rparr>))"

definition vma_attach_owner :: "mmap_region \<Rightarrow> nat option \<Rightarrow> vma_env \<Rightarrow> mmap_region result \<times> vma_env" where
  "vma_attach_owner r ow e =
     (case vma_adopt_owner r ow of
        Inl err \<Rightarrow> (Inl err, e)
      | Inr r' \<Rightarrow> (Inr r', ref_get (Owner (the ow)) e))"

definition vma_owner_get :: "mmap_region \<Rightarrow> vma_env \<Rightarrow> vma_env" where
  "vma_owner_get r e = (if has_flag (rflags r) KMAP_VMA_OWNER then ref_get (Owner (the (r_owner r))) e else e)"

definition vma_owner_put :: "mmap_region \<Rightarrow> vma_env \<Rightarrow> mmap_region \<times> vma_env" where
  "vma_owner_put r e =
     (if has_flag (rflags r) KMAP_VMA_OWNER
      then (r\<lparr>rflags := rflags r AND NOT KMAP_VMA_OWNER, r_owner := None\<rparr>, ref_put (Owner (the (r_owner r))) e)
      else (r, e))"

subsection \<open>Gap search\<close>

fun vma_overlaps :: "mmap_region list \<Rightarrow> u64 \<Rightarrow> u64 \<Rightarrow> bool" where
  "vma_overlaps [] start stop = False"
| "vma_overlaps (mr # mrs) start stop =
     (if stop \<le> vaddr mr then False else if start < region_end mr then True else vma_overlaps mrs start stop)"

text \<open>The page-by-page scan of the page table; 0 is "nothing mapped".\<close>

function scan_ptes :: "(u64 \<Rightarrow> bool) \<Rightarrow> u64 \<Rightarrow> u64 \<Rightarrow> u64" where
  "scan_ptes present va stop =
     (if va < stop then if present va then va else scan_ptes present (va + PAGE_SIZE) stop else 0)"
  by pat_completeness auto

termination scan_ptes
  by (relation "measure (\<lambda>(present, va, stop). stop - va)") (auto simp: PAGE_SIZE_def)

declare scan_ptes.simps [simp del]

definition first_mapped_page :: "(u64 \<Rightarrow> bool) \<Rightarrow> u64 \<Rightarrow> u64 \<Rightarrow> u64" where
  "first_mapped_page present start len =
     (if overlaps_signal_trampoline start len then SIG_TRAMPOLINE_ADDR
      else scan_ptes present start (add64 start len))"

text \<open>The inner \<open>for\<close>: the end of the first region in the way, if any.\<close>

fun gap_obstacle :: "mmap_region list \<Rightarrow> u64 \<Rightarrow> u64 \<Rightarrow> u64 option" where
  "gap_obstacle [] cur len = None"
| "gap_obstacle (mr # mrs) cur len =
     (if region_end mr \<le> cur then gap_obstacle mrs cur len
      else if add64 cur len \<le> vaddr mr then None
      else Some (region_end mr))"

lemma gap_obstacle_gt: "gap_obstacle mrs cur len = Some c \<Longrightarrow> cur < c"
  by (induction mrs) (auto split: if_splits)

lemma scan_ptes_ge: "scan_ptes present va stop \<noteq> 0 \<Longrightarrow> va \<le> scan_ptes present va stop"
  by (induction present va stop rule: scan_ptes.induct)
    (subst (asm) scan_ptes.simps, subst scan_ptes.simps, auto split: if_splits)

lemma first_mapped_page_gt: "first_mapped_page present cur len \<noteq> 0 \<Longrightarrow> cur < first_mapped_page present cur len + PAGE_SIZE"
  using scan_ptes_ge [of present cur "add64 cur len"]
  by (auto simp: first_mapped_page_def overlaps_signal_trampoline_def Let_def PAGE_SIZE_def split: if_splits)

function gap_loop :: "mmap_region list \<Rightarrow> (u64 \<Rightarrow> bool) \<Rightarrow> u64 \<Rightarrow> u64 \<Rightarrow> u64" where
  "gap_loop mrs present len cur =
     (if USER_VMA_UPPER_BOUND \<le> cur \<or> USER_VMA_UPPER_BOUND - cur < len then 0
      else
        case gap_obstacle mrs cur len of
          Some c \<Rightarrow> gap_loop mrs present len c
        | None \<Rightarrow>
            let mapped = first_mapped_page present cur len in
            if mapped = 0 then cur else gap_loop mrs present len (mapped + PAGE_SIZE))"
  by pat_completeness auto

termination gap_loop
  by (relation "measure (\<lambda>(mrs, present, len, cur). USER_VMA_UPPER_BOUND - cur)")
    (auto dest: gap_obstacle_gt intro!: diff_less_mono2 first_mapped_page_gt)

declare gap_loop.simps [simp del]

definition vma_find_gap :: "mmap_region list \<Rightarrow> (u64 \<Rightarrow> bool) \<Rightarrow> u64 \<Rightarrow> u64 \<Rightarrow> u64 \<Rightarrow> u64" where
  "vma_find_gap mrs present mmap_brk len hint =
     (if hint \<noteq> 0 \<and> len \<le> sub64 USER_VMA_UPPER_BOUND hint \<and> \<not> vma_overlaps mrs hint (add64 hint len) \<and>
         first_mapped_page present hint len = 0
      then hint
      else gap_loop mrs present len (if hint < mmap_brk then mmap_brk else hint))"

subsection \<open>Splitting and merging\<close>

text \<open>
  The references a region struct owns, in the order they are taken. The flag KMAP_SHM_MAYWRITE is set
  by the shared-memory mappings only, which have a memory object; \<open>sys_mmap\<close> rejects it in the caller's flags.
\<close>

definition region_refs :: "mmap_region \<Rightarrow> backing list" where
  "region_refs r =
     (case shm_obj r of Some s \<Rightarrow> [Shm s] | None \<Rightarrow> []) @
     (case shm_obj r of
        Some s \<Rightarrow> if has_flag (rflags r) KMAP_SHM_MAYWRITE then [ShmWritable s] else []
      | None \<Rightarrow> []) @
     (case r_inode r of Some i \<Rightarrow> [Inode i] | None \<Rightarrow> []) @
     (case shm_private_src r of Some s \<Rightarrow> [Shm s] | None \<Rightarrow> []) @
     (if has_flag (rflags r) KMAP_VMA_OWNER then [Owner (the (r_owner r))] else [])"

definition get_refs :: "mmap_region \<Rightarrow> vma_env \<Rightarrow> vma_env" where
  "get_refs r e = fold ref_get (region_refs r) e"

definition put_refs :: "mmap_region \<Rightarrow> vma_env \<Rightarrow> vma_env" where
  "put_refs r e = fold ref_put (region_refs r) e"

definition vma_kmalloc :: "vma_env \<Rightarrow> bool \<times> vma_env" where
  "vma_kmalloc e = (let (ok, m) = kmalloc_ok (vmem e) in (ok, e\<lparr>vmem := m\<rparr>))"

text \<open>A piece of \<open>r\<close> that starts \<open>delta\<close> bytes into it.\<close>

definition piece :: "mmap_region \<Rightarrow> u64 \<Rightarrow> u64 \<Rightarrow> mmap_region" where
  "piece r delta sz =
     (vma_reset_readahead r)\<lparr>vaddr := add64 (vaddr r) delta, rsize := sz, offset := add64 (offset r) delta,
       phys := (if phys r \<noteq> 0 then add64 (phys r) delta else 0)\<rparr>"

text \<open>
  \<open>vma_split\<close>: on success the front (if any), the middle and the tail (if any) that replace the
  region; \<open>None\<close> for NULL, with the region left as it is.
\<close>

definition vma_split ::
  "mmap_region \<Rightarrow> u64 \<Rightarrow> u64 \<Rightarrow> vma_env \<Rightarrow>
     (mmap_region list \<times> mmap_region \<times> mmap_region list) option \<times> vma_env" where
  "vma_split r addr sz e =
     (if sz = 0 \<or> addr < vaddr r \<or> region_end r < add64 addr sz then (None, e)
      else
        let r_end = region_end r;
            delta = sub64 addr (vaddr r);
            (ok, e) = vma_kmalloc e
        in if \<not> ok then (None, e)
        else
          let mid = piece r delta sz;
              e = get_refs mid e;
              (tail_ok, rear, e) =
                (if add64 addr sz < r_end then
                   let (ok, e) = vma_kmalloc e in
                   if \<not> ok then (False, [], put_refs mid e)
                   else
                     let tail = piece r (sub64 (add64 addr sz) (vaddr r)) (sub64 r_end (add64 addr sz))
                     in (True, [tail], get_refs tail e)
                 else (True, [], e))
          in if \<not> tail_ok then (None, e)
          else if addr = vaddr r then (Some ([], mid, rear), put_refs r e)
          else (Some ([vma_reset_readahead (r\<lparr>rsize := delta\<rparr>)], mid, rear), e))"

definition anonymous :: "mmap_region \<Rightarrow> bool" where
  "anonymous r \<longleftrightarrow> fd r = -1 \<and> shm_obj r = None \<and> phys r = 0 \<and> r_inode r = None \<and>
     \<not> has_flag (rflags r) KMAP_VMA_OWNER \<and> shm_private_src r = None"

text \<open>
  \<open>vma_merge\<close> of the region \<open>r\<close> of the list \<open>xs @ r # ys\<close>; the result is the list around the
  merged region.
\<close>

definition vma_merge ::
  "mmap_region list \<Rightarrow> mmap_region \<Rightarrow> mmap_region list \<Rightarrow> mmap_region list \<times> mmap_region \<times> mmap_region list" where
  "vma_merge xs r ys =
     (if \<not> anonymous r then (xs, r, ys)
      else
        let (r, ys) =
              (case ys of
                 n # ys' \<Rightarrow>
                   if anonymous n \<and> prot n = prot r \<and> rflags n = rflags r \<and> region_end r = vaddr n
                   then (r\<lparr>rsize := add64 (rsize r) (rsize n)\<rparr>, ys') else (r, ys)
               | [] \<Rightarrow> (r, ys))
        in if xs \<noteq> [] \<and> anonymous (last xs) \<and> prot (last xs) = prot r \<and> rflags (last xs) = rflags r \<and>
              region_end (last xs) = vaddr r
           then (butlast xs, (last xs)\<lparr>rsize := add64 (rsize (last xs)) (rsize r)\<rparr>, ys)
           else (xs, r, ys))"


subsection \<open>Range operations\<close>

text \<open>
  The walk shared by \<open>vma_protect_range\<close> and \<open>vma_unmap_range\<close>, which differ only in what they
  do to a piece inside the range: \<open>act\<close> returns what remains of it in the list. The successor is
  read before the split, so the pieces of a region are not visited again.
\<close>

type_synonym range_act = "mmap_region \<Rightarrow> vma_env \<Rightarrow> mmap_region list \<times> vma_env"

fun range_walk ::
  "range_act \<Rightarrow> u64 \<Rightarrow> u64 \<Rightarrow> mmap_region list \<Rightarrow> vma_env \<Rightarrow> unit result \<times> mmap_region list \<times> vma_env" where
  "range_walk act addr stop [] e = (Inr (), [], e)"
| "range_walk act addr stop (cur # nxt) e =
     (if stop \<le> vaddr cur then (Inr (), cur # nxt, e)
      else if region_end cur \<le> addr then
        let (r, mrs, e) = range_walk act addr stop nxt e in (r, cur # mrs, e)
      else if vaddr cur < addr then
        let split_len = (if region_end cur < stop then sub64 (region_end cur) addr else sub64 stop addr) in
        case vma_split cur addr split_len e of
          (None, e) \<Rightarrow> (Inl ENOMEM, cur # nxt, e)
        | (Some (front, mid, rear), e) \<Rightarrow>
            let (ms, e) = act mid e;
                (r, mrs, e) = range_walk act addr stop nxt e
            in (r, front @ ms @ rear @ mrs, e)
      else if stop < region_end cur then
        case vma_split cur (vaddr cur) (sub64 stop (vaddr cur)) e of
          (None, e) \<Rightarrow> (Inl ENOMEM, cur # nxt, e)
        | (Some (front, mid, rear), e) \<Rightarrow>
            let (ms, e) = act mid e;
                (r, mrs, e) = range_walk act addr stop nxt e
            in (r, front @ ms @ rear @ mrs, e)
      else
        let (ms, e) = act cur e;
            (r, mrs, e) = range_walk act addr stop nxt e
        in (r, ms @ mrs, e))"

definition set_prot :: "32 word \<Rightarrow> range_act" where
  "set_prot p r e = ([r\<lparr>prot := p\<rparr>], e)"

definition vma_protect_range ::
  "mmap_region list \<Rightarrow> vma_env \<Rightarrow> u64 \<Rightarrow> u64 \<Rightarrow> 32 word \<Rightarrow> unit result \<times> mmap_region list \<times> vma_env" where
  "vma_protect_range mrs e addr len p = range_walk (set_prot p) addr (add64 addr len) mrs e"

definition vma_overlaps_any :: "mmap_region list \<Rightarrow> u64 \<Rightarrow> u64 \<Rightarrow> bool" where
  "vma_overlaps_any mrs start len =
     (if overlaps_signal_trampoline start len then True else vma_overlaps mrs start (add64 start len))"

text \<open>
  \<open>free_one_region\<close>: offer the region to the writeback hook, clear its leaf entries, give DMA
  pages back, drop every reference the struct owns and remove it from the list.
\<close>

definition free_one_region :: range_act where
  "free_one_region r e =
     (let npages = rsize r div PAGE_SIZE;
          e = e\<lparr>wb_log := wb_log e @ [(vaddr r, rsize r)],
                ptes := (\<lambda>va. ptes e va \<and> \<not> (\<exists>i < npages. va = add64 (vaddr r) (mul64 i PAGE_SIZE)))\<rparr>;
          e = (if (shm_obj r \<noteq> None \<or> phys r \<noteq> 0 \<or> has_flag (rflags r) KMAP_VMA_OWNER) \<and>
                  has_flag (rflags r) KMAP_DMA_OWNED
               then e\<lparr>dma_freed := dma_freed e @ [(phys r div PAGE_SIZE, npages)]\<rparr> else e)
      in ([], put_refs r e))"

definition vma_unmap_range ::
  "mmap_region list \<Rightarrow> vma_env \<Rightarrow> u64 \<Rightarrow> u64 \<Rightarrow> unit result \<times> mmap_region list \<times> vma_env" where
  "vma_unmap_range mrs e addr len = range_walk free_one_region addr (add64 addr len) mrs e"

text \<open>The chosen address as the C \<open>int64_t\<close>, with the list and environment after MAP_FIXED.\<close>

definition vma_pick_addr ::
  "mmap_region list \<Rightarrow> vma_env \<Rightarrow> u64 \<Rightarrow> u64 \<Rightarrow> u64 \<Rightarrow> 32 word \<Rightarrow> u64 \<Rightarrow> int \<times> mmap_region list \<times> vma_env" where
  "vma_pick_addr mrs e mmap_brk addr len fl hint =
     (if has_flag fl MAP_FIXED then
        if overlaps_signal_trampoline addr len then (- errno_code EINVAL, mrs, e)
        else
          (case vma_unmap_range mrs e addr len of
             (Inl err, mrs, e) \<Rightarrow> (- errno_code err, mrs, e)
           | (Inr _, mrs, e) \<Rightarrow> (int_of_u64 addr, mrs, e))
      else if has_flag fl MAP_FIXED_NOREPLACE then
        if vma_overlaps_any mrs addr len then (- errno_code EEXIST, mrs, e) else (int_of_u64 addr, mrs, e)
      else
        let v = vma_find_gap mrs (ptes e) mmap_brk len hint
        in (if v \<noteq> 0 then int_of_u64 v else - errno_code ENOMEM, mrs, e))"

subsection \<open>Well-formed region lists\<close>

definition region_ok :: "mmap_region \<Rightarrow> bool" where
  "region_ok r \<longleftrightarrow> 0 < rsize r \<and> vaddr r + rsize r \<le> USER_VMA_UPPER_BOUND \<and> phys r + rsize r \<le> U64"

text \<open>Sorted, disjoint, inside the user address space; physical ranges do not wrap.\<close>

fun vma_ok :: "u64 \<Rightarrow> mmap_region list \<Rightarrow> bool" where
  "vma_ok lo [] \<longleftrightarrow> True"
| "vma_ok lo (r # rs) \<longleftrightarrow> lo \<le> vaddr r \<and> region_ok r \<and> vma_ok (vaddr r + rsize r) rs"

lemma USER_VMA_UPPER_BOUND_lt [simp]: "USER_VMA_UPPER_BOUND < U64"
  by (simp add: USER_VMA_UPPER_BOUND_def U64_def)

lemma region_ok_lt: "region_ok r \<Longrightarrow> vaddr r + rsize r < U64"
  unfolding region_ok_def using le_less_trans [OF _ USER_VMA_UPPER_BOUND_lt] by blast

lemma region_end_ok: "region_ok r \<Longrightarrow> region_end r = vaddr r + rsize r"
  by (simp add: region_end_def add64_small region_ok_lt)

lemma vma_ok_mono: "vma_ok lo rs \<Longrightarrow> lo' \<le> lo \<Longrightarrow> vma_ok lo' rs"
  by (cases rs) auto

lemma vma_ok_in: "vma_ok lo rs \<Longrightarrow> r \<in> set rs \<Longrightarrow> lo \<le> vaddr r \<and> region_ok r"
proof (induction rs arbitrary: lo)
  case (Cons x rs)
  then have "vma_ok lo rs" by (auto intro: vma_ok_mono)
  then show ?case using Cons by auto
qed simp

lemma vma_ok_append:
  "vma_ok lo (xs @ ys) \<longleftrightarrow>
     vma_ok lo xs \<and> vma_ok (if xs = [] then lo else vaddr (last xs) + rsize (last xs)) ys"
  by (induction xs arbitrary: lo) auto

definition covers :: "mmap_region \<Rightarrow> u64 \<Rightarrow> bool" where
  "covers r a \<longleftrightarrow> vaddr r \<le> a \<and> a < vaddr r + rsize r"

lemma vma_find_covers:
  assumes "vma_ok lo rs"
  shows "vma_find rs a = Some r \<longleftrightarrow> r \<in> set rs \<and> covers r a"
    and "vma_find rs a = None \<longleftrightarrow> (\<forall>r \<in> set rs. \<not> covers r a)"
proof -
  have "(vma_find rs a = Some r \<longleftrightarrow> r \<in> set rs \<and> covers r a) \<and>
    (vma_find rs a = None \<longleftrightarrow> (\<forall>r \<in> set rs. \<not> covers r a))" for r
    using assms
  proof (induction rs arbitrary: lo)
    case (Cons x rs)
    then have x: "region_ok x" "vma_ok (vaddr x + rsize x) rs" by auto
    have out: "\<not> covers r a" if "r \<in> set rs" "a < vaddr x + rsize x" for r
      using vma_ok_in [OF x(2) that(1)] that(2) by (simp add: covers_def)
    show ?case using Cons.IH [OF x(2)] out region_end_ok [OF x(1)] by (auto simp: covers_def)
  qed simp
  then show "vma_find rs a = Some r \<longleftrightarrow> r \<in> set rs \<and> covers r a"
    "vma_find rs a = None \<longleftrightarrow> (\<forall>r \<in> set rs. \<not> covers r a)" by auto
qed


subsection \<open>The address-by-address view\<close>

text \<open>
  What an address means: protection, flags and backing, with the file offset and the physical
  address it resolves to when the region has a backing.
\<close>

record attrs =
  a_prot :: "32 word"
  a_flags :: "32 word"
  a_fd :: int
  a_shm :: "nat option"
  a_inode :: "nat option"
  a_src :: "nat option"
  a_owner :: "nat option"
  a_offset :: u64
  a_phys :: u64

definition attrs_at :: "mmap_region \<Rightarrow> u64 \<Rightarrow> attrs" where
  "attrs_at r a =
     \<lparr>a_prot = prot r, a_flags = rflags r, a_fd = fd r, a_shm = shm_obj r, a_inode = r_inode r,
      a_src = shm_private_src r, a_owner = (if has_flag (rflags r) KMAP_VMA_OWNER then r_owner r else None),
      a_offset = (if anonymous r then 0 else add64 (offset r) (a - vaddr r)),
      a_phys = (if phys r = 0 then 0 else phys r + (a - vaddr r))\<rparr>"

definition vma_view :: "mmap_region list \<Rightarrow> u64 \<Rightarrow> attrs option" where
  "vma_view rs a = map_option (\<lambda>r. attrs_at r a) (vma_find rs a)"

text \<open>The same view without relying on the order of the list.\<close>

definition cover_view :: "mmap_region list \<Rightarrow> u64 \<Rightarrow> attrs option" where
  "cover_view rs a = map_option (\<lambda>r. attrs_at r a) (find (\<lambda>r. covers r a) rs)"

lemma vma_view_cover: "vma_ok lo rs \<Longrightarrow> vma_view rs a = cover_view rs a"
proof (induction rs arbitrary: lo)
  case (Cons r rs)
  then have r: "region_ok r" "vma_ok (vaddr r + rsize r) rs" by auto
  have out: "\<not> covers x a" if "x \<in> set rs" "a < vaddr r + rsize r" for x
    using vma_ok_in [OF r(2) that(1)] that(2) by (simp add: covers_def)
  show ?case
  proof (cases "a < vaddr r")
    case True
    then have "find (\<lambda>x. covers x a) rs = None" using out by (auto simp: find_None_iff)
    then show ?thesis using True by (simp add: vma_view_def cover_view_def covers_def)
  next
    case False
    then show ?thesis using Cons.IH [OF r(2)] region_end_ok [OF r(1)]
      by (simp add: vma_view_def cover_view_def covers_def)
  qed
qed (simp add: vma_view_def cover_view_def)

lemma cover_view_simps [simp]:
  "cover_view [] a = None"
  "cover_view (r # rs) a = (if covers r a then Some (attrs_at r a) else cover_view rs a)"
  by (simp_all add: cover_view_def)

lemma cover_view_append: "cover_view (xs @ ys) a = (case cover_view xs a of None \<Rightarrow> cover_view ys a | Some v \<Rightarrow> Some v)"
  by (induction xs) auto

lemma cover_view_below: "vma_ok lo rs \<Longrightarrow> a < lo \<Longrightarrow> cover_view rs a = None"
proof (induction rs arbitrary: lo)
  case (Cons r rs)
  then show ?case by (auto simp: covers_def region_ok_def)
qed simp

subsection \<open>References\<close>

definition ref_count :: "mmap_region list \<Rightarrow> backing \<Rightarrow> int" where
  "ref_count rs b = (\<Sum>r \<leftarrow> rs. int (count_list (region_refs r) b))"

lemma ref_count_simps [simp]:
  "ref_count [] b = 0" "ref_count (r # rs) b = int (count_list (region_refs r) b) + ref_count rs b"
  "ref_count (xs @ ys) b = ref_count xs b + ref_count ys b"
  by (simp_all add: ref_count_def)

text \<open>References to \<open>b\<close> that no region of the list accounts for.\<close>

definition foreign_refs :: "mmap_region list \<Rightarrow> vma_env \<Rightarrow> backing \<Rightarrow> int" where
  "foreign_refs rs e b = refs e b - ref_count rs b"

lemma get_refs_env [simp]:
  "refs (get_refs r e) b = refs e b + int (count_list (region_refs r) b)"
  "ptes (get_refs r e) = ptes e" "dma_freed (get_refs r e) = dma_freed e" "wb_log (get_refs r e) = wb_log e"
  "vmem (get_refs r e) = vmem e"
proof -
  have "refs (fold ref_get bs e) b = refs e b + int (count_list bs b) \<and> ptes (fold ref_get bs e) = ptes e \<and>
      dma_freed (fold ref_get bs e) = dma_freed e \<and> wb_log (fold ref_get bs e) = wb_log e \<and>
      vmem (fold ref_get bs e) = vmem e" for bs
    by (induction bs arbitrary: e) (auto simp: ref_get_def)
  then show "refs (get_refs r e) b = refs e b + int (count_list (region_refs r) b)"
    "ptes (get_refs r e) = ptes e" "dma_freed (get_refs r e) = dma_freed e" "wb_log (get_refs r e) = wb_log e"
    "vmem (get_refs r e) = vmem e" by (simp_all add: get_refs_def)
qed

lemma put_refs_env [simp]:
  "refs (put_refs r e) b = refs e b - int (count_list (region_refs r) b)"
  "ptes (put_refs r e) = ptes e" "dma_freed (put_refs r e) = dma_freed e" "wb_log (put_refs r e) = wb_log e"
  "vmem (put_refs r e) = vmem e"
proof -
  have "refs (fold ref_put bs e) b = refs e b - int (count_list bs b) \<and> ptes (fold ref_put bs e) = ptes e \<and>
      dma_freed (fold ref_put bs e) = dma_freed e \<and> wb_log (fold ref_put bs e) = wb_log e \<and>
      vmem (fold ref_put bs e) = vmem e" for bs
    by (induction bs arbitrary: e) (auto simp: ref_put_def)
  then show "refs (put_refs r e) b = refs e b - int (count_list (region_refs r) b)"
    "ptes (put_refs r e) = ptes e" "dma_freed (put_refs r e) = dma_freed e" "wb_log (put_refs r e) = wb_log e"
    "vmem (put_refs r e) = vmem e" by (simp_all add: put_refs_def)
qed

lemma region_refs_update [simp]:
  "region_refs (piece r d n) = region_refs r" "region_refs (vma_reset_readahead r) = region_refs r"
  "region_refs (r\<lparr>rsize := n\<rparr>) = region_refs r" "region_refs (r\<lparr>prot := p\<rparr>) = region_refs r"
  by (simp_all add: region_refs_def piece_def vma_reset_readahead_def split: option.split)

subsection \<open>Splitting\<close>

text \<open>The three pieces of a region cut at \<open>lo\<close> and \<open>hi\<close>, without wrap-around.\<close>

definition front_of :: "mmap_region \<Rightarrow> u64 \<Rightarrow> mmap_region list" where
  "front_of r lo = (if lo = vaddr r then [] else [vma_reset_readahead (r\<lparr>rsize := lo - vaddr r\<rparr>)])"

definition mid_of :: "mmap_region \<Rightarrow> u64 \<Rightarrow> u64 \<Rightarrow> mmap_region" where
  "mid_of r lo hi = piece r (lo - vaddr r) (hi - lo)"

definition rear_of :: "mmap_region \<Rightarrow> u64 \<Rightarrow> mmap_region list" where
  "rear_of r hi = (if hi < vaddr r + rsize r then [piece r (hi - vaddr r) (vaddr r + rsize r - hi)] else [])"

lemma vma_kmalloc_env:
  "vma_kmalloc e = (ok, e') \<Longrightarrow> refs e' = refs e \<and> ptes e' = ptes e \<and> dma_freed e' = dma_freed e \<and>
     wb_log e' = wb_log e \<and> (kmem_all_ok (vmem e) \<longrightarrow> ok \<and> kmem_all_ok (vmem e'))"
  using kmem_all_okD [of "vmem e"] by (auto simp: vma_kmalloc_def Let_def split: prod.splits)

lemma vma_split_cases:
  assumes r: "region_ok r" and a: "vaddr r \<le> lo" "lo < hi" "hi \<le> vaddr r + rsize r"
    and S: "vma_split r lo (hi - lo) e = (x, e')"
  obtains (oom) "x = None" and "refs e' = refs e" and "\<not> kmem_all_ok (vmem e)" and "ptes e' = ptes e"
  | (pieces) "x = Some (front_of r lo, mid_of r lo hi, rear_of r hi)" and "ptes e' = ptes e"
      and "\<And>b. refs e' b = refs e b + ref_count (front_of r lo @ mid_of r lo hi # rear_of r hi) b - ref_count [r] b"
      and "kmem_all_ok (vmem e) \<longrightarrow> kmem_all_ok (vmem e')"
proof -
  note lt = region_ok_lt [OF r] and e = region_end_ok [OF r]
  have w: "add64 lo (hi - lo) = hi" "sub64 lo (vaddr r) = lo - vaddr r" "sub64 hi (vaddr r) = hi - vaddr r"
    "sub64 (vaddr r + rsize r) hi = vaddr r + rsize r - hi"
    using a lt by (simp_all add: add64_small sub64_small)
  obtain ok e1 where k1: "vma_kmalloc e = (ok, e1)" by fastforce
  note K1 = vma_kmalloc_env [OF k1]
  show thesis
  proof (cases ok)
    case False
    then have "x = None" "e' = e1" using S a k1 by (auto simp: vma_split_def w e)
    then show thesis using K1 False oom by auto
  next
    case True
    obtain ok2 e2 where k2: "vma_kmalloc (get_refs (mid_of r lo hi) e1) = (ok2, e2)" by fastforce
    note K2 = vma_kmalloc_env [OF k2]
    show thesis
    proof (cases "hi < vaddr r + rsize r \<and> \<not> ok2")
      case bad: True
      then have "x = None" "e' = put_refs (mid_of r lo hi) e2"
        using S a k1 k2 True by (auto simp: vma_split_def w e mid_of_def Let_def)
      then show thesis using K1 K2 bad oom by (auto simp: fun_eq_iff)
    next
      case False
      then have "x = Some (front_of r lo, mid_of r lo hi, rear_of r hi)"
        using S a k1 k2 True by (auto simp: vma_split_def w e mid_of_def front_of_def rear_of_def Let_def split: if_splits)
      moreover have "ptes e' = ptes e" "kmem_all_ok (vmem e) \<longrightarrow> kmem_all_ok (vmem e')"
        "\<And>b. refs e' b = refs e b + ref_count (front_of r lo @ mid_of r lo hi # rear_of r hi) b - ref_count [r] b"
        using S a k1 k2 True False K1 K2
        by (auto simp: vma_split_def w e mid_of_def front_of_def rear_of_def Let_def split: if_splits)
      ultimately show thesis using pieces by blast
    qed
  qed
qed


text \<open>The pieces tile the region and mean the same, address by address.\<close>

lemma add64_shift:
  assumes "d \<le> x"
  shows "add64 (add64 a d) (x - d) = add64 a x"
proof -
  obtain k where "x = d + k" using assms le_Suc_ex by blast
  then show ?thesis by (simp add: add64_def mod_add_left_eq add.assoc)
qed

lemma piece_attrs:
  assumes r: "region_ok r" and d: "d < rsize r" and a: "vaddr r + d \<le> a"
  shows "attrs_at (piece r d n) a = attrs_at r a" and "vaddr (piece r d n) = vaddr r + d" and "rsize (piece r d n) = n"
    and "phys r \<noteq> 0 \<Longrightarrow> phys (piece r d n) = phys r + d" and "phys r = 0 \<Longrightarrow> phys (piece r d n) = 0"
proof -
  have lt: "vaddr r + d < U64" using region_ok_lt [OF r] d by simp
  have ph: "phys r + d < U64" using r d by (simp add: region_ok_def)
  show v: "vaddr (piece r d n) = vaddr r + d" "rsize (piece r d n) = n"
    using lt by (simp_all add: piece_def vma_reset_readahead_def add64_small)
  show p: "phys r \<noteq> 0 \<Longrightarrow> phys (piece r d n) = phys r + d" "phys r = 0 \<Longrightarrow> phys (piece r d n) = 0"
    using ph by (simp_all add: piece_def vma_reset_readahead_def add64_small)
  have an: "anonymous (piece r d n) = anonymous r"
    using ph by (auto simp: anonymous_def piece_def vma_reset_readahead_def add64_small)
  have o: "add64 (offset (piece r d n)) (a - vaddr (piece r d n)) = add64 (offset r) (a - vaddr r)"
    using add64_shift [of d "a - vaddr r" "offset r"] a v by (simp add: piece_def vma_reset_readahead_def)
  have ph': "(if phys (piece r d n) = 0 then 0 else phys (piece r d n) + (a - vaddr (piece r d n))) =
      (if phys r = 0 then 0 else phys r + (a - vaddr r))"
    using p v a by (cases "phys r = 0") auto
  show "attrs_at (piece r d n) a = attrs_at r a"
    unfolding attrs_at_def an o ph' by (simp add: piece_def vma_reset_readahead_def)
qed

lemma front_attrs:
  "attrs_at (vma_reset_readahead (r\<lparr>rsize := n\<rparr>)) a = attrs_at r a"
  "vaddr (vma_reset_readahead (r\<lparr>rsize := n\<rparr>)) = vaddr r" "rsize (vma_reset_readahead (r\<lparr>rsize := n\<rparr>)) = n"
  "phys (vma_reset_readahead (r\<lparr>rsize := n\<rparr>)) = phys r"
  by (simp_all add: attrs_at_def vma_reset_readahead_def anonymous_def)

lemma split_pieces:
  assumes r: "region_ok r" and a: "vaddr r \<le> lo" "lo < hi" "hi \<le> vaddr r + rsize r"
  shows "cover_view (front_of r lo) x = (if vaddr r \<le> x \<and> x < lo then Some (attrs_at r x) else None)"
    and "cover_view (rear_of r hi) x = (if hi \<le> x \<and> x < vaddr r + rsize r then Some (attrs_at r x) else None)"
    and "lo \<le> x \<Longrightarrow> attrs_at (mid_of r lo hi) x = attrs_at r x"
    and "vaddr (mid_of r lo hi) = lo" and "rsize (mid_of r lo hi) = hi - lo" and "region_ok (mid_of r lo hi)"
    and "vma_ok (vaddr r) (front_of r lo)" and "\<forall>f \<in> set (front_of r lo). vaddr f + rsize f \<le> lo"
    and "vma_ok hi (rear_of r hi)" and "\<forall>f \<in> set (rear_of r hi). vaddr f + rsize f = vaddr r + rsize r"
proof -
  have d: "lo - vaddr r < rsize r" using a by simp
  note P = piece_attrs [OF r d]
  show "attrs_at (mid_of r lo hi) x = attrs_at r x" if "lo \<le> x"
    using P(1) [of x] that a by (simp add: mid_of_def)
  show m: "vaddr (mid_of r lo hi) = lo" "rsize (mid_of r lo hi) = hi - lo"
    using P(2,3) [of lo] a by (simp_all add: mid_of_def)
  show "region_ok (mid_of r lo hi)"
    using m r a P(4,5) [of lo "hi - lo"] by (cases "phys r = 0") (auto simp: region_ok_def mid_of_def)
  show "cover_view (front_of r lo) x = (if vaddr r \<le> x \<and> x < lo then Some (attrs_at r x) else None)"
    using a by (auto simp: front_of_def covers_def front_attrs)
  show "vma_ok (vaddr r) (front_of r lo)" "\<forall>f \<in> set (front_of r lo). vaddr f + rsize f \<le> lo"
    using a r by (auto simp: front_of_def front_attrs region_ok_def)
  show "cover_view (rear_of r hi) x = (if hi \<le> x \<and> x < vaddr r + rsize r then Some (attrs_at r x) else None)"
    "vma_ok hi (rear_of r hi)" "\<forall>f \<in> set (rear_of r hi). vaddr f + rsize f = vaddr r + rsize r"
  proof -
    have "cover_view (rear_of r hi) x = (if hi \<le> x \<and> x < vaddr r + rsize r then Some (attrs_at r x) else None) \<and>
      vma_ok hi (rear_of r hi) \<and> (\<forall>f \<in> set (rear_of r hi). vaddr f + rsize f = vaddr r + rsize r)"
    proof (cases "hi < vaddr r + rsize r")
      case True
      then have dh: "hi - vaddr r < rsize r" using a by simp
      note H = piece_attrs [OF r dh]
      show ?thesis using True a r H(1) [of x] H(2,3) [of hi] H(4,5) [of hi "vaddr r + rsize r - hi"]
        by (cases "phys r = 0") (auto simp: rear_of_def covers_def region_ok_def)
    qed (auto simp: rear_of_def)
    then show "cover_view (rear_of r hi) x = (if hi \<le> x \<and> x < vaddr r + rsize r then Some (attrs_at r x) else None)"
    "vma_ok hi (rear_of r hi)" "\<forall>f \<in> set (rear_of r hi). vaddr f + rsize f = vaddr r + rsize r" by blast+
  qed
qed


text \<open>A region that can stand for the part of \<open>r\<close> between \<open>lo\<close> and \<open>hi\<close>.\<close>

definition middle :: "mmap_region \<Rightarrow> u64 \<Rightarrow> u64 \<Rightarrow> mmap_region \<Rightarrow> bool" where
  "middle r lo hi m \<longleftrightarrow> region_ok m \<and> vaddr m = lo \<and> rsize m = hi - lo \<and>
     (\<forall>x. lo \<le> x \<longrightarrow> attrs_at m x = attrs_at r x)"

lemma range_walk_hit:
  assumes r: "region_ok r" and hit: "vaddr r < stop" "addr < vaddr r + rsize r" and "addr < stop" and "stop < U64"
    and lo: "lo = max addr (vaddr r)" and hi: "hi = min stop (vaddr r + rsize r)"
    and W: "range_walk act addr stop (r # rs) e = (res, rs', e')"
  obtains (oom) "res = Inl ENOMEM" and "rs' = r # rs" and "refs e' = refs e" and "\<not> kmem_all_ok (vmem e)"
  | (cut) mid e1 ms e2 mrs where "middle r lo hi mid"
      and "\<And>b. refs e1 b = refs e b + ref_count (front_of r lo @ mid # rear_of r hi) b - ref_count [r] b"
      and "kmem_all_ok (vmem e) \<longrightarrow> kmem_all_ok (vmem e1)" and "act mid e1 = (ms, e2)"
      and "range_walk act addr stop rs e2 = (res, mrs, e')" and "rs' = front_of r lo @ ms @ rear_of r hi @ mrs"
proof -
  have a: "vaddr r \<le> lo" "lo < hi" "hi \<le> vaddr r + rsize r"
    using hit assms(4) r by (auto simp: lo hi region_ok_def)
  note re = region_end_ok [OF r] and lt = region_ok_lt [OF r]
  show thesis
  proof (cases "vaddr r < addr \<or> stop < vaddr r + rsize r")
    case True
    obtain x e1 where S: "vma_split r lo (hi - lo) e = (x, e1)" by fastforce
    have "vma_split r lo (hi - lo) e = (if vaddr r < addr
        then vma_split r addr (if region_end r < stop then sub64 (region_end r) addr else sub64 stop addr) e
        else vma_split r (vaddr r) (sub64 stop (vaddr r)) e)"
      using True hit assms(4,5) lt by (auto simp: lo hi re sub64_small min_def max_def)
    with W True hit S have W': "case x of None \<Rightarrow> (res, rs', e') = (Inl ENOMEM, r # rs, e1)
      | Some (front, mid, rear) \<Rightarrow> (case act mid e1 of (ms, e2) \<Rightarrow> case range_walk act addr stop rs e2 of
          (r', mrs, e3) \<Rightarrow> (res, rs', e') = (r', front @ ms @ rear @ mrs, e3))"
      by (auto simp: re Let_def split: if_splits option.splits prod.splits)
    show thesis
    proof (cases rule: vma_split_cases [OF r a S])
      case 1
      then show thesis using W' oom by auto
    next
      case 2
      have M: "middle r lo hi (mid_of r lo hi)" using split_pieces(3-6) [OF r a] by (auto simp: middle_def)
      obtain ms e2 where A: "act (mid_of r lo hi) e1 = (ms, e2)" by fastforce
      then show thesis using W' cut [OF M 2(3,4) A] 2(1) by (auto split: prod.splits)
    qed
  next
    case False
    then have eq: "lo = vaddr r" "hi = vaddr r + rsize r" by (auto simp: lo hi)
    have M: "middle r lo hi r" using r by (simp add: middle_def eq)
    obtain ms e2 where A: "act r e = (ms, e2)" by fastforce
    have "front_of r lo = []" "rear_of r hi = []" by (simp_all add: front_of_def rear_of_def eq)
    then show thesis using W A False hit cut [OF M, of e ms e2] by (auto simp: re split: prod.splits)
  qed
qed

subsection \<open>The range-operation contract\<close>

text \<open>
  What the walk needs of the action on a piece: it removes the piece or keeps it in place, its
  effect on the view is \<open>eff\<close>, it moves no reference unaccounted for and allocates nothing.
\<close>

locale range_action =
  fixes act :: range_act and eff :: "attrs \<Rightarrow> attrs option"
  assumes act_place: "region_ok r \<Longrightarrow> act r e = (ms, e') \<Longrightarrow>
      ms = [] \<or> (\<exists>m. ms = [m] \<and> region_ok m \<and> vaddr m = vaddr r \<and> rsize m = rsize r)"
    and act_view: "region_ok r \<Longrightarrow> act r e = (ms, e') \<Longrightarrow> covers r a \<Longrightarrow> cover_view ms a = eff (attrs_at r a)"
    and act_refs: "act r e = (ms, e') \<Longrightarrow> foreign_refs ms e' b = foreign_refs [r] e b"
    and act_mem: "act r e = (ms, e') \<Longrightarrow> vmem e' = vmem e"
begin

text \<open>One region of the walk, cut at \<open>lo\<close> and \<open>hi\<close>.\<close>

lemma step_view:
  assumes r: "region_ok r" and a: "vaddr r \<le> lo" "lo < hi" "hi \<le> vaddr r + rsize r"
    and m: "middle r lo hi mid" and A: "act mid e = (ms, e')"
  shows "cover_view (front_of r lo @ ms @ rear_of r hi) x =
    (if covers r x then if lo \<le> x \<and> x < hi then eff (attrs_at r x) else Some (attrs_at r x) else None)"
proof -
  note P = split_pieces [OF r a] and M = m [unfolded middle_def]
  have ok: "region_ok mid" using M by blast
  have out: "cover_view ms x = None" if "\<not> (lo \<le> x \<and> x < hi)"
    using act_place [OF ok A] that M a by (auto simp: covers_def)
  have "cover_view ms x = eff (attrs_at r x)" if "lo \<le> x" "x < hi"
    using act_view [OF ok A, of x] that M a by (simp add: covers_def)
  then show ?thesis using out a P(1,2) [of x]
    by (auto simp: cover_view_append covers_def split: option.splits)
qed

lemma step_ok:
  assumes r: "region_ok r" and a: "vaddr r \<le> lo" "lo < hi" "hi \<le> vaddr r + rsize r"
    and m: "middle r lo hi mid" and A: "act mid e = (ms, e')"
    and rs: "vma_ok (vaddr r + rsize r) rs" and l: "l \<le> vaddr r"
  shows "vma_ok l (front_of r lo @ ms @ rear_of r hi @ rs)"
proof -
  note P = split_pieces [OF r a] and M = m [unfolded middle_def]
  have ok: "region_ok mid" using M by blast
  have 3: "vma_ok hi (rear_of r hi @ rs)"
    using P(9,10) rs a vma_ok_mono [OF rs a(3)] by (cases "rear_of r hi") (auto simp: vma_ok_append)
  have 2: "vma_ok lo (ms @ rear_of r hi @ rs)"
    using act_place [OF ok A] M 3 a vma_ok_mono [OF 3, of lo] by auto
  show ?thesis
    using P(7,8) 2 vma_ok_mono [OF 2, of l] a l vma_ok_mono [OF P(7) l] vma_ok_mono [OF 2]
    by (cases "front_of r lo") (auto simp: vma_ok_append)
qed

lemma range_walk_spec:
  assumes "vma_ok l rs" and "range_walk act addr stop rs e = (res, rs', e')" and "addr < stop" and "stop < U64"
  shows "vma_ok l rs' \<and> foreign_refs rs' e' b = foreign_refs rs e b \<and> (kmem_all_ok (vmem e) \<longrightarrow> res = Inr ()) \<and>
    (\<not> (addr \<le> x \<and> x < stop) \<longrightarrow> cover_view rs' x = cover_view rs x) \<and>
    (res = Inr () \<longrightarrow> addr \<le> x \<longrightarrow> x < stop \<longrightarrow> cover_view rs' x = Option.bind (cover_view rs x) eff)"
  using assms(1,2)
proof (induction rs arbitrary: l e rs' e')
  case (Cons r rs)
  have r: "region_ok r" and l: "l \<le> vaddr r" and ok: "vma_ok (vaddr r + rsize r) rs" using Cons.prems by auto
  note below = cover_view_below [OF ok]
  show ?case
  proof (cases "stop \<le> vaddr r \<or> vaddr r + rsize r \<le> addr")
    case miss: True
    show ?thesis
    proof (cases "stop \<le> vaddr r")
      case True
      then have "res = Inr ()" "rs' = r # rs" "e' = e" using Cons.prems by auto
      then show ?thesis using Cons.prems True below [of x] by (auto simp: covers_def)
    next
      case False
      then obtain mrs where W: "range_walk act addr stop rs e = (res, mrs, e')" and rs': "rs' = r # mrs"
        using Cons.prems(2) miss region_end_ok [OF r] by (auto split: prod.splits)
      show ?thesis using Cons.IH [OF ok W] r l miss False by (auto simp: rs' covers_def foreign_refs_def)
    qed
  next
    case False
    then have hit: "vaddr r < stop" "addr < vaddr r + rsize r" by auto
    define lo hi where "lo = max addr (vaddr r)" and "hi = min stop (vaddr r + rsize r)"
    have a: "vaddr r \<le> lo" "lo < hi" "hi \<le> vaddr r + rsize r"
      using hit assms(3) r by (auto simp: lo_def hi_def region_ok_def)
    show ?thesis
    proof (cases rule: range_walk_hit [OF r hit assms(3,4) lo_def hi_def Cons.prems(2)])
      case 1
      then show ?thesis using Cons.prems(1) by (auto simp: foreign_refs_def)
    next
      case (2 mid e1 ms e2 mrs)
      note V = step_view [OF r a 2(1) 2(4), of x]
      note I = Cons.IH [OF ok 2(5)]
      have "vma_ok l rs'" unfolding 2(6) by (rule step_ok [OF r a 2(1) 2(4) _ l]) (use I in blast)
      moreover have "foreign_refs rs' e' b = foreign_refs (r # rs) e b"
        using I act_refs [OF 2(4), of b] 2(2) [of b] by (simp add: 2(6) foreign_refs_def)
      moreover have "kmem_all_ok (vmem e) \<longrightarrow> res = Inr ()" using 2(3) I act_mem [OF 2(4)] by auto
      moreover have C: "cover_view rs' x = (case cover_view (front_of r lo @ ms @ rear_of r hi) x of
          None \<Rightarrow> cover_view mrs x | Some v \<Rightarrow> Some v)"
        unfolding 2(6) by (simp add: cover_view_append split: option.splits)
      moreover have "cover_view mrs x = None" if "x < vaddr r + rsize r"
        using cover_view_below [of "vaddr r + rsize r" mrs x] I that by blast
      ultimately show ?thesis using I V below [of x] by (auto simp: covers_def lo_def hi_def split: option.splits)
    qed
  qed
qed (simp add: foreign_refs_def)

end


subsection \<open>mprotect and munmap meet the contract\<close>

interpretation protect: range_action "set_prot p" "\<lambda>v. Some (v\<lparr>a_prot := p\<rparr>)" for p
proof
  fix r e ms e' a b
  assume A: "set_prot p r e = (ms, e')"
  then have ms: "ms = [r\<lparr>prot := p\<rparr>]" "e' = e" by (simp_all add: set_prot_def)
  show "ms = [] \<or> (\<exists>m. ms = [m] \<and> region_ok m \<and> vaddr m = vaddr r \<and> rsize m = rsize r)" if "region_ok r"
    using that by (simp add: ms region_ok_def)
  show "cover_view ms a = Some ((attrs_at r a)\<lparr>a_prot := p\<rparr>)" if "covers r a"
    using that by (simp add: ms covers_def attrs_at_def anonymous_def)
  show "foreign_refs ms e' b = foreign_refs [r] e b" "vmem e' = vmem e"
    by (simp_all add: ms foreign_refs_def)
qed

interpretation unmap: range_action free_one_region "\<lambda>_. None"
proof
  fix r e ms e' a b
  assume A: "free_one_region r e = (ms, e')"
  then have ms: "ms = []" by (simp add: free_one_region_def Let_def split: if_splits)
  then show "ms = [] \<or> (\<exists>m. ms = [m] \<and> region_ok m \<and> vaddr m = vaddr r \<and> rsize m = rsize r)" by simp
  show "cover_view ms a = None" by (simp add: ms)
  show "foreign_refs ms e' b = foreign_refs [r] e b" "vmem e' = vmem e"
    using A by (auto simp: foreign_refs_def free_one_region_def Let_def split: if_splits)
qed

subsection \<open>Gap search is sound and complete\<close>

text \<open>The range \<open>[c, c + len)\<close> is free: no region, no mapped page, not the signal trampoline.\<close>

definition range_free :: "mmap_region list \<Rightarrow> (u64 \<Rightarrow> bool) \<Rightarrow> u64 \<Rightarrow> u64 \<Rightarrow> bool" where
  "range_free rs present len c \<longleftrightarrow>
     (\<forall>r \<in> set rs. vaddr r + rsize r \<le> c \<or> c + len \<le> vaddr r) \<and>
     \<not> (c < SIG_TRAMPOLINE_ADDR + PAGE_SIZE \<and> SIG_TRAMPOLINE_ADDR < c + len) \<and>
     (\<forall>k. c + k * PAGE_SIZE < c + len \<longrightarrow> \<not> present (c + k * PAGE_SIZE))"

lemma scan_ptes_none:
  "scan_ptes present va stop = 0 \<Longrightarrow> 0 < va \<Longrightarrow> va + k * PAGE_SIZE < stop \<Longrightarrow> \<not> present (va + k * PAGE_SIZE)"
proof (induction present va stop arbitrary: k rule: scan_ptes.induct)
  case (1 present va stop)
  have lt: "va < stop" using "1.prems" by simp
  then have np: "\<not> present va" and n: "scan_ptes present (va + PAGE_SIZE) stop = 0"
    using "1.prems" by (auto simp: scan_ptes.simps [of present va] split: if_splits)
  show ?case
  proof (cases k)
    case (Suc k')
    then show ?thesis using "1.IH" [OF lt np n, of k'] "1.prems" by (simp add: add.assoc)
  qed (use np in simp)
qed

lemma scan_ptes_hit:
  "scan_ptes present va stop = p \<Longrightarrow> p \<noteq> 0 \<Longrightarrow> present p \<and> va \<le> p \<and> p < stop \<and> (\<exists>k. p = va + k * PAGE_SIZE)"
proof (induction present va stop rule: scan_ptes.induct)
  case (1 present va stop)
  show ?case
  proof (cases "va < stop \<and> \<not> present va")
    case True
    then have "scan_ptes present (va + PAGE_SIZE) stop = p" using "1.prems" by (simp add: scan_ptes.simps [of present va])
    with "1.IH" True "1.prems" obtain k where "present p" "va + PAGE_SIZE \<le> p" "p < stop"
      "p = va + PAGE_SIZE + k * PAGE_SIZE" by blast
    then show ?thesis by (auto intro: exI [of _ "Suc k"])
  next
    case False
    then show ?thesis using "1.prems" by (auto simp: scan_ptes.simps [of present va] split: if_splits intro: exI [of _ 0])
  qed
qed

lemma gap_obstacle_None:
  assumes "vma_ok lo rs" and "gap_obstacle rs cur len = None" and "cur + len < U64" and "r \<in> set rs"
  shows "vaddr r + rsize r \<le> cur \<or> cur + len \<le> vaddr r"
  using assms
proof (induction rs arbitrary: lo)
  case (Cons x rs)
  then have x: "region_ok x" "vma_ok (vaddr x + rsize x) rs" by auto
  show ?case
  proof (cases "region_end x \<le> cur")
    case True
    then show ?thesis using Cons.IH [OF x(2)] Cons.prems region_end_ok [OF x(1)] by auto
  next
    case False
    then have "cur + len \<le> vaddr x" using Cons.prems by (auto simp: add64_small split: if_splits)
    then show ?thesis using Cons.prems(4) vma_ok_in [OF x(2), of r] by auto
  qed
qed simp

lemma gap_obstacle_Some:
  assumes "vma_ok lo rs" and "gap_obstacle rs cur len = Some c" and "cur + len < U64"
  obtains r where "r \<in> set rs" and "c = vaddr r + rsize r" and "vaddr r < cur + len"
  using assms
proof (induction rs arbitrary: lo thesis)
  case (Cons x rs)
  then have x: "region_ok x" "vma_ok (vaddr x + rsize x) rs" by auto
  show ?case
  proof (cases "region_end x \<le> cur")
    case True
    then show ?thesis using Cons.IH [OF _ x(2)] Cons.prems by auto
  next
    case False
    then have "c = region_end x" "vaddr x < cur + len"
      using Cons.prems by (auto simp: add64_small split: if_splits)
    then show ?thesis using Cons.prems(1) [of x] region_end_ok [OF x(1)] by simp
  qed
qed simp


lemma first_mapped_page_none:
  assumes "first_mapped_page present cur len = 0" and "0 < cur" and "0 < len" and "cur + len < U64"
  shows "\<not> (cur < SIG_TRAMPOLINE_ADDR + PAGE_SIZE \<and> SIG_TRAMPOLINE_ADDR < cur + len)"
    and "cur + k * PAGE_SIZE < cur + len \<Longrightarrow> \<not> present (cur + k * PAGE_SIZE)"
proof -
  have t: "\<not> overlaps_signal_trampoline cur len"
    using assms(1) by (auto simp: first_mapped_page_def SIG_TRAMPOLINE_ADDR_def split: if_splits)
  moreover have "\<not> UINT64_MAX - len < cur" using assms(4) by (simp add: UINT64_MAX_def U64_def)
  ultimately show "\<not> (cur < SIG_TRAMPOLINE_ADDR + PAGE_SIZE \<and> SIG_TRAMPOLINE_ADDR < cur + len)"
    using assms(3) by (auto simp: overlaps_signal_trampoline_def Let_def)
  show "\<not> present (cur + k * PAGE_SIZE)" if "cur + k * PAGE_SIZE < cur + len"
    using scan_ptes_none [of present cur "cur + len" k] assms that t
    by (simp add: first_mapped_page_def add64_small)
qed

text \<open>One round of the search, from a cursor with room above it.\<close>

lemma gap_loop_round:
  assumes ok: "vma_ok lo rs" and len: "0 < len" and cur: "0 < cur" "cur + len \<le> USER_VMA_UPPER_BOUND"
  obtains (found) "gap_loop rs present len cur = cur" and "range_free rs present len cur"
  | (region) r where "r \<in> set rs" and "vaddr r < cur + len" and "cur < vaddr r + rsize r"
      and "gap_loop rs present len cur = gap_loop rs present len (vaddr r + rsize r)"
  | (mapped) p where "cur < p + PAGE_SIZE" and "gap_loop rs present len cur = gap_loop rs present len (p + PAGE_SIZE)"
      and "p = SIG_TRAMPOLINE_ADDR \<and> p < cur + len \<or> present p \<and> p < cur + len \<and> (\<exists>k. p = cur + k * PAGE_SIZE)"
proof -
  have lt: "cur + len < U64" by (rule le_less_trans [OF cur(2) USER_VMA_UPPER_BOUND_lt])
  have g: "\<not> (USER_VMA_UPPER_BOUND \<le> cur \<or> USER_VMA_UPPER_BOUND - cur < len)" using cur(2) len by auto
  show thesis
  proof (cases "gap_obstacle rs cur len")
    case (Some c)
    obtain r where "r \<in> set rs" "c = vaddr r + rsize r" "vaddr r < cur + len"
      by (rule gap_obstacle_Some [OF ok Some lt])
    then show thesis using gap_obstacle_gt [OF Some] region g Some by (simp add: gap_loop.simps [of rs present len cur])
  next
    case None
    let ?p = "first_mapped_page present cur len"
    show thesis
    proof (cases "?p = 0")
      case True
      then show thesis using found g None gap_obstacle_None [OF ok None lt] first_mapped_page_none [OF True cur(1) len lt]
        by (auto simp: gap_loop.simps [of rs present len cur] range_free_def)
    next
      case False
      have "?p = SIG_TRAMPOLINE_ADDR \<and> ?p < cur + len \<or> present ?p \<and> ?p < cur + len \<and> (\<exists>k. ?p = cur + k * PAGE_SIZE)"
        using False scan_ptes_hit [of present cur "cur + len", OF refl] lt
        by (auto simp: first_mapped_page_def overlaps_signal_trampoline_def add64_small Let_def split: if_splits)
      then show thesis using mapped [OF first_mapped_page_gt [OF False]] g None False
        by (simp add: gap_loop.simps [of rs present len cur] Let_def)
    qed
  qed
qed

lemma gap_loop_full: "USER_VMA_UPPER_BOUND < cur + len \<Longrightarrow> 0 < len \<Longrightarrow> gap_loop rs present len cur = 0"
  by (subst gap_loop.simps) auto

lemma gap_loop_sound:
  assumes ok: "vma_ok lo rs" and len: "0 < len"
  shows "gap_loop rs present len cur = v \<Longrightarrow> v \<noteq> 0 \<Longrightarrow> 0 < cur \<Longrightarrow>
    cur \<le> v \<and> v + len \<le> USER_VMA_UPPER_BOUND \<and> range_free rs present len v"
proof (induction "USER_VMA_UPPER_BOUND - cur" arbitrary: cur rule: less_induct)
  case less
  have le: "cur + len \<le> USER_VMA_UPPER_BOUND" using gap_loop_full [of cur len rs present] len less.prems by force
  then have lt: "cur < USER_VMA_UPPER_BOUND" using len by simp
  show ?case
  proof (cases rule: gap_loop_round [OF ok len less.prems(3) le, of present])
    case 1
    then show ?thesis using less.prems le by simp
  next
    case (2 r)
    have p: "0 < vaddr r + rsize r" using 2(3) by linarith
    from less.hyps [OF diff_less_mono2 [OF 2(3) lt] _ less.prems(2) p] 2 less.prems show ?thesis by auto
  next
    case (3 p)
    then show ?thesis using less.hyps [of "p + PAGE_SIZE"] less.prems lt by (simp add: diff_less_mono2)
  qed
qed

definition page_aligned :: "u64 \<Rightarrow> bool" where
  "page_aligned a \<longleftrightarrow> PAGE_SIZE dvd a"

lemma gap_loop_complete:
  assumes ok: "vma_ok lo rs" and len: "0 < len"
    and al: "\<forall>r \<in> set rs. page_aligned (vaddr r) \<and> page_aligned (rsize r)" and c: "page_aligned c" "c + len \<le> USER_VMA_UPPER_BOUND"
  shows "gap_loop rs present len cur = 0 \<Longrightarrow> 0 < cur \<Longrightarrow> page_aligned cur \<Longrightarrow> cur \<le> c \<Longrightarrow> \<not> range_free rs present len c"
proof (induction "USER_VMA_UPPER_BOUND - cur" arbitrary: cur rule: less_induct)
  case less
  have le: "cur + len \<le> USER_VMA_UPPER_BOUND" using c less.prems by simp
  then have lt: "cur < USER_VMA_UPPER_BOUND" using len by simp
  show ?case
  proof (cases rule: gap_loop_round [OF ok len less.prems(2) le, of present])
    case 1
    then show ?thesis using less.prems by simp
  next
    case (2 r)
    show ?thesis
    proof (cases "c < vaddr r + rsize r")
      case True
      then have "\<not> vaddr r + rsize r \<le> c" "\<not> c + len \<le> vaddr r" using 2(2) less.prems(4) by linarith+
      then show ?thesis using 2(1) unfolding range_free_def by blast
    next
      case False
      have "page_aligned (vaddr r + rsize r)" using al 2(1) by (simp add: page_aligned_def)
      moreover have "0 < vaddr r + rsize r" using 2(3) by linarith
      ultimately show ?thesis
        using less.hyps [OF diff_less_mono2 [OF 2(3) lt]] False 2(4) less.prems(1) by simp
    qed
  next
    case (3 p)
    have pal: "page_aligned p"
      using 3(3) less.prems(3) by (auto simp: page_aligned_def SIG_TRAMPOLINE_ADDR_def PAGE_SIZE_def)
    show ?thesis
    proof (cases "c < p + PAGE_SIZE")
      case True
      have "c \<le> p" using True c(1) pal by (auto simp: page_aligned_def PAGE_SIZE_def elim!: dvdE)
      with pal c(1) obtain k where k: "p = c + k * PAGE_SIZE"
        by (auto simp: page_aligned_def le_iff_add dvd_add_right_iff elim!: dvdE) (metis add_diff_cancel_left' diff_mult_distrib mult.commute)
      have lt': "p < c + len" using 3(3) less.prems(4) by linarith
      show ?thesis
      proof (cases "p = SIG_TRAMPOLINE_ADDR")
        case True
        then show ?thesis using lt' \<open>c < p + PAGE_SIZE\<close> unfolding range_free_def by blast
      next
        case False
        then have "present p" using 3(3) by blast
        then show ?thesis using lt' k unfolding range_free_def by blast
      qed
    next
      case False
      have "page_aligned (p + PAGE_SIZE)" using pal by (simp add: page_aligned_def)
      then show ?thesis using less.hyps [of "p + PAGE_SIZE"] False 3 less.prems lt by (simp add: diff_less_mono2)
    qed
  qed
qed


lemma vma_overlaps_iff:
  assumes "vma_ok lo rs" and "start < stop"
  shows "vma_overlaps rs start stop \<longleftrightarrow> (\<exists>r \<in> set rs. vaddr r < stop \<and> start < vaddr r + rsize r)"
  using assms(1)
proof (induction rs arbitrary: lo)
  case (Cons x rs)
  then have x: "region_ok x" "vma_ok (vaddr x + rsize x) rs" by auto
  have "stop \<le> vaddr x \<Longrightarrow> r \<in> set rs \<Longrightarrow> \<not> vaddr r < stop" for r
    using vma_ok_in [OF x(2), of r] by auto
  then show ?case using Cons.IH [OF x(2)] region_end_ok [OF x(1)] by auto
qed simp

lemma vma_find_gap_free:
  assumes ok: "vma_ok lo rs" and len: "0 < len" and brk: "0 < mmap_brk" and h: "hint \<le> USER_VMA_UPPER_BOUND"
    and v: "vma_find_gap rs present mmap_brk len hint = v" "v \<noteq> 0"
  shows "v + len \<le> USER_VMA_UPPER_BOUND \<and> range_free rs present len v"
proof (cases "hint \<noteq> 0 \<and> len \<le> sub64 USER_VMA_UPPER_BOUND hint \<and> \<not> vma_overlaps rs hint (add64 hint len) \<and>
    first_mapped_page present hint len = 0")
  case True
  then have "v = hint" using v by (simp add: vma_find_gap_def)
  moreover have le: "hint + len \<le> USER_VMA_UPPER_BOUND"
  proof -
    have "len \<le> USER_VMA_UPPER_BOUND - hint" using True sub64_small [OF h USER_VMA_UPPER_BOUND_lt] by simp
    then show ?thesis using h by linarith
  qed
  moreover have lt: "hint + len < U64" by (rule le_less_trans [OF le USER_VMA_UPPER_BOUND_lt])
  moreover have "\<forall>r \<in> set rs. vaddr r + rsize r \<le> hint \<or> hint + len \<le> vaddr r"
    using True vma_overlaps_iff [OF ok, of hint "hint + len"] len lt by (auto simp: add64_small)
  moreover have m: "first_mapped_page present hint len = 0" and h0: "0 < hint" using True by simp_all
  ultimately show ?thesis
    using first_mapped_page_none [OF m h0 len lt] unfolding range_free_def by blast
next
  case False
  then have g: "gap_loop rs present len (if hint < mmap_brk then mmap_brk else hint) = v"
    using v by (auto simp: vma_find_gap_def)
  have "0 < (if hint < mmap_brk then mmap_brk else hint)" using brk by auto
  then show ?thesis using gap_loop_sound [OF ok len g v(2)] by blast
qed

subsection \<open>Inserting and merging\<close>

lemma vma_insert_sorted_spec:
  assumes "vma_ok lo rs" and "region_ok r" and "lo \<le> vaddr r"
    and free: "\<forall>x \<in> set rs. vaddr x + rsize x \<le> vaddr r \<or> vaddr r + rsize r \<le> vaddr x"
  shows "\<exists>rs'. vma_insert_sorted rs r = Inr rs' \<and> vma_ok lo rs' \<and>
    (\<forall>a. cover_view rs' a = (if covers r a then Some (attrs_at r a) else cover_view rs a)) \<and>
    (\<forall>b. ref_count rs' b = ref_count rs b + ref_count [r] b)"
  using assms
proof (induction rs arbitrary: lo)
  case (Cons x rs)
  have x: "region_ok x" "lo \<le> vaddr x" "vma_ok (vaddr x + rsize x) rs" using Cons.prems by auto
  have disj: "vaddr x + rsize x \<le> vaddr r \<or> vaddr r + rsize r \<le> vaddr x" using Cons.prems by simp
  show ?case
  proof (cases "vaddr x < vaddr r")
    case True
    then have le: "vaddr x + rsize x \<le> vaddr r" using disj Cons.prems(2) by (auto simp: region_ok_def)
    obtain rs' where rs': "vma_insert_sorted rs r = Inr rs'" "vma_ok (vaddr x + rsize x) rs'"
      "\<forall>a. cover_view rs' a = (if covers r a then Some (attrs_at r a) else cover_view rs a)"
      "\<forall>b. ref_count rs' b = ref_count rs b + ref_count [r] b"
      using Cons.IH [OF x(3) Cons.prems(2) le] Cons.prems(4) by auto
    have "\<not> (covers x a \<and> covers r a)" for a using le by (auto simp: covers_def)
    then show ?thesis using True rs' x by auto
  next
    case False
    then have le: "vaddr r + rsize r \<le> vaddr x" using disj x(1) by (auto simp: region_ok_def)
    then have "vaddr x \<noteq> vaddr r" using Cons.prems(2) by (auto simp: region_ok_def)
    then show ?thesis using False x le Cons.prems(2,3) by simp
  qed
qed auto

lemma anonymous_attrs:
  assumes "anonymous a" and "anonymous b" and "prot a = prot b" and "rflags a = rflags b"
  shows "attrs_at a x = attrs_at b x"
  using assms by (simp add: attrs_at_def anonymous_def)

lemma anonymous_refs: "anonymous r \<Longrightarrow> region_refs r = []"
  by (simp add: anonymous_def region_refs_def)


text \<open>Two adjacent anonymous regions of the same kind mean the same as one.\<close>

lemma glue:
  assumes "region_ok a" and "region_ok b" and "anonymous a" and "anonymous b" and "prot b = prot a"
    and "rflags b = rflags a" and "vaddr a + rsize a = vaddr b"
  defines "g \<equiv> a\<lparr>rsize := add64 (rsize a) (rsize b)\<rparr>"
  shows "region_ok g" and "anonymous g" and "vaddr g = vaddr a" and "rsize g = rsize a + rsize b"
    and "cover_view (a # b # ys) x = cover_view (g # ys) x" and "region_refs g = []"
    and "prot g = prot a" and "rflags g = rflags a"
proof -
  have le: "vaddr a + (rsize a + rsize b) \<le> USER_VMA_UPPER_BOUND"
    using assms(2,7) by (simp add: region_ok_def)
  then have "rsize a + rsize b < U64" using le_less_trans [OF le USER_VMA_UPPER_BOUND_lt] by simp
  then show rs: "rsize g = rsize a + rsize b" by (simp add: g_def add64_small)
  show an: "anonymous g" using assms(3) by (simp add: g_def anonymous_def)
  show "vaddr g = vaddr a" "prot g = prot a" "rflags g = rflags a" by (simp_all add: g_def)
  show "region_ok g"
    using assms(1,3) le rs \<open>rsize a + rsize b < U64\<close> by (simp add: region_ok_def g_def anonymous_def)
  show "region_refs g = []" by (rule anonymous_refs [OF an])
  have "attrs_at g x = attrs_at a x" "attrs_at b x = attrs_at a x"
    using anonymous_attrs [OF an assms(3)] anonymous_attrs [OF assms(4,3)] assms(5,6) by (simp_all add: g_def)
  then show "cover_view (a # b # ys) x = cover_view (g # ys) x"
    using rs assms(1,7) by (auto simp: covers_def g_def region_ok_def)
qed

lemma vma_ok_glue: "vma_ok lo (a # b # ys) \<Longrightarrow> region_ok g \<Longrightarrow> vaddr g = vaddr a \<Longrightarrow> rsize g = rsize a + rsize b \<Longrightarrow>
    vaddr a + rsize a = vaddr b \<Longrightarrow> vma_ok lo (g # ys)"
  using add.assoc [of "vaddr a" "rsize a" "rsize b"] by (metis vma_ok.simps(2))

lemma merge_next_part:
  assumes ok: "vma_ok lo (r # ys)" and an: "anonymous r"
    and m: "(case ys of
                 n # ys' \<Rightarrow>
                   if anonymous n \<and> prot n = prot r \<and> rflags n = rflags r \<and> region_end r = vaddr n
                   then (r\<lparr>rsize := add64 (rsize r) (rsize n)\<rparr>, ys') else (r, ys)
               | [] \<Rightarrow> (r, ys)) = (r', zs)"
  shows "vma_ok lo (r' # zs)" and "anonymous r'" and "cover_view (r # ys) x = cover_view (r' # zs) x"
    and "ref_count (r' # zs) b = ref_count (r # ys) b" and "vaddr r' = vaddr r"
proof -
  have "vma_ok lo (r' # zs) \<and> anonymous r' \<and> cover_view (r # ys) x = cover_view (r' # zs) x \<and>
    ref_count (r' # zs) b = ref_count (r # ys) b \<and> vaddr r' = vaddr r"
  proof (cases "\<exists>n ys'. ys = n # ys' \<and> anonymous n \<and> prot n = prot r \<and> rflags n = rflags r \<and> region_end r = vaddr n")
    case True
    then obtain n ys' where ys: "ys = n # ys'" and n: "anonymous n" "prot n = prot r" "rflags n = rflags r" "region_end r = vaddr n"
      by blast
    have rn: "region_ok r" "region_ok n" using ok ys by auto
    have adj: "vaddr r + rsize r = vaddr n" using n(4) region_end_ok [OF rn(1)] by simp
    note G = glue [OF rn an n(1-3) adj]
    have "r' = r\<lparr>rsize := add64 (rsize r) (rsize n)\<rparr>" "zs = ys'" using m ys n by auto
    then show ?thesis
      using G(2,3,6) G(5) [of ys' x] vma_ok_glue [OF ok [unfolded ys] G(1,3,4) adj] anonymous_refs [OF an] anonymous_refs [OF n(1)] ys
      by simp
  next
    case False
    then have "r' = r" "zs = ys" using m by (auto split: list.splits if_splits)
    then show ?thesis using ok an by simp
  qed
  then show "vma_ok lo (r' # zs)" "anonymous r'" "cover_view (r # ys) x = cover_view (r' # zs) x"
    "ref_count (r' # zs) b = ref_count (r # ys) b" "vaddr r' = vaddr r" by blast+
qed

lemma vma_merge_spec:
  assumes ok: "vma_ok lo (xs @ r # ys)" and M: "vma_merge xs r ys = (xs', r', ys')"
  shows "vma_ok lo (xs' @ r' # ys') \<and> cover_view (xs' @ r' # ys') x = cover_view (xs @ r # ys) x \<and>
    ref_count (xs' @ r' # ys') b = ref_count (xs @ r # ys) b"
proof (cases "anonymous r")
  case an: True
  obtain r1 zs where N: "(case ys of
                 n # ys' \<Rightarrow>
                   if anonymous n \<and> prot n = prot r \<and> rflags n = rflags r \<and> region_end r = vaddr n
                   then (r\<lparr>rsize := add64 (rsize r) (rsize n)\<rparr>, ys') else (r, ys)
               | [] \<Rightarrow> (r, ys)) = (r1, zs)" by fastforce
  have ok1: "vma_ok (if xs = [] then lo else vaddr (last xs) + rsize (last xs)) (r # ys)" and okx: "vma_ok lo xs"
    using ok by (simp_all add: vma_ok_append)
  note P = merge_next_part [OF ok1 an N]
  have okm: "vma_ok lo (xs @ r1 # zs)" using P(1) okx by (simp only: vma_ok_append)
  have view: "cover_view (xs @ r1 # zs) x = cover_view (xs @ r # ys) x" "ref_count (xs @ r1 # zs) b = ref_count (xs @ r # ys) b"
    using P(3) [of x] P(4) [of b] by (simp_all add: cover_view_append del: cover_view_simps split: option.splits)
  show ?thesis
  proof (cases "xs \<noteq> [] \<and> anonymous (last xs) \<and> prot (last xs) = prot r1 \<and> rflags (last xs) = rflags r1 \<and> region_end (last xs) = vaddr r1")
    case True
    then obtain ws p where xs: "xs = ws @ [p]" and p: "anonymous p" "prot r1 = prot p" "rflags r1 = rflags p" "region_end p = vaddr r1"
      by (cases xs rule: rev_cases) auto
    have pr: "region_ok p" "region_ok r1" using okm vma_ok_in [OF okm] xs by auto
    have adj: "vaddr p + rsize p = vaddr r1" using p(4) region_end_ok [OF pr(1)] by simp
    note G = glue [OF pr p(1) P(2) p(2,3) adj]
    have r': "xs' = ws" "r' = p\<lparr>rsize := add64 (rsize p) (rsize r1)\<rparr>" "ys' = zs"
      using M an N True by (simp_all add: vma_merge_def xs p)
    have o1: "vma_ok (if ws = [] then lo else vaddr (last ws) + rsize (last ws)) (p # r1 # zs)" and ow: "vma_ok lo ws"
      using okm xs vma_ok_append [of lo ws "p # r1 # zs"] by simp_all
    have "vma_ok lo (ws @ r' # zs)"
      using vma_ok_glue [OF o1 G(1,3,4) adj] ow by (simp only: vma_ok_append r')
    moreover have "cover_view (ws @ r' # zs) x = cover_view (xs @ r1 # zs) x"
      using G(5) [of zs x] by (simp add: r' xs cover_view_append del: cover_view_simps split: option.splits)
    moreover have "ref_count (ws @ r' # zs) b = ref_count (xs @ r1 # zs) b"
      using G(6) anonymous_refs [OF p(1)] anonymous_refs [OF P(2)] by (simp add: r' xs)
    ultimately show ?thesis using view r' by simp
  next
    case False
    then have "xs' = xs" "r' = r1" "ys' = zs" using M an N by (auto simp: vma_merge_def split: if_splits)
    then show ?thesis using okm view by simp
  qed
qed (use assms in \<open>auto simp: vma_merge_def\<close>)


subsection \<open>Facts the properties share\<close>

lemma vma_unmap_range_spec:
  assumes "vma_ok 0 mrs" and "0 < len" and "addr + len < U64" and "vma_unmap_range mrs e addr len = (res, mrs', e')"
  shows "vma_ok 0 mrs'" and "foreign_refs mrs' e' b = foreign_refs mrs e b" and "kmem_all_ok (vmem e) \<Longrightarrow> res = Inr ()"
    and "\<not> (addr \<le> x \<and> x < addr + len) \<Longrightarrow> vma_view mrs' x = vma_view mrs x"
    and "res = Inr () \<Longrightarrow> addr \<le> x \<Longrightarrow> x < addr + len \<Longrightarrow> vma_view mrs' x = None"
proof -
  have W: "range_walk free_one_region addr (addr + len) mrs e = (res, mrs', e')"
    using assms(3,4) by (simp add: vma_unmap_range_def add64_small)
  have "addr < addr + len" using assms(2) by simp
  note S = unmap.range_walk_spec [OF assms(1) W this assms(3)]
  show ok: "vma_ok 0 mrs'" using S by blast
  show "foreign_refs mrs' e' b = foreign_refs mrs e b" "kmem_all_ok (vmem e) \<Longrightarrow> res = Inr ()" using S by blast+
  show "\<not> (addr \<le> x \<and> x < addr + len) \<Longrightarrow> vma_view mrs' x = vma_view mrs x"
    "res = Inr () \<Longrightarrow> addr \<le> x \<Longrightarrow> x < addr + len \<Longrightarrow> vma_view mrs' x = None"
    using S [where x = x] by (auto simp: vma_view_cover [OF ok] vma_view_cover [OF assms(1)] bind_eq_None_conv)
qed

lemma vma_protect_range_spec:
  assumes "vma_ok 0 mrs" and "0 < len" and "addr + len < U64" and "vma_protect_range mrs e addr len p = (res, mrs', e')"
  shows "vma_ok 0 mrs'" and "foreign_refs mrs' e' b = foreign_refs mrs e b" and "kmem_all_ok (vmem e) \<Longrightarrow> res = Inr ()"
    and "\<not> (addr \<le> x \<and> x < addr + len) \<Longrightarrow> vma_view mrs' x = vma_view mrs x"
    and "res = Inr () \<Longrightarrow> addr \<le> x \<Longrightarrow> x < addr + len \<Longrightarrow>
      vma_view mrs' x = map_option (\<lambda>v. v\<lparr>a_prot := p\<rparr>) (vma_view mrs x)"
proof -
  have W: "range_walk (set_prot p) addr (addr + len) mrs e = (res, mrs', e')"
    using assms(3,4) by (simp add: vma_protect_range_def add64_small)
  have "addr < addr + len" using assms(2) by simp
  note S = protect.range_walk_spec [OF assms(1) W this assms(3)]
  show ok: "vma_ok 0 mrs'" using S by blast
  show "foreign_refs mrs' e' b = foreign_refs mrs e b" "kmem_all_ok (vmem e) \<Longrightarrow> res = Inr ()" using S by blast+
  show "\<not> (addr \<le> x \<and> x < addr + len) \<Longrightarrow> vma_view mrs' x = vma_view mrs x"
    "res = Inr () \<Longrightarrow> addr \<le> x \<Longrightarrow> x < addr + len \<Longrightarrow>
      vma_view mrs' x = map_option (\<lambda>v. v\<lparr>a_prot := p\<rparr>) (vma_view mrs x)"
    using S [where x = x]
    by (auto simp: vma_view_cover [OF ok] vma_view_cover [OF assms(1)] map_conv_bind_option comp_def)
qed

subsection \<open>Properties\<close>

text \<open>
  Two regions on which the properties are exercised: a device mapping at 0x10000 and anonymous
  memory at 0x20000.
\<close>

definition demo_region :: "u64 \<Rightarrow> u64 \<Rightarrow> mmap_region" where
  "demo_region va sz = \<lparr>vaddr = va, rsize = sz, phys = 0, shm_obj = None, prot = 3, fd = -1, offset = 0, rflags = 0x22,
     r_inode = None, shm_private_src = None, r_owner = None, ra_last_page = 0, ra_next_page = 0,
     ra_window_pages = 0, ra_sequential_faults = 0\<rparr>"

definition demo_mrs :: "mmap_region list" where
  "demo_mrs = [(demo_region 0x10000 0x4000)\<lparr>r_inode := Some 5, fd := 3\<rparr>, demo_region 0x20000 0x3000]"

definition demo_env :: vma_env where
  "demo_env = \<lparr>refs = \<lambda>_. 1, ptes = \<lambda>_. False, dma_freed = [], wb_log = [], vmem = []\<rparr>"

lemma demo_mrs_ok: "vma_ok 0 demo_mrs"
  by (simp add: demo_mrs_def demo_region_def region_ok_def USER_VMA_UPPER_BOUND_def U64_def)

text \<open>
  C16. munmap, address by address: \<open>vma_unmap_range\<close> keeps the list sorted and disjoint, never
  changes what an address outside the range means, leaves no address inside mapped when it
  succeeds, and fails only when an allocation fails.
\<close>

theorem vma_unmap_range_view:
  assumes "vma_ok 0 mrs" and "0 < len" and "addr + len < U64" and "vma_unmap_range mrs e addr len = (res, mrs', e')"
  shows "vma_ok 0 mrs' \<and> (kmem_all_ok (vmem e) \<longrightarrow> res = Inr ()) \<and>
    (\<forall>x. if addr \<le> x \<and> x < addr + len then res = Inr () \<longrightarrow> vma_view mrs' x = None
         else vma_view mrs' x = vma_view mrs x)"
  using vma_unmap_range_spec [OF assms] by auto

theorem vma_unmap_range_view_witness:
  "\<exists>res mrs' e'. vma_unmap_range demo_mrs demo_env 0x11000 0x1000 = (res, mrs', e') \<and> res = Inr () \<and>
     vma_view mrs' 0x11800 = None \<and> vma_view mrs' 0x12000 = vma_view demo_mrs 0x12000"
proof -
  obtain res mrs' e' where U: "vma_unmap_range demo_mrs demo_env 0x11000 0x1000 = (res, mrs', e')"
    by (metis prod_cases3)
  have k: "kmem_all_ok (vmem demo_env)" by (simp add: demo_env_def)
  from vma_unmap_range_view [OF demo_mrs_ok _ _ U] k
  have R: "res = Inr ()" and V: "\<forall>x. if 0x11000 \<le> x \<and> x < 0x11000 + 0x1000 then res = Inr () \<longrightarrow> vma_view mrs' x = None
         else vma_view mrs' x = vma_view demo_mrs x" by (auto simp: U64_def)
  show ?thesis using U R spec [OF V, of "0x11800"] spec [OF V, of "0x12000"] by auto
qed

text \<open>
  C17. mprotect, address by address: \<open>vma_protect_range\<close> sets the protection of every mapped
  address of the range and nothing else: backing, file offset and physical address of each
  address survive the splitting, and addresses outside the range are untouched.
\<close>

theorem vma_protect_range_view:
  assumes "vma_ok 0 mrs" and "0 < len" and "addr + len < U64" and "vma_protect_range mrs e addr len p = (res, mrs', e')"
  shows "vma_ok 0 mrs' \<and> (kmem_all_ok (vmem e) \<longrightarrow> res = Inr ()) \<and>
    (\<forall>x. if addr \<le> x \<and> x < addr + len
         then res = Inr () \<longrightarrow> vma_view mrs' x = map_option (\<lambda>v. v\<lparr>a_prot := p\<rparr>) (vma_view mrs x)
         else vma_view mrs' x = vma_view mrs x)"
  using vma_protect_range_spec [OF assms] by auto

theorem vma_protect_range_view_witness:
  "\<exists>res mrs' e'. vma_protect_range demo_mrs demo_env 0x11000 0x1000 1 = (res, mrs', e') \<and> res = Inr () \<and>
     map_option a_prot (vma_view mrs' 0x11800) = Some 1"
proof -
  obtain res mrs' e' where U: "vma_protect_range demo_mrs demo_env 0x11000 0x1000 1 = (res, mrs', e')"
    by (metis prod_cases3)
  have k: "kmem_all_ok (vmem demo_env)" by (simp add: demo_env_def)
  have v: "vma_view demo_mrs 0x11800 \<noteq> None"
    by (simp add: vma_view_def demo_mrs_def demo_region_def region_end_def add64_small U64_def)
  from vma_protect_range_view [OF demo_mrs_ok _ _ U] k
  have R: "res = Inr ()" and V: "\<forall>x. if 0x11000 \<le> x \<and> x < 0x11000 + 0x1000
      then res = Inr () \<longrightarrow> vma_view mrs' x = map_option (\<lambda>v. v\<lparr>a_prot := 1\<rparr>) (vma_view demo_mrs x)
      else vma_view mrs' x = vma_view demo_mrs x" by (auto simp: U64_def)
  show ?thesis using U R v spec [OF V, of "0x11800"] by (auto simp: option.map_comp comp_def)
qed

text \<open>
  Histories of an address space: mapping with the references a fresh region owns, unmapping,
  protecting, merging, and attaching a device owner.
\<close>

inductive vma_history :: "mmap_region list \<times> vma_env \<Rightarrow> mmap_region list \<times> vma_env \<Rightarrow> bool" for s0 where
  start: "vma_history s0 s0"
| map_region: "vma_history s0 (mrs, e) \<Longrightarrow> region_ok r \<Longrightarrow>
    \<forall>x \<in> set mrs. vaddr x + rsize x \<le> vaddr r \<or> vaddr r + rsize r \<le> vaddr x \<Longrightarrow>
    vma_insert_sorted mrs r = Inr mrs' \<Longrightarrow> vma_history s0 (mrs', get_refs r e)"
| unmap_range: "vma_history s0 (mrs, e) \<Longrightarrow> 0 < len \<Longrightarrow> addr + len < U64 \<Longrightarrow>
    vma_unmap_range mrs e addr len = (res, mrs', e') \<Longrightarrow> vma_history s0 (mrs', e')"
| protect_range: "vma_history s0 (mrs, e) \<Longrightarrow> 0 < len \<Longrightarrow> addr + len < U64 \<Longrightarrow>
    vma_protect_range mrs e addr len p = (res, mrs', e') \<Longrightarrow> vma_history s0 (mrs', e')"
| merge: "vma_history s0 (xs @ r # ys, e) \<Longrightarrow> vma_merge xs r ys = (xs', r', ys') \<Longrightarrow> vma_history s0 (xs' @ r' # ys', e)"
| attach: "vma_history s0 (xs @ r # ys, e) \<Longrightarrow> vma_attach_owner r ow e = (Inr r', e') \<Longrightarrow>
    vma_history s0 (xs @ r' # ys, e')"

lemma has_flag_OR: "has_flag (a OR b) c \<longleftrightarrow> has_flag a c \<or> has_flag b c"
  by (auto simp: has_flag_def bit_eq_iff bit_simps)

lemma kmap_flags_distinct [simp]:
  "has_flag KMAP_VMA_OWNER KMAP_VMA_OWNER" "\<not> has_flag KMAP_VMA_OWNER KMAP_SHM_MAYWRITE"
  by (simp_all add: has_flag_def KMAP_VMA_OWNER_def KMAP_SHM_MAYWRITE_def)

lemma vma_attach_owner_refs:
  assumes "vma_attach_owner r ow e = (Inr r', e')"
  shows "foreign_refs [r'] e' b = foreign_refs [r] e b" and "vaddr r' = vaddr r" and "rsize r' = rsize r" and "phys r' = phys r"
proof -
  obtain w where w: "ow = Some w" "\<not> has_flag (rflags r) KMAP_VMA_OWNER"
    "r' = r\<lparr>r_owner := Some w, rflags := rflags r OR KMAP_VMA_OWNER\<rparr>" "e' = ref_get (Owner w) e"
    using assms by (auto simp: vma_attach_owner_def vma_adopt_owner_def split: if_splits)
  then show "vaddr r' = vaddr r" "rsize r' = rsize r" "phys r' = phys r" by simp_all
  have "region_refs r' = region_refs r @ [Owner w]"
    using w by (auto simp: region_refs_def has_flag_OR split: option.splits)
  then show "foreign_refs [r'] e' b = foreign_refs [r] e b"
    by (simp add: foreign_refs_def w(4) ref_get_def)
qed

lemma vma_ok_replace:
  "vma_ok lo (xs @ r # ys) \<Longrightarrow> region_ok r' \<Longrightarrow> vaddr r' = vaddr r \<Longrightarrow> rsize r' = rsize r \<Longrightarrow> vma_ok lo (xs @ r' # ys)"
  by (simp add: vma_ok_append)

text \<open>
  C18. The reference rule: over every history of an address space the region list stays sorted,
  disjoint and inside the user range, and for every backing object (shared memory, its
  writable-mapping counter, inode, device owner) the references not accounted for by a region
  struct never change. So each region owns exactly its references, through splits, merges,
  failed splits and partial failures.
\<close>

theorem vma_history_balanced:
  assumes "vma_history s0 s" and "vma_ok 0 (fst s0)"
  shows "vma_ok 0 (fst s) \<and> (\<forall>b. foreign_refs (fst s) (snd s) b = foreign_refs (fst s0) (snd s0) b)"
  using assms
proof (induction rule: vma_history.induct)
  case (map_region mrs e r mrs')
  then have ok: "vma_ok 0 mrs" by simp
  obtain mrs'' where I: "vma_insert_sorted mrs r = Inr mrs''" "vma_ok 0 mrs''"
    "\<forall>b. ref_count mrs'' b = ref_count mrs b + ref_count [r] b"
    using vma_insert_sorted_spec [OF ok map_region(2) _ map_region(3)] by auto
  then show ?case using map_region by (simp add: foreign_refs_def)
next
  case (unmap_range mrs e len addr res mrs' e')
  then show ?case using vma_unmap_range_spec(1,2) [of mrs len addr e res mrs' e'] by simp
next
  case (protect_range mrs e len addr p res mrs' e')
  then show ?case using vma_protect_range_spec(1,2) [of mrs len addr e p res mrs' e'] by simp
next
  case (merge xs r ys e xs' r' ys')
  then show ?case using vma_merge_spec [of 0 xs r ys xs' r' ys'] by (simp add: foreign_refs_def)
next
  case (attach xs r ys e ow r' e')
  note A = vma_attach_owner_refs [OF attach(2)]
  have ok: "vma_ok 0 (xs @ r # ys)" using attach by simp
  then have "region_ok r" using vma_ok_in [OF ok, of r] by simp
  then have "region_ok r'" using A by (simp add: region_ok_def)
  moreover have "foreign_refs (xs @ r' # ys) e' b = foreign_refs (xs @ r # ys) e b" for b
    using A(1) [of b] by (simp add: foreign_refs_def)
  ultimately show ?case using attach vma_ok_replace [OF ok _ A(2,3)] by simp
qed simp

theorem vma_history_balanced_witness:
  "\<exists>res mrs' e'. vma_unmap_range demo_mrs demo_env 0x11000 0x1000 = (res, mrs', e') \<and>
     foreign_refs mrs' e' (Inode 5) = foreign_refs demo_mrs demo_env (Inode 5)"
proof -
  obtain res mrs' e' where U: "vma_unmap_range demo_mrs demo_env 0x11000 0x1000 = (res, mrs', e')"
    by (metis prod_cases3)
  have "vma_history (demo_mrs, demo_env) (mrs', e')"
    by (rule vma_history.unmap_range [OF vma_history.start _ _ U]) (simp_all add: U64_def)
  from vma_history_balanced [OF this] demo_mrs_ok U show ?thesis by auto
qed


text \<open>
  C19. Gap search: for a hint inside the user address space, \<open>vma_find_gap\<close> returns an address
  whose whole range is free of regions, of mapped pages and of the signal trampoline and ends
  below the user limit; and on page-aligned lists it returns 0 only when no page-aligned address
  at or above the starting cursor has such a range. The search always terminates.
\<close>

theorem vma_find_gap_correct:
  assumes "vma_ok 0 mrs" and "0 < len" and "0 < mmap_brk" and "page_aligned mmap_brk" and "page_aligned hint"
    and "hint \<le> USER_VMA_UPPER_BOUND" and "\<forall>r \<in> set mrs. page_aligned (vaddr r) \<and> page_aligned (rsize r)"
  shows "let v = vma_find_gap mrs present mmap_brk len hint in
    if v \<noteq> 0 then v + len \<le> USER_VMA_UPPER_BOUND \<and> range_free mrs present len v
    else \<forall>c. page_aligned c \<and> max hint mmap_brk \<le> c \<and> c + len \<le> USER_VMA_UPPER_BOUND \<longrightarrow> \<not> range_free mrs present len c"
proof (cases "vma_find_gap mrs present mmap_brk len hint = 0")
  case True
  let ?cur = "if hint < mmap_brk then mmap_brk else hint"
  have "gap_loop mrs present len ?cur = 0" using True by (auto simp: vma_find_gap_def split: if_splits)
  moreover have "0 < ?cur" "page_aligned ?cur" "?cur = max hint mmap_brk" using assms(3-5) by auto
  ultimately show ?thesis
    using gap_loop_complete [OF assms(1,2,7), of _ present ?cur] True by (auto simp: Let_def)
next
  case False
  then show ?thesis using vma_find_gap_free [OF assms(1-3,6) refl False] by (simp add: Let_def)
qed

theorem vma_find_gap_correct_witness:
  "vma_find_gap demo_mrs (\<lambda>_. False) 0x10000 0x1000 0 = 0x14000 \<and>
     range_free demo_mrs (\<lambda>_. False) 0x1000 0x14000"
proof -
  have "vma_find_gap demo_mrs (\<lambda>_. False) 0x10000 0x1000 0 = 0x14000"
    by (simp add: vma_find_gap_def gap_loop.simps demo_mrs_def demo_region_def region_end_def add64_small U64_def
        USER_VMA_UPPER_BOUND_def first_mapped_page_def overlaps_signal_trampoline_def SIG_TRAMPOLINE_ADDR_def
        UINT64_MAX_def PAGE_SIZE_def scan_ptes.simps Let_def)
  then show ?thesis
    using vma_find_gap_correct [OF demo_mrs_ok, of "0x1000" "0x10000" 0 "\<lambda>_. False"]
    by (simp add: page_aligned_def PAGE_SIZE_def USER_VMA_UPPER_BOUND_def demo_mrs_def demo_region_def Let_def)
qed

text \<open>
  The unsigned subtraction in the hint test: a hint above the user limit wraps
  \<open>USER_VMA_UPPER_BOUND - hint\<close> to a huge number, so an unmapped hint beyond every region is
  returned although its range lies outside the user address space.
\<close>

lemma vma_find_gap_hint_escapes:
  assumes "vma_ok 0 mrs" and "USER_VMA_UPPER_BOUND < hint" and "hint + len < U64" and "0 < len"
    and "\<forall>va. hint \<le> va \<longrightarrow> \<not> present va"
  shows "vma_find_gap mrs present mmap_brk len hint = hint"
proof -
  have "sub64 USER_VMA_UPPER_BOUND hint = USER_VMA_UPPER_BOUND + (U64 - hint)"
    using assms(2,3) by (simp add: sub64_def)
  then have s: "len \<le> sub64 USER_VMA_UPPER_BOUND hint" using assms(3) by simp
  have "vma_overlaps mrs hint (hint + len) \<longleftrightarrow> (\<exists>r \<in> set mrs. vaddr r < hint + len \<and> hint < vaddr r + rsize r)"
    by (rule vma_overlaps_iff [OF assms(1)]) (use assms(4) in simp)
  moreover have "vaddr r + rsize r \<le> hint" if "r \<in> set mrs" for r
    using vma_ok_in [OF assms(1) that] assms(2) by (simp add: region_ok_def)
  ultimately have o: "\<not> vma_overlaps mrs hint (hint + len)" by force
  have "scan_ptes present hint (hint + len) = 0"
    using scan_ptes_hit [of present hint "hint + len", OF refl] assms(5) by blast
  then have "first_mapped_page present hint len = 0"
    using assms(2,3) by (simp add: first_mapped_page_def overlaps_signal_trampoline_def add64_small Let_def
        USER_VMA_UPPER_BOUND_def SIG_TRAMPOLINE_ADDR_def PAGE_SIZE_def)
  then show ?thesis using s o assms(2,3) by (simp add: vma_find_gap_def add64_small)
qed

lemma vma_insert_sorted_dup:
  assumes "vma_ok lo mrs" and "x \<in> set mrs" and "vaddr x = vaddr r"
  shows "vma_insert_sorted mrs r = Inl EEXIST"
  using assms
proof (induction mrs arbitrary: lo)
  case (Cons y mrs)
  have "vaddr y + rsize y \<le> vaddr z \<and> 0 < rsize y" if "z \<in> set mrs" for z
    using vma_ok_in [of "vaddr y + rsize y" mrs z] Cons.prems that by (auto simp: region_ok_def)
  then show ?case using Cons.prems Cons.IH [of "vaddr y + rsize y"] by fastforce
qed simp

text \<open>
  C20. Insertion and lookup: a region that overlaps no other is inserted, the list stays well
  formed, and afterwards \<open>vma_find\<close> returns it exactly for its own addresses and what it returned
  before everywhere else. A region that starts where another starts is refused with EEXIST.
\<close>

theorem vma_insert_find:
  assumes "vma_ok 0 mrs" and "region_ok r"
  shows "if \<forall>x \<in> set mrs. vaddr x + rsize x \<le> vaddr r \<or> vaddr r + rsize r \<le> vaddr x
    then \<exists>mrs'. vma_insert_sorted mrs r = Inr mrs' \<and> vma_ok 0 mrs' \<and>
      (\<forall>a. vma_view mrs' a = (if covers r a then Some (attrs_at r a) else vma_view mrs a))
    else (\<exists>x \<in> set mrs. vaddr x = vaddr r) \<longrightarrow> vma_insert_sorted mrs r = Inl EEXIST"
proof -
  have "vma_insert_sorted mrs r = Inl EEXIST" if "x \<in> set mrs" "vaddr x = vaddr r" for x
    using vma_insert_sorted_dup [OF assms(1) that] .
  moreover have "\<exists>mrs'. vma_insert_sorted mrs r = Inr mrs' \<and> vma_ok 0 mrs' \<and>
      (\<forall>a. vma_view mrs' a = (if covers r a then Some (attrs_at r a) else vma_view mrs a))"
    if "\<forall>x \<in> set mrs. vaddr x + rsize x \<le> vaddr r \<or> vaddr r + rsize r \<le> vaddr x"
    using vma_insert_sorted_spec [OF assms _ that] by (auto simp: vma_view_cover vma_view_cover [OF assms(1)])
  ultimately show ?thesis by auto
qed

theorem vma_insert_find_witness:
  "\<exists>mrs'. vma_insert_sorted demo_mrs (demo_region 0x18000 0x1000) = Inr mrs' \<and>
     vma_view mrs' 0x18010 = Some (attrs_at (demo_region 0x18000 0x1000) 0x18010)"
  using vma_insert_find [OF demo_mrs_ok, of "demo_region 0x18000 0x1000"]
  by (auto simp: demo_mrs_def demo_region_def region_ok_def USER_VMA_UPPER_BOUND_def U64_def covers_def)

text \<open>
  C21. Merging is invisible: \<open>vma_merge\<close> keeps the list well formed and changes the meaning of no
  address, and the descriptors it frees own no reference.
\<close>

theorem vma_merge_view:
  assumes "vma_ok 0 (xs @ r # ys)" and "vma_merge xs r ys = (xs', r', ys')"
  shows "vma_ok 0 (xs' @ r' # ys') \<and> (\<forall>a. vma_view (xs' @ r' # ys') a = vma_view (xs @ r # ys) a) \<and>
    (\<forall>b. ref_count (xs' @ r' # ys') b = ref_count (xs @ r # ys) b)"
  using vma_merge_spec [OF assms] vma_view_cover [OF assms(1)] vma_view_cover by metis

theorem vma_merge_view_witness:
  "\<exists>r'. vma_merge [demo_region 0x1000 0x1000] (demo_region 0x2000 0x1000) [demo_region 0x3000 0x1000] = ([], r', []) \<and>
     rsize r' = 0x3000 \<and> vma_view [r'] 0x3800 =
       vma_view [demo_region 0x1000 0x1000, demo_region 0x2000 0x1000, demo_region 0x3000 0x1000] 0x3800"
proof -
  have ok: "vma_ok 0 ([demo_region 0x1000 0x1000] @ demo_region 0x2000 0x1000 # [demo_region 0x3000 0x1000])"
    by (simp add: demo_region_def region_ok_def USER_VMA_UPPER_BOUND_def U64_def)
  have M: "vma_merge [demo_region 0x1000 0x1000] (demo_region 0x2000 0x1000) [demo_region 0x3000 0x1000] =
      ([], (demo_region 0x1000 0x1000)\<lparr>rsize := 0x3000\<rparr>, [])"
    by (simp add: vma_merge_def demo_region_def anonymous_def has_flag_def KMAP_VMA_OWNER_def region_end_def add64_small U64_def)
  show ?thesis using vma_merge_view [OF ok M] M by auto
qed

end
