(* ===== verification/Wait_Queue.thy ===== *)
theory Wait_Queue
  imports Prelude
begin

text \<open>
  The intrusive circular list of \<open>kernel/xcore/list.h\<close> and the wait queues of
  \<open>kernel/xcore/wait_queue.c\<close>.

  A list node is an address into a store of \<open>prev\<close>/\<open>next\<close> pairs, and every operation is the
  sequence of pointer writes of the C code. \<open>ring s h xs\<close> says that the store links the head
  \<open>h\<close> and the nodes \<open>xs\<close> into a circular list; the operations refine appending to and deleting
  from \<open>xs\<close>. \<open>wake_up\<close> walks the pointers; its result is the list of waiters whose callback is
  called, and \<open>None\<close> is a panic or a walk that never ends.
\<close>

subsection \<open>Pointer operations\<close>

record list_node =
  ln_prev :: nat
  ln_next :: nat

type_synonym list_store = "nat \<Rightarrow> list_node"

definition list_init :: "list_store \<Rightarrow> nat \<Rightarrow> list_store" where
  "list_init s head = s(head := \<lparr>ln_prev = head, ln_next = head\<rparr>)"

definition set_next :: "nat \<Rightarrow> nat \<Rightarrow> list_store \<Rightarrow> list_store" where
  "set_next a b s = s(a := (s a)\<lparr>ln_next := b\<rparr>)"

definition set_prev :: "nat \<Rightarrow> nat \<Rightarrow> list_store \<Rightarrow> list_store" where
  "set_prev a b s = s(a := (s a)\<lparr>ln_prev := b\<rparr>)"

definition list_push_back :: "list_store \<Rightarrow> nat \<Rightarrow> nat \<Rightarrow> list_store" where
  "list_push_back s head node =
     (let s = set_prev node (ln_prev (s head)) s;
          s = set_next node head s;
          s = set_next (ln_prev (s head)) node s
      in set_prev head node s)"

definition list_remove :: "list_store \<Rightarrow> nat \<Rightarrow> list_store" where
  "list_remove s node =
     (let s = set_next (ln_prev (s node)) (ln_next (s node)) s;
          s = set_prev (ln_next (s node)) (ln_prev (s node)) s
      in s(node := \<lparr>ln_prev = node, ln_next = node\<rparr>))"

definition list_empty :: "list_store \<Rightarrow> nat \<Rightarrow> bool" where
  "list_empty s head \<longleftrightarrow> ln_next (s head) = head"

definition list_front :: "list_store \<Rightarrow> nat \<Rightarrow> nat" where
  "list_front s head = ln_next (s head)"

subsection \<open>Wait queues\<close>

record wait_queue_t =
  wq_func :: bool \<comment> \<open>a callback is installed\<close>
  wq_data :: nat \<comment> \<open>the task it wakes\<close>
  wq_exclusive :: bool

definition KERNEL_VMA_BOUNDARY :: nat where
  "KERNEL_VMA_BOUNDARY = 0xFFFFFF8000000000"

definition init_wait_queue_head :: "list_store \<Rightarrow> nat \<Rightarrow> list_store" where
  "init_wait_queue_head s wq = list_init s wq"

definition add_wait_queue :: "list_store \<Rightarrow> nat \<Rightarrow> nat \<Rightarrow> list_store" where
  "add_wait_queue s wq wait = list_push_back s wq wait"

definition remove_wait_queue :: "list_store \<Rightarrow> nat \<Rightarrow> list_store" where
  "remove_wait_queue s wait = list_remove s wait"

definition call_func :: "(nat \<Rightarrow> wait_queue_t) \<Rightarrow> nat \<Rightarrow> nat list" where
  "call_func e w = (if wq_func (e w) then [w] else [])"

partial_function (option) wake_walk ::
  "list_store \<Rightarrow> (nat \<Rightarrow> wait_queue_t) \<Rightarrow> nat \<Rightarrow> nat \<Rightarrow> bool \<Rightarrow> nat list option" where
  "wake_walk s e head it woken_exclusive =
     (if it = head then Some []
      else if it < KERNEL_VMA_BOUNDARY then None
      else
        let nx = ln_next (s it) in
        if nx = it then Some []
        else if wq_exclusive (e it) then
          if woken_exclusive then wake_walk s e head nx woken_exclusive
          else Option.bind (wake_walk s e head nx True) (\<lambda>r. Some (call_func e it @ r))
        else Option.bind (wake_walk s e head nx woken_exclusive) (\<lambda>r. Some (call_func e it @ r)))"

text \<open>\<open>__wake_up\<close>; a NULL queue panics.\<close>

definition wake_up :: "list_store \<Rightarrow> (nat \<Rightarrow> wait_queue_t) \<Rightarrow> nat option \<Rightarrow> nat list option" where
  "wake_up s e wq = (case wq of None \<Rightarrow> None | Some h \<Rightarrow> wake_walk s e h (ln_next (s h)) False)"

text \<open>The task side of the callbacks: \<open>wake_wq_target\<close> makes a blocked task runnable.\<close>

datatype task_state = UNUSED | READY | RUNNING | BLOCKED | ZOMBIE | REAPING | STOPPED

definition wake_wq_target :: "(nat \<Rightarrow> task_state) \<Rightarrow> nat \<Rightarrow> nat \<Rightarrow> task_state" where
  "wake_wq_target ts t = (if ts t = BLOCKED then ts(t := READY) else ts)"

definition run_callbacks :: "(nat \<Rightarrow> wait_queue_t) \<Rightarrow> nat list \<Rightarrow> (nat \<Rightarrow> task_state) \<Rightarrow> nat \<Rightarrow> task_state" where
  "run_callbacks e ws ts = fold (\<lambda>w ts. wake_wq_target ts (wq_data (e w))) ws ts"

subsection \<open>Circular lists\<close>

fun seg :: "list_store \<Rightarrow> nat \<Rightarrow> nat list \<Rightarrow> nat \<Rightarrow> bool" where
  "seg s a [] b \<longleftrightarrow> ln_next (s a) = b \<and> ln_prev (s b) = a"
| "seg s a (x # xs) b \<longleftrightarrow> ln_next (s a) = x \<and> ln_prev (s x) = a \<and> seg s x xs b"

definition ring :: "list_store \<Rightarrow> nat \<Rightarrow> nat list \<Rightarrow> bool" where
  "ring s h xs \<longleftrightarrow> distinct (h # xs) \<and> seg s h xs h"

lemma seg_append [simp]: "seg s a (xs @ y # ys) b \<longleftrightarrow> seg s a xs y \<and> seg s y ys b"
  by (induction xs arbitrary: a) auto

lemma seg_cong:
  assumes "\<And>x. x = a \<or> x \<in> set xs \<Longrightarrow> ln_next (s' x) = ln_next (s x)"
    and "\<And>x. x = b \<or> x \<in> set xs \<Longrightarrow> ln_prev (s' x) = ln_prev (s x)"
  shows "seg s' a xs b \<longleftrightarrow> seg s a xs b"
  using assms by (induction xs arbitrary: a) auto

text \<open>The two ends of a segment.\<close>

lemma seg_first: "seg s a xs b \<Longrightarrow> ln_next (s a) = hd (xs @ [b])"
  by (cases xs) auto

lemma seg_last: "seg s a xs b \<Longrightarrow> ln_prev (s b) = last (a # xs)"
  by (induction xs arbitrary: a) auto

lemma ring_init: "ring (list_init s h) h []"
  by (simp add: ring_def list_init_def)

lemma ring_push_back:
  assumes r: "ring s h xs" and n: "n \<notin> set (h # xs)"
  shows "ring (list_push_back s h n) h (xs @ [n])"
proof (cases xs rule: rev_cases)
  case Nil
  then show ?thesis using r n
    by (simp add: ring_def list_push_back_def set_next_def set_prev_def Let_def)
next
  case (snoc ys y)
  let ?s' = "list_push_back s h n"
  have y: "ln_prev (s h) = y" "distinct (h # ys @ [y])" "seg s h ys y" "ln_next (s y) = h"
    using r snoc by (auto simp: ring_def)
  have "seg ?s' h ys y \<longleftrightarrow> seg s h ys y"
    by (rule seg_cong) (use y n snoc in \<open>auto simp: list_push_back_def set_next_def set_prev_def Let_def\<close>)
  moreover have "ln_next (?s' y) = n" "ln_prev (?s' n) = y" "ln_next (?s' n) = h" "ln_prev (?s' h) = n"
    using y n snoc by (auto simp: list_push_back_def set_next_def set_prev_def Let_def)
  ultimately show ?thesis using y n snoc by (auto simp: ring_def)
qed

lemma ring_remove:
  assumes r: "ring s h (xs @ n # ys)"
  shows "ring (list_remove s n) h (xs @ ys)"
proof -
  let ?a = "last (h # xs)" and ?b = "hd (ys @ [h])" and ?s' = "list_remove s n"
  have d: "distinct (h # xs @ n # ys)" and x: "seg s h xs n" and y: "seg s n ys h"
    using r by (auto simp: ring_def)
  have p: "ln_prev (s n) = ?a" "ln_next (s n) = ?b" using seg_last [OF x] seg_first [OF y] by simp_all
  have ab: "?a \<noteq> n" "?b \<noteq> n" "?a \<in> set (h # xs)" "?b \<in> set (h # ys)"
    using d by (auto simp: last_in_set hd_append intro: last_in_set hd_in_set split: if_splits)
  have nx: "ln_next (?s' z) = (if z = n then n else if z = ?a then ?b else ln_next (s z))"
    and pv: "ln_prev (?s' z) = (if z = n then n else if z = ?b then ?a else ln_prev (s z))" for z
    using p ab(1,2) by (auto simp: list_remove_def set_next_def set_prev_def Let_def)
  show ?thesis
  proof (cases xs rule: rev_cases)
    case Nil
    show ?thesis
    proof (cases ys)
      case Nil
      then show ?thesis using d nx pv \<open>xs = []\<close> by (simp add: ring_def)
    next
      case (Cons c cs)
      have "seg ?s' c cs h \<longleftrightarrow> seg s c cs h"
        by (rule seg_cong) (use nx pv d Cons \<open>xs = []\<close> in auto)
      then show ?thesis using d y nx pv Cons \<open>xs = []\<close> by (auto simp: ring_def)
    qed
  next
    case (snoc zs z)
    have z: "seg ?s' h zs z \<longleftrightarrow> seg s h zs z"
      by (rule seg_cong) (use nx pv d snoc in \<open>auto simp: hd_append hd_in_set split: if_splits\<close>)
    show ?thesis
    proof (cases ys)
      case Nil
      then show ?thesis using d x z nx pv snoc by (auto simp: ring_def)
    next
      case (Cons c cs)
      have "seg ?s' c cs h \<longleftrightarrow> seg s c cs h"
        by (rule seg_cong) (use nx pv d snoc Cons in auto)
      then show ?thesis using d x y z nx pv snoc Cons by (auto simp: ring_def)
    qed
  qed
qed

lemma ring_empty_front:
  assumes "ring s h xs"
  shows "list_empty s h \<longleftrightarrow> xs = []" and "list_front s h = hd (xs @ [h])"
  using assms by (cases xs; auto simp: ring_def list_empty_def list_front_def)+

subsection \<open>What a wake-up reaches\<close>

text \<open>Every non-exclusive waiter and the first exclusive one, in queue order, as far as they have a callback.\<close>

definition woken :: "(nat \<Rightarrow> wait_queue_t) \<Rightarrow> nat list \<Rightarrow> nat list" where
  "woken e xs =
     filter (\<lambda>w. wq_func (e w) \<and> (wq_exclusive (e w) \<longrightarrow> find (\<lambda>x. wq_exclusive (e x)) xs = Some w)) xs"

declare wake_walk.simps [simp del]

lemma wake_walk_end [simp]: "wake_walk s e h h b = Some []"
  by (simp add: wake_walk.simps)

lemma wake_walk_step:
  "it \<noteq> h \<Longrightarrow> KERNEL_VMA_BOUNDARY \<le> it \<Longrightarrow> ln_next (s it) \<noteq> it \<Longrightarrow> wake_walk s e h it b =
     (if wq_exclusive (e it) \<and> b then wake_walk s e h (ln_next (s it)) b
      else map_option (\<lambda>r. call_func e it @ r) (wake_walk s e h (ln_next (s it)) (b \<or> wq_exclusive (e it))))"
  by (subst wake_walk.simps) (auto simp: Let_def map_conv_bind_option comp_def)

lemma wake_walk_seg:
  assumes "seg s p xs h" and "distinct (h # xs)" and "\<forall>x \<in> set xs. KERNEL_VMA_BOUNDARY \<le> x"
  shows "wake_walk s e h (ln_next (s p)) b =
    Some (if b then filter (\<lambda>w. wq_func (e w) \<and> \<not> wq_exclusive (e w)) xs else woken e xs)"
  using assms
proof (induction xs arbitrary: p b)
  case (Cons x xs)
  have x: "ln_next (s p) = x" "seg s x xs h" using Cons.prems by auto
  have "ln_next (s x) \<noteq> x" using seg_first [OF x(2)] Cons.prems(2) by (cases xs) auto
  then have step: "wake_walk s e h (ln_next (s p)) b =
     (if wq_exclusive (e x) \<and> b then wake_walk s e h (ln_next (s x)) b
      else map_option (\<lambda>r. call_func e x @ r) (wake_walk s e h (ln_next (s x)) (b \<or> wq_exclusive (e x))))"
    using wake_walk_step [of x h s e b] Cons.prems x(1) by simp
  have IH: "wake_walk s e h (ln_next (s x)) c =
      Some (if c then filter (\<lambda>w. wq_func (e w) \<and> \<not> wq_exclusive (e w)) xs else woken e xs)" for c
    using Cons.IH [OF x(2), of c] Cons.prems by simp
  have "filter (\<lambda>w. wq_func (e w) \<and> (wq_exclusive (e w) \<longrightarrow> x = w)) xs = filter (\<lambda>w. wq_func (e w) \<and> \<not> wq_exclusive (e w)) xs"
    using Cons.prems(2) by (auto intro!: filter_cong)
  then show ?case by (auto simp: step IH call_func_def woken_def)
qed (simp add: woken_def)

lemma wake_up_woken:
  assumes "ring s h xs" and "\<forall>x \<in> set xs. KERNEL_VMA_BOUNDARY \<le> x"
  shows "wake_up s e (Some h) = Some (woken e xs)"
  using wake_walk_seg [of s h xs h e False] assms by (simp add: wake_up_def ring_def)

lemma ring_remove1:
  assumes "ring s h xs" and "w \<in> set xs"
  shows "ring (list_remove s w) h (remove1 w xs)"
proof -
  obtain ys zs where "xs = ys @ w # zs" "w \<notin> set ys" using assms(2) by (meson split_list_first)
  then show ?thesis using ring_remove [of s h ys w zs] assms(1) by (simp add: remove1_append)
qed

lemma run_callbacks_wakes:
  "run_callbacks e ws ts t = (if ts t = BLOCKED \<and> (\<exists>w \<in> set ws. wq_data (e w) = t) then READY else ts t)"
  by (induction ws arbitrary: ts) (auto simp: run_callbacks_def wake_wq_target_def)

subsection \<open>The contract of a waiter queue\<close>

datatype wq_op = Enter nat | Leave nat

primrec wq_members :: "wq_op list \<Rightarrow> nat list \<Rightarrow> nat list" where
  "wq_members [] xs = xs"
| "wq_members (p # ps) xs = wq_members ps (case p of Enter w \<Rightarrow> xs @ [w] | Leave w \<Rightarrow> remove1 w xs)"

primrec wq_apply :: "('s \<Rightarrow> nat \<Rightarrow> 's) \<Rightarrow> ('s \<Rightarrow> nat \<Rightarrow> 's) \<Rightarrow> wq_op list \<Rightarrow> 's \<Rightarrow> 's" where
  "wq_apply add del [] s = s"
| "wq_apply add del (p # ps) s = wq_apply add del ps (case p of Enter w \<Rightarrow> add s w | Leave w \<Rightarrow> del s w)"

text \<open>A waiter enters only while detached and leaves only while attached.\<close>

primrec wq_proper :: "(nat \<Rightarrow> bool) \<Rightarrow> wq_op list \<Rightarrow> nat list \<Rightarrow> bool" where
  "wq_proper v [] xs \<longleftrightarrow> True"
| "wq_proper v (p # ps) xs \<longleftrightarrow>
     (case p of Enter w \<Rightarrow> v w \<and> w \<notin> set xs \<and> wq_proper v ps (xs @ [w])
      | Leave w \<Rightarrow> w \<in> set xs \<and> wq_proper v ps (remove1 w xs))"

locale waiters =
  fixes mem :: "'s \<Rightarrow> nat list \<Rightarrow> bool"
    and add :: "'s \<Rightarrow> nat \<Rightarrow> 's"
    and del :: "'s \<Rightarrow> nat \<Rightarrow> 's"
    and wake :: "'s \<Rightarrow> nat list option"
    and pick :: "nat list \<Rightarrow> nat list"
    and valid :: "nat \<Rightarrow> bool"
  assumes mem_add: "mem s xs \<Longrightarrow> valid w \<Longrightarrow> w \<notin> set xs \<Longrightarrow> mem (add s w) (xs @ [w])"
    and mem_del: "mem s xs \<Longrightarrow> w \<in> set xs \<Longrightarrow> mem (del s w) (remove1 w xs)"
    and mem_wake: "mem s xs \<Longrightarrow> wake s = Some (pick xs)"
begin

lemma mem_apply: "mem s xs \<Longrightarrow> wq_proper valid ps xs \<Longrightarrow> mem (wq_apply add del ps s) (wq_members ps xs)"
proof (induction ps arbitrary: s xs)
  case (Cons p ps)
  then show ?case by (cases p) (auto intro: mem_add mem_del)
qed simp

lemma wake_apply: "mem s xs \<Longrightarrow> wq_proper valid ps xs \<Longrightarrow> wake (wq_apply add del ps s) = Some (pick (wq_members ps xs))"
  by (rule mem_wake) (rule mem_apply)

end

interpretation wait_list: waiters
  "\<lambda>s xs. ring s h xs \<and> (\<forall>x \<in> set xs. KERNEL_VMA_BOUNDARY \<le> x)" "\<lambda>s w. add_wait_queue s h w" remove_wait_queue
  "\<lambda>s. wake_up s e (Some h)" "woken e" "\<lambda>w. KERNEL_VMA_BOUNDARY \<le> w \<and> w \<noteq> h" for h e
  by unfold_locales
    (auto simp: add_wait_queue_def remove_wait_queue_def wake_up_woken ring_push_back ring_remove1 dest: set_mp [OF set_remove1_subset])

subsection \<open>Properties\<close>



end
