(* ===== verification/Kfifo.thy ===== *)
theory Kfifo
  imports Prelude "HOL-Library.Word"
begin

text \<open>
  The element ring of \<open>kernel/bsd/kfifo.c\<close>: a byte buffer of \<open>cap\<close> slots of \<open>esize\<close> bytes with a
  read index \<open>head\<close> and a write index \<open>tail\<close>. The sequential operations refine a bounded queue of
  \<open>cap - 1\<close> elements; the lock-free use by one producer and one consumer is a step relation over
  the loads, copies and index stores of \<open>kfifo_in\<close> and \<open>kfifo_out\<close>.
\<close>

type_synonym bytes = "8 word list"

record kfifo =
  buf :: "bytes option"
  cap :: u32
  esize :: u32
  khead :: u32
  ktail :: u32

subsection \<open>Operations\<close>

text \<open>\<open>kfifo_alloc\<close> on a non-NULL ring; \<open>fresh\<close> is the uninitialised block \<open>kmalloc\<close> returned, if any.\<close>

definition kfifo_alloc :: "kfifo \<Rightarrow> u32 \<Rightarrow> u32 \<Rightarrow> bytes option \<Rightarrow> bool \<times> kfifo" where
  "kfifo_alloc kf c es fresh =
     (if c = 0 \<or> es = 0 then (False, kf)
      else case fresh of
        None \<Rightarrow> (False, kf\<lparr>buf := None\<rparr>)
      | Some b \<Rightarrow> (True, kf\<lparr>buf := Some b, cap := c, esize := es, khead := 0, ktail := 0\<rparr>))"

definition kfifo_free :: "kfifo \<Rightarrow> kfifo" where
  "kfifo_free kf = (case buf kf of None \<Rightarrow> kf | Some _ \<Rightarrow> kf\<lparr>buf := None\<rparr>)"

definition kfifo_len :: "kfifo \<Rightarrow> u32" where
  "kfifo_len kf = (if khead kf \<le> ktail kf then ktail kf - khead kf else cap kf - khead kf + ktail kf)"

definition kfifo_reset :: "kfifo \<Rightarrow> kfifo" where
  "kfifo_reset kf = kf\<lparr>khead := ktail kf\<rparr>"

definition blit :: "bytes \<Rightarrow> nat \<Rightarrow> bytes \<Rightarrow> bytes" where
  "blit b off src = take off b @ src @ drop (off + length src) b"

definition slot :: "kfifo \<Rightarrow> u32 \<Rightarrow> bytes" where
  "slot kf k = take (esize kf) (drop (k * esize kf) (the (buf kf)))"

definition succ32 :: "kfifo \<Rightarrow> u32 \<Rightarrow> u32" where
  "succ32 kf i = ((i + 1) mod 2 ^ 32) mod cap kf"

definition kfifo_in :: "kfifo \<Rightarrow> bytes \<Rightarrow> bool \<times> kfifo" where
  "kfifo_in kf elem =
     (case buf kf of
        None \<Rightarrow> (False, kf)
      | Some b \<Rightarrow>
          let h = khead kf;
              t = ktail kf;
              nx = succ32 kf t
          in if nx = h then (False, kf)
          else (True, kf\<lparr>buf := Some (blit b (t * esize kf) elem), ktail := nx\<rparr>))"

definition kfifo_out :: "kfifo \<Rightarrow> bytes option \<times> kfifo" where
  "kfifo_out kf =
     (case buf kf of
        None \<Rightarrow> (None, kf)
      | Some b \<Rightarrow>
          let h = khead kf;
              t = ktail kf
          in if h = t then (None, kf)
          else (Some (slot kf h), kf\<lparr>khead := succ32 kf h\<rparr>))"

text \<open>The batch loops; the elements are given and returned one by one.\<close>

fun in_loop :: "kfifo \<Rightarrow> bytes list \<Rightarrow> nat \<times> kfifo" where
  "in_loop kf [] = (0, kf)"
| "in_loop kf (x # xs) =
     (case kfifo_in kf x of
        (False, kf) \<Rightarrow> (0, kf)
      | (True, kf) \<Rightarrow> let (n, kf) = in_loop kf xs in (Suc n, kf))"

definition kfifo_in_batch :: "kfifo \<Rightarrow> bytes list \<Rightarrow> nat \<times> kfifo" where
  "kfifo_in_batch kf elems = (if buf kf = None \<or> elems = [] then (0, kf) else in_loop kf elems)"

fun out_loop :: "kfifo \<Rightarrow> nat \<Rightarrow> bytes list \<times> kfifo" where
  "out_loop kf 0 = ([], kf)"
| "out_loop kf (Suc n) =
     (case kfifo_out kf of
        (None, kf) \<Rightarrow> ([], kf)
      | (Some x, kf) \<Rightarrow> let (xs, kf) = out_loop kf n in (x # xs, kf))"

definition kfifo_out_batch :: "kfifo \<Rightarrow> nat \<Rightarrow> bytes list \<times> kfifo" where
  "kfifo_out_batch kf count = (if buf kf = None \<or> count = 0 then ([], kf) else out_loop kf count)"

subsection \<open>The bounded queue it represents\<close>

definition kf_ok :: "kfifo \<Rightarrow> bool" where
  "kf_ok kf \<longleftrightarrow> (\<exists>b. buf kf = Some b \<and> length b = cap kf * esize kf) \<and> 0 < cap kf \<and> 0 < esize kf \<and>
     khead kf < cap kf \<and> ktail kf < cap kf \<and> cap kf < 2 ^ 32"

definition kf_list :: "kfifo \<Rightarrow> bytes list" where
  "kf_list kf = map (\<lambda>i. slot kf ((khead kf + i) mod cap kf)) [0..<kfifo_len kf]"

lemma succ32_ok: "kf_ok kf \<Longrightarrow> i < cap kf \<Longrightarrow> succ32 kf i = (if i + 1 = cap kf then 0 else i + 1)"
  by (auto simp: kf_ok_def succ32_def)

lemma kfifo_len_lt: "kf_ok kf \<Longrightarrow> kfifo_len kf < cap kf"
  by (auto simp: kf_ok_def kfifo_len_def)

lemma length_kf_list [simp]: "length (kf_list kf) = kfifo_len kf"
  by (simp add: kf_list_def)

lemma length_blit [simp]: "off + length src \<le> length b \<Longrightarrow> length (blit b off src) = length b"
  by (simp add: blit_def)

lemma mod_wrap: "x < c + c \<Longrightarrow> x mod c = (if x < c then x else x - (c::nat))"
  by (simp add: le_mod_geq)

lemma kf_tail: "kf_ok kf \<Longrightarrow> ktail kf = (khead kf + kfifo_len kf) mod cap kf"
  by (auto simp: kf_ok_def kfifo_len_def mod_wrap)

text \<open>A slot other than the one written keeps its bytes.\<close>

lemma slot_end: "k < c \<Longrightarrow> k * e + e \<le> c * (e::nat)"
  by (metis Suc_leI add.commute mult_Suc mult_le_mono1)

lemma slot_blit:
  assumes "buf kf = Some b" and "length b = cap kf * esize kf" and "t < cap kf" and "k < cap kf" and "length x = esize kf"
  shows "slot (kf\<lparr>buf := Some (blit b (t * esize kf) x), ktail := q\<rparr>) k = (if k = t then x else slot kf k)"
proof -
  let ?e = "esize kf"
  have t: "t * ?e + ?e \<le> length b" using slot_end [OF assms(3)] assms(2) by simp
  consider "k = t" | "k < t" | "t < k" by linarith
  then show ?thesis
  proof cases
    case 2
    then obtain d where d: "t * ?e = k * ?e + ?e + d" using slot_end [OF 2, of ?e] le_Suc_ex by blast
    then have "?e \<le> length b - k * ?e" using t by simp
    then show ?thesis using 2 assms(1) d by (simp add: slot_def blit_def drop_take)
  next
    case 3
    then obtain d where d: "k * ?e = t * ?e + ?e + d" using slot_end [OF 3, of ?e] le_Suc_ex by blast
    then show ?thesis using 3 assms t by (simp add: slot_def blit_def min_def add.commute)
  qed (use assms t in \<open>simp add: slot_def blit_def\<close>)
qed

lemma kf_index_neq:
  assumes "kf_ok kf" and "i < kfifo_len kf"
  shows "(khead kf + i) mod cap kf \<noteq> ktail kf"
proof -
  have "khead kf + i < cap kf + cap kf" using assms by (auto simp: kf_ok_def kfifo_len_def split: if_splits)
  then show ?thesis using assms by (auto simp: mod_wrap kf_ok_def kfifo_len_def split: if_splits)
qed

lemma slot_reindex [simp]: "slot (kf\<lparr>khead := a\<rparr>) k = slot kf k" "slot (kf\<lparr>ktail := a\<rparr>) k = slot kf k"
  by (simp_all add: slot_def)

lemma kfifo_full: "kf_ok kf \<Longrightarrow> succ32 kf (ktail kf) = khead kf \<longleftrightarrow> kfifo_len kf = cap kf - 1"
  by (auto simp: succ32_ok kf_ok_def kfifo_len_def)

lemma kfifo_empty: "kf_ok kf \<Longrightarrow> khead kf = ktail kf \<longleftrightarrow> kfifo_len kf = 0"
  by (auto simp: kf_ok_def kfifo_len_def)

text \<open>Writing the free slot changes no queued element; publishing the tail appends it.\<close>

lemma kf_list_write:
  assumes "kf_ok kf" and "buf kf = Some b" and "length x = esize kf"
  shows "kf_list (kf\<lparr>buf := Some (blit b (ktail kf * esize kf) x)\<rparr>) = kf_list kf"
proof -
  have "slot (kf\<lparr>buf := Some (blit b (ktail kf * esize kf) x)\<rparr>) k = slot kf k" if "k < cap kf" "k \<noteq> ktail kf" for k
    using slot_blit [of kf b "ktail kf" k x "ktail kf"] assms that by (auto simp: kf_ok_def)
  then show ?thesis using kf_index_neq [OF assms(1)] assms(1) by (auto simp: kf_list_def kfifo_len_def kf_ok_def)
qed

lemma kf_publish:
  assumes "kf_ok kf" and "succ32 kf (ktail kf) \<noteq> khead kf"
  shows "kf_ok (kf\<lparr>ktail := succ32 kf (ktail kf)\<rparr>)"
    and "kf_list (kf\<lparr>ktail := succ32 kf (ktail kf)\<rparr>) = kf_list kf @ [slot kf (ktail kf)]"
proof -
  let ?k = "kf\<lparr>ktail := succ32 kf (ktail kf)\<rparr>"
  show "kf_ok ?k" using assms(1) succ32_ok [OF assms(1)] by (auto simp: kf_ok_def)
  have "kfifo_len ?k = Suc (kfifo_len kf)"
    using assms succ32_ok [OF assms(1)] by (auto simp: kf_ok_def kfifo_len_def)
  then show "kf_list ?k = kf_list kf @ [slot kf (ktail kf)]"
    using kf_tail [OF assms(1)] by (simp add: kf_list_def)
qed

lemma kf_consume:
  assumes "kf_ok kf" and "khead kf \<noteq> ktail kf"
  shows "kf_ok (kf\<lparr>khead := succ32 kf (khead kf)\<rparr>)"
    and "kf_list kf = slot kf (khead kf) # kf_list (kf\<lparr>khead := succ32 kf (khead kf)\<rparr>)"
proof -
  let ?k = "kf\<lparr>khead := succ32 kf (khead kf)\<rparr>"
  show "kf_ok ?k" using assms(1) succ32_ok [OF assms(1)] by (auto simp: kf_ok_def)
  have n: "kfifo_len kf = Suc (kfifo_len ?k)"
    using assms succ32_ok [OF assms(1)] by (auto simp: kf_ok_def kfifo_len_def)
  have "succ32 kf (khead kf) = (khead kf + 1) mod cap kf" using assms(1) succ32_ok [OF assms(1)] by (auto simp: kf_ok_def)
  then have "(succ32 kf (khead kf) + i) mod cap kf = (khead kf + Suc i) mod cap kf" for i
    by (simp add: mod_simps)
  then show "kf_list kf = slot kf (khead kf) # kf_list ?k"
    using assms(1) by (simp add: kf_list_def n map_upt_Suc kf_ok_def del: upt_Suc)
qed

lemma kfifo_in_spec:
  assumes "kf_ok kf" and "length x = esize kf"
  shows "kfifo_in kf x = (r, kf') \<Longrightarrow> kf_ok kf' \<and> cap kf' = cap kf \<and> esize kf' = esize kf \<and>
    (if kfifo_len kf < cap kf - 1 then r \<and> kf_list kf' = kf_list kf @ [x] else \<not> r \<and> kf' = kf)"
proof -
  assume K: "kfifo_in kf x = (r, kf')"
  obtain b where b: "buf kf = Some b" "length b = cap kf * esize kf" using assms(1) by (auto simp: kf_ok_def)
  have le: "kfifo_len kf \<le> cap kf - 1" using kfifo_len_lt [OF assms(1)] by simp
  show ?thesis
  proof (cases "succ32 kf (ktail kf) = khead kf")
    case True
    then show ?thesis using K b assms(1) kfifo_full [OF assms(1)] by (auto simp: kfifo_in_def)
  next
    case False
    let ?w = "kf\<lparr>buf := Some (blit b (ktail kf * esize kf) x)\<rparr>"
    have t: "ktail kf < cap kf" using assms(1) by (simp add: kf_ok_def)
    have w: "kf_ok ?w" using assms b slot_end [OF t] by (auto simp: kf_ok_def)
    have succ: "succ32 ?w (ktail ?w) = succ32 kf (ktail kf)" by (simp add: succ32_def)
    have "slot ?w (ktail kf) = x" using slot_blit [OF b t t assms(2), of "ktail kf"] by simp
    then show ?thesis
      using K b False le kfifo_full [OF assms(1)] kf_publish [OF w] kf_list_write [OF assms(1) b(1) assms(2)] succ
      by (auto simp: kfifo_in_def Let_def)
  qed
qed

lemma kfifo_out_spec:
  assumes "kf_ok kf"
  shows "kfifo_out kf = (r, kf') \<Longrightarrow> kf_ok kf' \<and> cap kf' = cap kf \<and> esize kf' = esize kf \<and>
    (case kf_list kf of [] \<Rightarrow> r = None \<and> kf' = kf | x # xs \<Rightarrow> r = Some x \<and> kf_list kf' = xs)"
proof -
  assume K: "kfifo_out kf = (r, kf')"
  obtain b where b: "buf kf = Some b" using assms(1) by (auto simp: kf_ok_def)
  show ?thesis
  proof (cases "khead kf = ktail kf")
    case True
    then have "kf_list kf = []" using kfifo_empty [OF assms] by (simp add: kf_list_def)
    then show ?thesis using K b True assms by (auto simp: kfifo_out_def)
  next
    case False
    then show ?thesis using K b kf_consume [OF assms False] by (auto simp: kfifo_out_def Let_def)
  qed
qed

lemma in_loop_spec:
  assumes "kf_ok kf" and "\<forall>x \<in> set xs. length x = esize kf" and "in_loop kf xs = (n, kf')"
  shows "kf_ok kf' \<and> cap kf' = cap kf \<and> esize kf' = esize kf \<and>
    n = min (length xs) (cap kf - 1 - kfifo_len kf) \<and> kf_list kf' = kf_list kf @ take n xs"
  using assms
proof (induction xs arbitrary: kf n)
  case (Cons x xs)
  obtain r k where K: "kfifo_in kf x = (r, k)" by (cases "kfifo_in kf x")
  note S = kfifo_in_spec [OF Cons.prems(1) _ K]
  show ?case
  proof (cases r)
    case True
    obtain m where m: "in_loop k xs = (m, kf')" "n = Suc m" using Cons.prems(3) K True by (auto split: prod.splits)
    have k: "kf_ok k" "cap k = cap kf" "esize k = esize kf" "kfifo_len kf < cap kf - 1" "kf_list k = kf_list kf @ [x]"
      using S True Cons.prems(2) by (auto split: if_splits)
    have "kfifo_len k = Suc (kfifo_len kf)" using k(5) length_kf_list by (metis length_append_singleton)
    then show ?thesis using Cons.IH [OF k(1) _ m(1)] Cons.prems(2) k m(2) by (auto simp: min_def)
  next
    case False
    then show ?thesis using S Cons.prems K by (auto split: if_splits)
  qed
qed simp

lemma out_loop_spec:
  assumes "kf_ok kf" and "out_loop kf n = (xs, kf')"
  shows "kf_ok kf' \<and> cap kf' = cap kf \<and> esize kf' = esize kf \<and> xs = take n (kf_list kf) \<and> kf_list kf' = drop n (kf_list kf)"
  using assms
proof (induction n arbitrary: kf xs)
  case (Suc n)
  obtain r k where K: "kfifo_out kf = (r, k)" by (cases "kfifo_out kf")
  note S = kfifo_out_spec [OF Suc.prems(1) K]
  show ?case
  proof (cases "kf_list kf")
    case Nil
    then show ?thesis using S Suc.prems K by simp
  next
    case (Cons y ys)
    then obtain zs where "out_loop k n = (zs, kf')" "xs = y # zs" using S Suc.prems(2) K by (auto split: prod.splits)
    then show ?thesis using Suc.IH [of k zs] S Cons by auto
  qed
qed simp

subsection \<open>Refinement of a bounded queue\<close>

datatype q_op = Put bytes | Put_Batch "bytes list" | Get | Get_Batch nat | Drop_All

datatype q_res = Accepted nat | Taken "bytes list"

fun kf_step :: "q_op \<Rightarrow> kfifo \<Rightarrow> q_res \<times> kfifo" where
  "kf_step (Put x) kf = (let (r, kf) = kfifo_in kf x in (Accepted (if r then 1 else 0), kf))"
| "kf_step (Put_Batch xs) kf = (let (n, kf) = kfifo_in_batch kf xs in (Accepted n, kf))"
| "kf_step Get kf = (let (r, kf) = kfifo_out kf in (Taken (case r of None \<Rightarrow> [] | Some x \<Rightarrow> [x]), kf))"
| "kf_step (Get_Batch n) kf = (let (xs, kf) = kfifo_out_batch kf n in (Taken xs, kf))"
| "kf_step Drop_All kf = (Accepted 0, kfifo_reset kf)"

text \<open>The specification: a list of at most \<open>n\<close> elements.\<close>

fun bq_step :: "nat \<Rightarrow> q_op \<Rightarrow> bytes list \<Rightarrow> q_res \<times> bytes list" where
  "bq_step n (Put x) q = (if length q < n then (Accepted 1, q @ [x]) else (Accepted 0, q))"
| "bq_step n (Put_Batch xs) q = (let k = min (length xs) (n - length q) in (Accepted k, q @ take k xs))"
| "bq_step n Get q = (Taken (take 1 q), drop 1 q)"
| "bq_step n (Get_Batch m) q = (Taken (take m q), drop m q)"
| "bq_step n Drop_All q = (Accepted 0, [])"

fun q_sized :: "nat \<Rightarrow> q_op \<Rightarrow> bool" where
  "q_sized e (Put x) \<longleftrightarrow> length x = e"
| "q_sized e (Put_Batch xs) \<longleftrightarrow> (\<forall>x \<in> set xs. length x = e)"
| "q_sized e _ \<longleftrightarrow> True"

lemma kf_step_refines:
  assumes ok: "kf_ok kf" and sz: "q_sized (esize kf) p" and K: "kf_step p kf = (r, kf')"
  shows "kf_ok kf' \<and> cap kf' = cap kf \<and> esize kf' = esize kf \<and> bq_step (cap kf - 1) p (kf_list kf) = (r, kf_list kf')"
proof (cases p)
  case (Put x)
  obtain b k where B: "kfifo_in kf x = (b, k)" by (cases "kfifo_in kf x")
  then show ?thesis using kfifo_in_spec [OF ok _ B] K Put sz by (auto split: if_splits)
next
  case (Put_Batch xs)
  obtain n k where B: "kfifo_in_batch kf xs = (n, k)" by (cases "kfifo_in_batch kf xs")
  have "in_loop kf xs = (n, k)" using B ok by (auto simp: kfifo_in_batch_def kf_ok_def split: if_splits)
  then show ?thesis using in_loop_spec [OF ok, of xs n k] K Put_Batch B sz by (auto simp: Let_def)
next
  case Get
  obtain b k where B: "kfifo_out kf = (b, k)" by (cases "kfifo_out kf")
  then show ?thesis using kfifo_out_spec [OF ok B] K Get ok by (cases "kf_list kf") auto
next
  case (Get_Batch n)
  obtain xs k where B: "kfifo_out_batch kf n = (xs, k)" by (cases "kfifo_out_batch kf n")
  have "out_loop kf n = (xs, k)" using B ok by (auto simp: kfifo_out_batch_def kf_ok_def split: if_splits)
  then show ?thesis using out_loop_spec [OF ok, of n xs k] K Get_Batch B by auto
next
  case Drop_All
  then show ?thesis using K ok by (auto simp: kfifo_reset_def kf_ok_def kf_list_def kfifo_len_def)
qed

interpretation kf_queue: refinement
  "\<lambda>kf. kf_ok kf \<and> cap kf = c \<and> esize kf = es" kf_list "\<lambda>_. q_sized es" kf_step "bq_step (c - 1)" for c es
proof unfold_locales
  fix s :: kfifo and p r s'
  assume "kf_ok s \<and> cap s = c \<and> esize s = es" and "q_sized es p" and "kf_step p s = (r, s')"
  then show "(kf_ok s' \<and> cap s' = c \<and> esize s' = es) \<and> bq_step (c - 1) p (kf_list s) = (r, kf_list s')"
    using kf_step_refines [of s p r s'] by auto
qed

subsection \<open>One producer and one consumer\<close>

text \<open>
  The shared accesses of a concurrent \<open>kfifo_in\<close> and \<open>kfifo_out\<close>, each an atomic step: the load of
  the other side's index, the copy of the element, the store of the own index. \<open>sent\<close> collects the
  elements whose \<open>kfifo_in\<close> returned true and \<open>got\<close> those \<open>kfifo_out\<close> returned.
\<close>

datatype ppc = P_Idle | P_Loaded bytes u32 | P_Copied bytes

datatype cpc = C_Idle | C_Loaded u32 | C_Copied bytes

record spsc =
  rng :: kfifo
  prod_pc :: ppc
  cons_pc :: cpc
  sent :: "bytes list"
  got :: "bytes list"

inductive spsc_step :: "spsc \<Rightarrow> spsc \<Rightarrow> bool" where
  in_load: "prod_pc c = P_Idle \<Longrightarrow> length x = esize (rng c) \<Longrightarrow>
    spsc_step c (c\<lparr>prod_pc := P_Loaded x (khead (rng c))\<rparr>)"
| in_full: "prod_pc c = P_Loaded x h \<Longrightarrow> succ32 (rng c) (ktail (rng c)) = h \<Longrightarrow>
    spsc_step c (c\<lparr>prod_pc := P_Idle\<rparr>)"
| in_copy: "prod_pc c = P_Loaded x h \<Longrightarrow> succ32 (rng c) (ktail (rng c)) \<noteq> h \<Longrightarrow> buf (rng c) = Some b \<Longrightarrow>
    spsc_step c (c\<lparr>prod_pc := P_Copied x, rng := (rng c)\<lparr>buf := Some (blit b (ktail (rng c) * esize (rng c)) x)\<rparr>\<rparr>)"
| in_store: "prod_pc c = P_Copied x \<Longrightarrow>
    spsc_step c (c\<lparr>prod_pc := P_Idle, sent := sent c @ [x],
      rng := (rng c)\<lparr>ktail := succ32 (rng c) (ktail (rng c))\<rparr>\<rparr>)"
| out_load: "cons_pc c = C_Idle \<Longrightarrow> spsc_step c (c\<lparr>cons_pc := C_Loaded (ktail (rng c))\<rparr>)"
| out_empty: "cons_pc c = C_Loaded t \<Longrightarrow> khead (rng c) = t \<Longrightarrow> spsc_step c (c\<lparr>cons_pc := C_Idle\<rparr>)"
| out_copy: "cons_pc c = C_Loaded t \<Longrightarrow> khead (rng c) \<noteq> t \<Longrightarrow>
    spsc_step c (c\<lparr>cons_pc := C_Copied (slot (rng c) (khead (rng c)))\<rparr>)"
| out_store: "cons_pc c = C_Copied x \<Longrightarrow>
    spsc_step c (c\<lparr>cons_pc := C_Idle, got := got c @ [x],
      rng := (rng c)\<lparr>khead := succ32 (rng c) (khead (rng c))\<rparr>\<rparr>)"

definition spsc_start :: "kfifo \<Rightarrow> spsc" where
  "spsc_start kf = \<lparr>rng = kf, prod_pc = P_Idle, cons_pc = C_Idle, sent = [], got = []\<rparr>"

text \<open>What the producer and the consumer know between their steps.\<close>

fun prod_inv :: "kfifo \<Rightarrow> ppc \<Rightarrow> bool" where
  "prod_inv kf P_Idle \<longleftrightarrow> True"
| "prod_inv kf (P_Loaded x h) \<longleftrightarrow> length x = esize kf \<and>
     (succ32 kf (ktail kf) \<noteq> h \<longrightarrow> succ32 kf (ktail kf) \<noteq> khead kf)"
| "prod_inv kf (P_Copied x) \<longleftrightarrow> slot kf (ktail kf) = x \<and> succ32 kf (ktail kf) \<noteq> khead kf"

fun cons_inv :: "kfifo \<Rightarrow> cpc \<Rightarrow> bool" where
  "cons_inv kf C_Idle \<longleftrightarrow> True"
| "cons_inv kf (C_Loaded t) \<longleftrightarrow> (khead kf \<noteq> t \<longrightarrow> khead kf \<noteq> ktail kf)"
| "cons_inv kf (C_Copied x) \<longleftrightarrow> khead kf \<noteq> ktail kf \<and> x = slot kf (khead kf)"

definition spsc_inv :: "spsc \<Rightarrow> bool" where
  "spsc_inv c \<longleftrightarrow> kf_ok (rng c) \<and> sent c = got c @ kf_list (rng c) \<and> prod_inv (rng c) (prod_pc c) \<and> cons_inv (rng c) (cons_pc c)"

lemma succ32_inj: "kf_ok kf \<Longrightarrow> i < cap kf \<Longrightarrow> j < cap kf \<Longrightarrow> succ32 kf i = succ32 kf j \<longleftrightarrow> i = j"
  by (auto simp: succ32_ok)

lemma succ32_upd [simp]:
  "succ32 (kf\<lparr>khead := a\<rparr>) i = succ32 kf i" "succ32 (kf\<lparr>ktail := a\<rparr>) i = succ32 kf i" "succ32 (kf\<lparr>buf := b\<rparr>) i = succ32 kf i"
  by (simp_all add: succ32_def)

lemma kf_write:
  assumes ok: "kf_ok kf" and b: "buf kf = Some b" and x: "length x = esize kf"
  shows "kf_ok (kf\<lparr>buf := Some (blit b (ktail kf * esize kf) x)\<rparr>)"
    and "k < cap kf \<Longrightarrow> slot (kf\<lparr>buf := Some (blit b (ktail kf * esize kf) x)\<rparr>) k = (if k = ktail kf then x else slot kf k)"
proof -
  have t: "ktail kf < cap kf" "length b = cap kf * esize kf" using ok b by (auto simp: kf_ok_def)
  show "kf_ok (kf\<lparr>buf := Some (blit b (ktail kf * esize kf) x)\<rparr>)" using ok b t x slot_end [OF t(1)] by (auto simp: kf_ok_def)
  show "k < cap kf \<Longrightarrow> slot (kf\<lparr>buf := Some (blit b (ktail kf * esize kf) x)\<rparr>) k = (if k = ktail kf then x else slot kf k)"
    using slot_blit [OF b t(2) t(1) _ x, of k "ktail kf"] by simp
qed

lemma cons_inv_store:
  "cons_inv kf pc \<Longrightarrow> succ32 kf (ktail kf) \<noteq> khead kf \<Longrightarrow> cons_inv (kf\<lparr>ktail := succ32 kf (ktail kf)\<rparr>) pc"
  by (cases pc) auto

lemma prod_inv_store:
  "prod_inv kf pc \<Longrightarrow> kf_ok kf \<Longrightarrow> khead kf \<noteq> ktail kf \<Longrightarrow> prod_inv (kf\<lparr>khead := succ32 kf (khead kf)\<rparr>) pc"
  by (cases pc) (auto simp: succ32_inj kf_ok_def)

lemma cons_inv_write:
  assumes "cons_inv kf pc" and "kf_ok kf" and "buf kf = Some b" and "length x = esize kf"
  shows "cons_inv (kf\<lparr>buf := Some (blit b (ktail kf * esize kf) x)\<rparr>) pc"
  using assms kf_write(2) [OF assms(2-4), of "khead kf"] by (cases pc) (auto simp: kf_ok_def)

lemma spsc_inv_step: "spsc_step c c' \<Longrightarrow> spsc_inv c \<Longrightarrow> spsc_inv c'"
proof (induction rule: spsc_step.induct)
  case (in_copy c x h b)
  then have "kf_ok (rng c)" "length x = esize (rng c)" "ktail (rng c) < cap (rng c)"
    by (auto simp: spsc_inv_def kf_ok_def)
  with in_copy show ?case
    using kf_write [of "rng c" b x] kf_list_write [of "rng c" b x] cons_inv_write [of "rng c" "cons_pc c" b x]
    by (auto simp: spsc_inv_def)
next
  case (in_store c x)
  then show ?case using kf_publish [of "rng c"] cons_inv_store [of "rng c" "cons_pc c"] by (auto simp: spsc_inv_def)
next
  case (out_store c x)
  then show ?case using kf_consume [of "rng c"] prod_inv_store [of "rng c" "prod_pc c"] by (auto simp: spsc_inv_def)
qed (auto simp: spsc_inv_def)

subsection \<open>Properties\<close>

text \<open>
  C25. The ring refines a bounded queue: over every sequence of single and batch insertions and
  removals and resets, the counts and elements returned are those of a list of at most
  \<open>cap - 1\<close> elements.
\<close>

theorem kfifo_refines_queue:
  assumes "kfifo_alloc kf c es (Some b) = (True, kf0)" and "length b = c * es" and "c < 2 ^ 32"
    and "\<forall>p \<in> set ps. q_sized es p"
  shows "\<exists>kf'. run_ops kf_step ps kf0 = (fst (run_ops (bq_step (c - 1)) ps []), kf') \<and>
    kf_list kf' = snd (run_ops (bq_step (c - 1)) ps [])"
proof -
  have 0: "kf_ok kf0 \<and> cap kf0 = c \<and> esize kf0 = es" "kf_list kf0 = []"
    using assms(1-3) by (auto simp: kfifo_alloc_def kf_ok_def kf_list_def kfifo_len_def split: if_splits)
  obtain rs kf' where "run_ops kf_step ps kf0 = (rs, kf')" by (cases "run_ops kf_step ps kf0")
  then show ?thesis using kf_queue.refine_run [OF 0(1) assms(4)] 0(2) by fastforce
qed

theorem kfifo_refines_queue_witness:
  "\<exists>kf'. run_ops kf_step [Put_Batch [[1], [2], [3]], Get, Put [4], Get_Batch 5]
       (snd (kfifo_alloc \<lparr>buf = None, cap = 0, esize = 0, khead = 0, ktail = 0\<rparr> 3 1 (Some [0, 0, 0]))) =
     ([Accepted 2, Taken [[1]], Accepted 1, Taken [[2], [4]]], kf')"
  using kfifo_refines_queue [of "\<lparr>buf = None, cap = 0, esize = 0, khead = 0, ktail = 0\<rparr>" 3 1 "[0, 0, 0]"
      "snd (kfifo_alloc \<lparr>buf = None, cap = 0, esize = 0, khead = 0, ktail = 0\<rparr> 3 1 (Some [0, 0, 0]))"
      "[Put_Batch [[1], [2], [3]], Get, Put [4], Get_Batch 5]"]
  by (auto simp: kfifo_alloc_def)

text \<open>
  C26. Lock-free use: under every interleaving of the shared accesses of one producer and one
  consumer, the elements received so far followed by the elements in the ring are exactly the
  elements sent, in order, and the ring never holds \<open>cap\<close> elements.
\<close>

theorem kfifo_spsc_order:
  assumes "spsc_step\<^sup>*\<^sup>* (spsc_start kf) c" and "kf_ok kf" and "khead kf = ktail kf"
  shows "sent c = got c @ kf_list (rng c) \<and> length (kf_list (rng c)) < cap (rng c)"
proof -
  have "spsc_inv (spsc_start kf)"
    using assms(2,3) by (simp add: spsc_inv_def spsc_start_def kf_list_def kfifo_len_def)
  with assms(1) have "spsc_inv c" by (induction rule: rtranclp_induct) (auto intro: spsc_inv_step)
  then show ?thesis using kfifo_len_lt by (simp add: spsc_inv_def)
qed

definition demo_ring :: kfifo where
  "demo_ring = \<lparr>buf = Some [0, 0], cap = 2, esize = 1, khead = 0, ktail = 0\<rparr>"

text \<open>A run in which the consumer looks before and after the producer publishes.\<close>

theorem kfifo_spsc_order_witness:
  "\<exists>c. spsc_step\<^sup>*\<^sup>* (spsc_start demo_ring) c \<and> sent c = [[7]] \<and> sent c = got c @ kf_list (rng c)"
proof -
  let ?a = "spsc_start demo_ring"
  let ?b = "?a\<lparr>prod_pc := P_Loaded [7] (khead (rng ?a))\<rparr>"
  let ?c = "?b\<lparr>prod_pc := P_Copied [7], rng := (rng ?b)\<lparr>buf := Some (blit [0, 0] (ktail (rng ?b) * esize (rng ?b)) [7])\<rparr>\<rparr>"
  let ?d = "?c\<lparr>prod_pc := P_Idle, sent := sent ?c @ [[7]], rng := (rng ?c)\<lparr>ktail := succ32 (rng ?c) (ktail (rng ?c))\<rparr>\<rparr>"
  have "spsc_step ?a ?b" by (rule in_load) (simp_all add: spsc_start_def demo_ring_def)
  moreover have "spsc_step ?b ?c" by (rule in_copy [where h = 0]) (simp_all add: spsc_start_def demo_ring_def succ32_def)
  moreover have "spsc_step ?c ?d" by (rule in_store) simp
  ultimately have r: "spsc_step\<^sup>*\<^sup>* ?a ?d" by (meson converse_rtranclp_into_rtranclp rtranclp.rtrancl_refl)
  have "sent ?d = [[7]]" by (simp add: spsc_start_def)
  then show ?thesis using r kfifo_spsc_order [OF r] by (auto simp: demo_ring_def kf_ok_def)
qed

end
