(* ===== verification/Event_Files.thy ===== *)
theory Event_Files
  imports Prelude "HOL-Library.Word"
begin

unbundle bit_operations_syntax

text \<open>
  Descriptor tables (\<open>kernel/bsd/types.h\<close>, \<open>proc.c\<close>) and the event files built on them: eventfd
  (\<open>eventfd.c\<close>), timerfd (\<open>timerfd.c\<close>) and signalfd (\<open>signalfd.c\<close>), with the readiness probe
  \<open>file_poll\<close> of these types.

  The state of the calling process and of the objects it reaches is one record: objects live in
  stores indexed by address, \<open>k_live\<close> lists the heap blocks in use, and \<open>k_wakes\<close> records every
  \<open>__wake_up\<close>. A read or write that blocks is a retry loop: each \<open>schedule()\<close> lets the rest of the
  system change the state by the next function of a list, and an exhausted list is "still
  asleep" (\<open>None\<close>). Registration on and removal from the wait queue cancel out over a whole call;
  their interleaving with the other side is the subject of the theory on lost wake-ups.
\<close>

subsection \<open>State\<close>

datatype fd_type = FD_NONE | FD_EVENTFD | FD_TIMERFD | FD_SIGNALFD | FD_OTHER

record kfile =
  f_count :: int
  fd_refs :: int
  f_type :: fd_type
  f_flags :: "32 word"
  f_wq :: "nat option"
  f_ctx :: "nat option" \<comment> \<open>the union arm of the type\<close>

record files =
  fd_table :: "nat option list"
  close_on_exec :: "64 word list"

record eventfd_ctx =
  count :: u64
  efd_flags :: "32 word"

record timerfd_ctx =
  expiry :: u64
  interval :: u64
  ticks :: u64
  t_file :: nat

record signalfd_ctx =
  sigmask :: "64 word"

record kst =
  k_files :: files
  k_file :: "nat \<Rightarrow> kfile"
  k_efd :: "nat \<Rightarrow> eventfd_ctx"
  k_tfd :: "nat \<Rightarrow> timerfd_ctx"
  k_sfd :: "nat \<Rightarrow> signalfd_ctx"
  timerfd_list :: "nat list"
  k_live :: "nat list"
  k_brk :: nat
  k_mem :: kmem
  k_wakes :: "(nat \<times> 32 word) list"
  sig_pending :: "64 word"
  shared_pending :: "64 word option" \<comment> \<open>\<open>None\<close> when the process has no signal structure\<close>
  sig_blocked :: "64 word"
  tif_sigpending :: bool

definition MAX_FD :: nat where "MAX_FD = 1024"
definition EFD_SEMAPHORE :: "64 word" where "EFD_SEMAPHORE = 0x1"
definition EFD_NONBLOCK :: "64 word" where "EFD_NONBLOCK = 0x800"
definition EFD_CLOEXEC :: "64 word" where "EFD_CLOEXEC = 0x80000"
definition EVENTFD_MAX :: u64 where "EVENTFD_MAX = 0xFFFFFFFFFFFFFFFE"
definition O_NONBLOCK :: "32 word" where "O_NONBLOCK = 0x800"
definition POLLIN :: "32 word" where "POLLIN = 0x1"
definition POLLOUT :: "32 word" where "POLLOUT = 0x4"
definition TFD_TIMER_ABSTIME :: "64 word" where "TFD_TIMER_ABSTIME = 0x1"
definition CLOCK_MONOTONIC :: int where "CLOCK_MONOTONIC = 1"

definition has_bits :: "'a::len word \<Rightarrow> 'a word \<Rightarrow> bool" where
  "has_bits w m \<longleftrightarrow> w AND m \<noteq> 0"

subsection \<open>Heap and descriptor table\<close>

definition kmalloc :: "kst \<Rightarrow> nat option \<times> kst" where
  "kmalloc st =
     (let (ok, m) = kmalloc_ok (k_mem st) in
      if ok then (Some (k_brk st), st\<lparr>k_mem := m, k_brk := Suc (k_brk st), k_live := k_brk st # k_live st\<rparr>)
      else (None, st\<lparr>k_mem := m\<rparr>))"

definition kfree :: "nat \<Rightarrow> kst \<Rightarrow> kst" where
  "kfree p st = st\<lparr>k_live := remove1 p (k_live st)\<rparr>"

text \<open>\<open>fd_lookup\<close> indexes the table without a bounds check; \<open>None\<close> is an access outside it.\<close>

definition fd_lookup :: "files \<Rightarrow> int \<Rightarrow> nat option option" where
  "fd_lookup fl fd = (if 0 \<le> fd \<and> fd < int (length (fd_table fl)) then Some (fd_table fl ! nat fd) else None)"

primrec first_free :: "nat option list \<Rightarrow> nat \<Rightarrow> nat option" where
  "first_free [] i = None"
| "first_free (x # xs) i = (if x = None then Some i else first_free xs (Suc i))"

definition alloc_fd :: "files \<Rightarrow> nat \<Rightarrow> nat result" where
  "alloc_fd fl min_fd =
     (case first_free (drop min_fd (fd_table fl)) min_fd of None \<Rightarrow> Inl EMFILE | Some i \<Rightarrow> Inr i)"

definition upd_file :: "nat \<Rightarrow> (kfile \<Rightarrow> kfile) \<Rightarrow> kst \<Rightarrow> kst" where
  "upd_file f g st = st\<lparr>k_file := (k_file st)(f := g (k_file st f))\<rparr>"

definition fd_install :: "nat \<Rightarrow> nat \<Rightarrow> kst \<Rightarrow> kst" where
  "fd_install fd f st =
     (upd_file f (\<lambda>fl. fl\<lparr>fd_refs := fd_refs fl + 1\<rparr>) st)\<lparr>k_files := (k_files st)\<lparr>fd_table := (fd_table (k_files st))[fd := Some f]\<rparr>\<rparr>"

definition fd_uninstall :: "nat \<Rightarrow> kst \<Rightarrow> nat option \<times> kst" where
  "fd_uninstall fd st =
     (let f = fd_table (k_files st) ! fd;
          st = st\<lparr>k_files := (k_files st)\<lparr>fd_table := (fd_table (k_files st))[fd := None]\<rparr>\<rparr>
      in (f, case f of None \<Rightarrow> st | Some p \<Rightarrow> upd_file p (\<lambda>fl. fl\<lparr>fd_refs := fd_refs fl - 1\<rparr>) st))"

definition fd_set_cloexec :: "files \<Rightarrow> int \<Rightarrow> bool \<Rightarrow> files" where
  "fd_set_cloexec fl fd on =
     (if fd < 0 \<or> int MAX_FD \<le> fd then fl
      else
        let n = nat fd; w = close_on_exec fl ! (n div 64)
        in fl\<lparr>close_on_exec := (close_on_exec fl)
              [n div 64 := (if on then w OR push_bit (n mod 64) 1 else w AND NOT (push_bit (n mod 64) 1))]\<rparr>)"

definition fd_get_cloexec :: "files \<Rightarrow> int \<Rightarrow> bool" where
  "fd_get_cloexec fl fd =
     (if fd < 0 \<or> int MAX_FD \<le> fd then False
      else drop_bit (nat fd mod 64) (close_on_exec fl ! (nat fd div 64)) AND 1 \<noteq> 0)"

definition wq_alloc :: "nat \<Rightarrow> kst \<Rightarrow> nat option \<times> kst" where
  "wq_alloc f st =
     (case kmalloc st of
        (None, st) \<Rightarrow> (None, st)
      | (Some w, st) \<Rightarrow> (Some w, upd_file f (\<lambda>fl. fl\<lparr>f_wq := Some w\<rparr>) st))"

definition file_wq_get :: "nat \<Rightarrow> kst \<Rightarrow> nat option \<times> kst" where
  "file_wq_get f st =
     (case f_wq (k_file st f) of
        Some w \<Rightarrow> (Some w, st)
      | None \<Rightarrow> wq_alloc f st)"

definition do_wake :: "nat option \<Rightarrow> 32 word \<Rightarrow> kst \<Rightarrow> kst" where
  "do_wake wq fl st = (case wq of None \<Rightarrow> st | Some w \<Rightarrow> st\<lparr>k_wakes := k_wakes st @ [(w, fl)]\<rparr>)"

definition zero_file :: kfile where
  "zero_file = \<lparr>f_count = 0, fd_refs = 0, f_type = FD_NONE, f_flags = 0, f_wq = None, f_ctx = None\<rparr>"

text \<open>The descriptor part that the three creation calls share, after the context \<open>c\<close> was allocated.\<close>

definition create_fd :: "fd_type \<Rightarrow> nat \<Rightarrow> bool \<Rightarrow> bool \<Rightarrow> kst \<Rightarrow> (nat \<times> nat) result \<times> kst" where
  "create_fd ty c nonblock cloexec st =
     (case alloc_fd (k_files st) 0 of
        Inl _ \<Rightarrow> (Inl EMFILE, kfree c st)
      | Inr fd \<Rightarrow>
          (case kmalloc st of
             (None, st) \<Rightarrow> (Inl ENOMEM, kfree c st)
           | (Some f, st) \<Rightarrow>
               let st = upd_file f (\<lambda>_. zero_file\<lparr>f_count := 1, f_type := ty, f_ctx := Some c,
                          f_flags := (if nonblock then O_NONBLOCK else 0)\<rparr>) st;
                   st = fd_install fd f st;
                   st = st\<lparr>k_files := fd_set_cloexec (k_files st) (int fd) cloexec\<rparr>
               in (Inr (fd, f), st)))"

subsection \<open>Blocking\<close>

definition nonblocking :: "nat \<Rightarrow> kst \<Rightarrow> bool" where
  "nonblocking f st \<longleftrightarrow> has_bits (f_flags (k_file st f)) O_NONBLOCK"

text \<open>
  The wait loop of the event files: try under the lock, give up with EAGAIN on a non-blocking
  file and with ERESTART on a signal, else sleep and try again.
\<close>

fun wait_loop ::
  "(kst \<Rightarrow> ('v result \<times> kst) option) \<Rightarrow> (kst \<Rightarrow> bool) \<Rightarrow> (kst \<Rightarrow> bool) \<Rightarrow> (kst \<Rightarrow> kst) list \<Rightarrow> kst \<Rightarrow> ('v result \<times> kst) option" where
  "wait_loop attempt nonblock intr env st =
     (case attempt st of
        Some r \<Rightarrow> Some r
      | None \<Rightarrow>
          if nonblock st then Some (Inl EAGAIN, st)
          else if intr st then Some (Inl ERESTART, st)
          else (case env of [] \<Rightarrow> None | g # gs \<Rightarrow> wait_loop attempt nonblock intr gs (g st)))"

subsection \<open>eventfd\<close>

definition sys_eventfd2 :: "int \<Rightarrow> 64 word \<Rightarrow> kst \<Rightarrow> nat result \<times> kst" where
  "sys_eventfd2 initval fl st =
     (if has_bits fl (NOT (EFD_CLOEXEC OR EFD_NONBLOCK OR EFD_SEMAPHORE)) then (Inl EINVAL, st)
      else if EVENTFD_MAX < u64_of_int initval then (Inl EINVAL, st)
      else
        (case kmalloc st of
           (None, st) \<Rightarrow> (Inl ENOMEM, st)
         | (Some c, st) \<Rightarrow>
             let st = st\<lparr>k_efd := (k_efd st)(c := \<lparr>count = u64_of_int initval, efd_flags = ucast fl\<rparr>)\<rparr>
             in (case create_fd FD_EVENTFD c (has_bits fl EFD_NONBLOCK) (has_bits fl EFD_CLOEXEC) st of
                   (Inl e, st) \<Rightarrow> (Inl e, st)
                 | (Inr (fd, _), st) \<Rightarrow> (Inr fd, st))))"

text \<open>The section under \<open>ctx->lock\<close> of a read: the value taken and the new context.\<close>

definition efd_take :: "eventfd_ctx \<Rightarrow> (u64 \<times> eventfd_ctx) option" where
  "efd_take ctx =
     (if 0 < count ctx then
        if has_bits (efd_flags ctx) (ucast EFD_SEMAPHORE) then Some (1, ctx\<lparr>count := count ctx - 1\<rparr>)
        else Some (count ctx, ctx\<lparr>count := 0\<rparr>)
      else None)"

definition efd_add :: "u64 \<Rightarrow> eventfd_ctx \<Rightarrow> eventfd_ctx option" where
  "efd_add val ctx =
     (if count ctx \<le> sub64 EVENTFD_MAX val then Some (ctx\<lparr>count := add64 (count ctx) val\<rparr>) else None)"

definition efd_read_try :: "nat \<Rightarrow> nat option \<Rightarrow> bool \<Rightarrow> kst \<Rightarrow> (u64 result \<times> kst) option" where
  "efd_read_try c wq copy_ok st =
     (case efd_take (k_efd st c) of
        None \<Rightarrow> None
      | Some (val, ctx) \<Rightarrow>
          Some (if copy_ok then Inr val else Inl EFAULT,
                do_wake wq POLLOUT (st\<lparr>k_efd := (k_efd st)(c := ctx)\<rparr>)))"

text \<open>\<open>copy_ok\<close>: the user buffer is writable. \<open>Inr v\<close> is the return value 8 with \<open>v\<close> in the buffer.\<close>

definition eventfd_do_read :: "nat \<Rightarrow> bool \<Rightarrow> (kst \<Rightarrow> kst) list \<Rightarrow> kst \<Rightarrow> (u64 result \<times> kst) option" where
  "eventfd_do_read f copy_ok env st =
     (case f_ctx (k_file st f) of
        None \<Rightarrow> Some (Inl EBADF, st)
      | Some c \<Rightarrow>
          let (wq, st) = file_wq_get f st
          in wait_loop (efd_read_try c wq copy_ok) (nonblocking f) tif_sigpending env st)"

definition efd_write_try :: "nat \<Rightarrow> nat option \<Rightarrow> u64 \<Rightarrow> kst \<Rightarrow> (unit result \<times> kst) option" where
  "efd_write_try c wq val st =
     (case efd_add val (k_efd st c) of
        None \<Rightarrow> None
      | Some ctx \<Rightarrow> Some (Inr (), do_wake wq POLLIN (st\<lparr>k_efd := (k_efd st)(c := ctx)\<rparr>)))"

text \<open>\<open>uval\<close>: the value in the user buffer, \<open>None\<close> when it cannot be read.\<close>

definition eventfd_do_write :: "nat \<Rightarrow> u64 option \<Rightarrow> nat \<Rightarrow> (kst \<Rightarrow> kst) list \<Rightarrow> kst \<Rightarrow> (unit result \<times> kst) option" where
  "eventfd_do_write f uval len env st =
     (case f_ctx (k_file st f) of
        None \<Rightarrow> Some (Inl EBADF, st)
      | Some c \<Rightarrow>
          if len \<noteq> 8 then Some (Inl EINVAL, st)
          else (case uval of
              None \<Rightarrow> Some (Inl EFAULT, st)
            | Some val \<Rightarrow>
                if EVENTFD_MAX < val then Some (Inl EINVAL, st)
                else
                  let (wq, st) = file_wq_get f st
                  in wait_loop (efd_write_try c wq val) (nonblocking f) tif_sigpending env st))"

definition eventfd_signal_isr :: "nat \<Rightarrow> kst \<Rightarrow> kst" where
  "eventfd_signal_isr f st =
     (case f_ctx (k_file st f) of
        None \<Rightarrow> st
      | Some c \<Rightarrow>
          let ctx = k_efd st c;
              st = (if count ctx < EVENTFD_MAX then st\<lparr>k_efd := (k_efd st)(c := ctx\<lparr>count := count ctx + 1\<rparr>)\<rparr> else st);
              (wq, st) = file_wq_get f st
          in do_wake wq POLLIN st)"

subsection \<open>timerfd\<close>

record itimerspec =
  iv_sec :: int
  iv_nsec :: int
  it_sec :: int
  it_nsec :: int

definition sys_timerfd_create :: "int \<Rightarrow> 64 word \<Rightarrow> kst \<Rightarrow> nat result \<times> kst" where
  "sys_timerfd_create clockid fl st =
     (if clockid \<noteq> CLOCK_MONOTONIC then (Inl EINVAL, st)
      else if has_bits fl (NOT (EFD_CLOEXEC OR EFD_NONBLOCK)) then (Inl EINVAL, st)
      else
        (case kmalloc st of
           (None, st) \<Rightarrow> (Inl ENOMEM, st)
         | (Some c, st) \<Rightarrow>
             let st = st\<lparr>k_tfd := (k_tfd st)(c := \<lparr>expiry = 0, interval = 0, ticks = 0, t_file = 0\<rparr>)\<rparr>
             in (case create_fd FD_TIMERFD c (has_bits fl EFD_NONBLOCK) (has_bits fl EFD_CLOEXEC) st of
                   (Inl e, st) \<Rightarrow> (Inl e, st)
                 | (Inr (fd, f), st) \<Rightarrow>
                     (Inr fd, st\<lparr>k_tfd := (k_tfd st)(c := (k_tfd st c)\<lparr>t_file := f\<rparr>),
                                 timerfd_list := timerfd_list st @ [c]\<rparr>))))"

definition NSEC :: u64 where "NSEC = 1000000000"

definition ts_ns :: "int \<Rightarrow> int \<Rightarrow> u64" where
  "ts_ns s n = add64 (mul64 (u64_of_int s) NSEC) (u64_of_int n)"

definition ns_spec :: "u64 \<Rightarrow> u64 \<Rightarrow> itimerspec" where
  "ns_spec i e = \<lparr>iv_sec = int_of_u64 (i div NSEC), iv_nsec = int (i mod NSEC),
                  it_sec = int_of_u64 (e div NSEC), it_nsec = int (e mod NSEC)\<rparr>"

text \<open>
  \<open>neu\<close>: the new setting, \<open>None\<close> when it cannot be read; \<open>old\<close>: whether an old setting is asked
  for and whether it can be written. \<open>None\<close> is a table access out of bounds.
\<close>

definition sys_timerfd_settime ::
  "int \<Rightarrow> 64 word \<Rightarrow> itimerspec option \<Rightarrow> bool option \<Rightarrow> u64 \<Rightarrow> kst \<Rightarrow> (itimerspec option result \<times> kst) option" where
  "sys_timerfd_settime fd fl neu old now st =
     (case fd_lookup (k_files st) (wrap32s fd) of
        None \<Rightarrow> None
      | Some None \<Rightarrow> Some (Inl EBADF, st)
      | Some (Some f) \<Rightarrow>
          if f_type (k_file st f) \<noteq> FD_TIMERFD then Some (Inl EBADF, st)
          else (case f_ctx (k_file st f) of
              None \<Rightarrow> Some (Inl EBADF, st)
            | Some c \<Rightarrow>
                (case neu of
                   None \<Rightarrow> Some (Inl EFAULT, st)
                 | Some n \<Rightarrow>
                     let t = k_tfd st c in
                     if old = Some False then Some (Inl EFAULT, st)
                     else
                       let e = (if it_sec n = 0 \<and> it_nsec n = 0 then 0
                                else if has_bits fl TFD_TIMER_ABSTIME then ts_ns (it_sec n) (it_nsec n)
                                else add64 (add64 now (mul64 (u64_of_int (it_sec n)) NSEC)) (u64_of_int (it_nsec n)));
                           i = ts_ns (iv_sec n) (iv_nsec n)
                       in Some (Inr (if old = None then None else Some (ns_spec (interval t) (expiry t))),
                                st\<lparr>k_tfd := (k_tfd st)(c := t\<lparr>expiry := e, interval := i\<rparr>)\<rparr>))))"

definition tick_one :: "u64 \<Rightarrow> nat \<Rightarrow> kst \<Rightarrow> kst" where
  "tick_one now c st =
     (let t = k_tfd st c in
      if expiry t \<noteq> 0 \<and> expiry t \<le> now then
        let st = st\<lparr>k_tfd := (k_tfd st)(c := t\<lparr>ticks := add64 (ticks t) 1,
                     expiry := (if interval t \<noteq> 0 then add64 now (interval t) else 0)\<rparr>)\<rparr>;
            (wq, st) = file_wq_get (t_file t) st
        in do_wake wq POLLIN st
      else st)"

definition timerfd_tick_all :: "u64 \<Rightarrow> kst \<Rightarrow> kst" where
  "timerfd_tick_all now st = fold (tick_one now) (timerfd_list st) st"

definition tfd_read_try :: "nat \<Rightarrow> bool \<Rightarrow> kst \<Rightarrow> (u64 result \<times> kst) option" where
  "tfd_read_try c copy_ok st =
     (let t = k_tfd st c in
      if 0 < ticks t then
        Some (if copy_ok then Inr (ticks t) else Inl EFAULT, st\<lparr>k_tfd := (k_tfd st)(c := t\<lparr>ticks := 0\<rparr>)\<rparr>)
      else None)"

definition timerfd_do_read :: "nat \<Rightarrow> bool \<Rightarrow> (kst \<Rightarrow> kst) list \<Rightarrow> kst \<Rightarrow> (u64 result \<times> kst) option" where
  "timerfd_do_read f copy_ok env st =
     (case f_ctx (k_file st f) of
        None \<Rightarrow> Some (Inl EBADF, st)
      | Some c \<Rightarrow>
          let (_, st) = file_wq_get f st
          in wait_loop (tfd_read_try c copy_ok) (nonblocking f) tif_sigpending env st)"

subsection \<open>signalfd\<close>

definition SIGMASK :: "nat \<Rightarrow> 64 word" where
  "SIGMASK sig = push_bit (sig - 1) 1"

definition KILL_STOP :: "64 word" where
  "KILL_STOP = SIGMASK 9 OR SIGMASK 19"

text \<open>\<open>__builtin_ctzll\<close> of a non-zero word.\<close>

definition ctzll :: "64 word \<Rightarrow> nat" where
  "ctzll w = the (find (bit w) [0..<64])"

definition proc_signalfd_pending :: "nat \<Rightarrow> kst \<Rightarrow> 64 word" where
  "proc_signalfd_pending c st =
     (case shared_pending st of None \<Rightarrow> 0 | Some sp \<Rightarrow> (sig_pending st OR sp) AND sigmask (k_sfd st c))"

definition sfd_accepts :: "kst \<Rightarrow> 64 word \<Rightarrow> nat \<Rightarrow> bool" where
  "sfd_accepts st b f \<longleftrightarrow>
     f_type (k_file st f) = FD_SIGNALFD \<and>
     (case f_ctx (k_file st f) of None \<Rightarrow> False | Some c \<Rightarrow> has_bits (sigmask (k_sfd st c)) b)"

fun any_fd :: "(nat \<Rightarrow> bool) \<Rightarrow> nat option list \<Rightarrow> nat option" where
  "any_fd p [] = None"
| "any_fd p (None # fs) = any_fd p fs"
| "any_fd p (Some f # fs) = (if p f then Some f else any_fd p fs)"

definition signalfd_consumes :: "kst \<Rightarrow> nat \<Rightarrow> bool" where
  "signalfd_consumes st signo \<longleftrightarrow>
     any_fd (\<lambda>f. sfd_accepts st (SIGMASK signo) f \<and> \<not> has_bits (sig_blocked st) (SIGMASK signo)) (fd_table (k_files st)) \<noteq> None"

definition signalfd_wq :: "kst \<Rightarrow> nat \<Rightarrow> nat option \<times> kst" where
  "signalfd_wq st signo =
     (case any_fd (sfd_accepts st (SIGMASK signo)) (fd_table (k_files st)) of
        None \<Rightarrow> (None, st)
      | Some f \<Rightarrow> file_wq_get f st)"

definition sys_signalfd4 :: "int \<Rightarrow> 64 word option \<Rightarrow> int \<Rightarrow> 64 word \<Rightarrow> kst \<Rightarrow> (int result \<times> kst) option" where
  "sys_signalfd4 fd umask sizemask fl st =
     (if sizemask < 8 then Some (Inl EINVAL, st)
      else if has_bits fl (NOT (EFD_CLOEXEC OR EFD_NONBLOCK)) then Some (Inl EINVAL, st)
      else (case umask of
          None \<Rightarrow> Some (Inl EFAULT, st)
        | Some m \<Rightarrow>
            let mask = m AND NOT KILL_STOP in
            if fd = -1 then
              (case kmalloc st of
                 (None, st) \<Rightarrow> Some (Inl ENOMEM, st)
               | (Some c, st) \<Rightarrow>
                   let st = st\<lparr>k_sfd := (k_sfd st)(c := \<lparr>sigmask = mask\<rparr>)\<rparr>
                   in (case create_fd FD_SIGNALFD c (has_bits fl EFD_NONBLOCK) (has_bits fl EFD_CLOEXEC) st of
                         (Inl e, st) \<Rightarrow> Some (Inl e, st)
                       | (Inr (n, _), st) \<Rightarrow> Some (Inr (int n), st)))
            else
              (case fd_lookup (k_files st) (wrap32s fd) of
                 None \<Rightarrow> None
               | Some None \<Rightarrow> Some (Inl EBADF, st)
               | Some (Some f) \<Rightarrow>
                   if f_type (k_file st f) \<noteq> FD_SIGNALFD then Some (Inl EBADF, st)
                   else (case f_ctx (k_file st f) of
                       None \<Rightarrow> None
                     | Some c \<Rightarrow> Some (Inr fd, st\<lparr>k_sfd := (k_sfd st)(c := \<lparr>sigmask = mask\<rparr>)\<rparr>)))))"

text \<open>
  The signals a read may take: private ones first. SIGKILL and SIGSTOP bypass the block mask in
  the private set only.
\<close>

definition sfd_private :: "nat \<Rightarrow> kst \<Rightarrow> 64 word" where
  "sfd_private c st =
     (let raw = sig_pending st AND sigmask (k_sfd st c)
      in (raw AND NOT (sig_blocked st)) OR (raw AND KILL_STOP))"

definition sfd_shared :: "nat \<Rightarrow> kst \<Rightarrow> 64 word" where
  "sfd_shared c st =
     (case shared_pending st of None \<Rightarrow> 0 | Some sp \<Rightarrow> sp AND sigmask (k_sfd st c) AND NOT (sig_blocked st))"

text \<open>\<open>Inr n\<close>: a \<open>signalfd_siginfo\<close> with \<open>ssi_signo = n\<close> and \<open>ssi_code = SI_USER\<close> in the buffer.\<close>

definition sfd_read_try :: "nat \<Rightarrow> bool \<Rightarrow> kst \<Rightarrow> (nat result \<times> kst) option" where
  "sfd_read_try c copy_ok st =
     (if sfd_private c st \<noteq> 0 then
        let signo = ctzll (sfd_private c st) + 1
        in Some (if copy_ok then Inr signo else Inl EFAULT, st\<lparr>sig_pending := sig_pending st AND NOT (SIGMASK signo)\<rparr>)
      else if sfd_shared c st \<noteq> 0 then
        let signo = ctzll (sfd_shared c st) + 1
        in Some (if copy_ok then Inr signo else Inl EFAULT,
                 st\<lparr>shared_pending := map_option (\<lambda>sp. sp AND NOT (SIGMASK signo)) (shared_pending st)\<rparr>)
      else None)"

definition sfd_interrupted :: "kst \<Rightarrow> bool" where
  "sfd_interrupted st \<longleftrightarrow> (sig_pending st AND NOT (sig_blocked st)) OR (sig_pending st AND KILL_STOP) \<noteq> 0"

definition signalfd_do_read :: "nat \<Rightarrow> bool \<Rightarrow> (kst \<Rightarrow> kst) list \<Rightarrow> kst \<Rightarrow> (nat result \<times> kst) option" where
  "signalfd_do_read f copy_ok env st =
     (case f_ctx (k_file st f) of
        None \<Rightarrow> Some (Inl EBADF, st)
      | Some c \<Rightarrow>
          let (_, st) = file_wq_get f st
          in wait_loop (sfd_read_try c copy_ok) (nonblocking f) sfd_interrupted env st)"

text \<open>
  \<open>recalc_sigpending\<close>: the cached "deliverable signal" bit that the other event files and epoll
  test. Every process has a signal structure when it is called.
\<close>

definition recalc_sigpending :: "kst \<Rightarrow> kst" where
  "recalc_sigpending st =
     (case shared_pending st of
        None \<Rightarrow> st
      | Some sp \<Rightarrow>
          let pend = sig_pending st OR sp;
              deliv = (pend AND NOT (sig_blocked st)) OR (pend AND KILL_STOP)
          in st\<lparr>tif_sigpending := deliv \<noteq> 0\<rparr>)"

subsection \<open>Readiness and close\<close>

text \<open>The arms of \<open>file_poll\<close> for the three types.\<close>

definition file_poll :: "nat \<Rightarrow> 32 word \<Rightarrow> kst \<Rightarrow> 32 word" where
  "file_poll f events st =
     (case (f_type (k_file st f), f_ctx (k_file st f)) of
        (FD_EVENTFD, Some c) \<Rightarrow>
          (if has_bits events POLLIN \<and> 0 < count (k_efd st c) then POLLIN else 0) OR
          (if has_bits events POLLOUT \<and> count (k_efd st c) < EVENTFD_MAX then POLLOUT else 0)
      | (FD_TIMERFD, Some c) \<Rightarrow> if 0 < ticks (k_tfd st c) then events AND POLLIN else 0
      | (FD_SIGNALFD, Some c) \<Rightarrow>
          let pend = (sig_pending st AND sigmask (k_sfd st c)) OR
                     (case shared_pending st of None \<Rightarrow> 0 | Some sp \<Rightarrow> sp AND sigmask (k_sfd st c))
          in if has_bits pend (NOT (sig_blocked st)) then events AND POLLIN else 0
      | _ \<Rightarrow> 0)"

text \<open>
  \<open>file_put\<close> for the three types: the per-type arm and the common tail. A file of these types has
  no operation table, inode, mount or, here, epoll registration.
\<close>

definition file_put :: "nat \<Rightarrow> kst \<Rightarrow> kst" where
  "file_put f st =
     (let n = f_count (k_file st f) - 1;
          st = upd_file f (\<lambda>fl. fl\<lparr>f_count := n\<rparr>) st
      in if n \<noteq> 0 then st
      else
        let st = (case (f_type (k_file st f), f_ctx (k_file st f)) of
                    (FD_EVENTFD, Some c) \<Rightarrow> upd_file f (\<lambda>fl. fl\<lparr>f_ctx := None\<rparr>) (kfree c st)
                  | (FD_TIMERFD, Some c) \<Rightarrow>
                      upd_file f (\<lambda>fl. fl\<lparr>f_ctx := None\<rparr>) (kfree c (st\<lparr>timerfd_list := remove1 c (timerfd_list st)\<rparr>))
                  | (FD_SIGNALFD, Some c) \<Rightarrow> upd_file f (\<lambda>fl. fl\<lparr>f_ctx := None\<rparr>) (kfree c st)
                  | _ \<Rightarrow> st);
            st = (case f_wq (k_file st f) of
                    None \<Rightarrow> st
                  | Some w \<Rightarrow> upd_file f (\<lambda>fl. fl\<lparr>f_wq := None\<rparr>) (kfree w st))
        in kfree f st)"

definition bsd_close_installed_fd :: "int \<Rightarrow> kst \<Rightarrow> unit result \<times> kst" where
  "bsd_close_installed_fd fd st =
     (if fd < 0 \<or> int MAX_FD \<le> fd then (Inl EBADF, st)
      else
        let (f, st) = fd_uninstall (nat fd) st;
            st = st\<lparr>k_files := fd_set_cloexec (k_files st) fd False\<rparr>
        in (case f of None \<Rightarrow> (Inl EBADF, st) | Some p \<Rightarrow> (Inr (), file_put p st)))"

subsection \<open>The read dispatch\<close>

text \<open>The part of \<open>sys_read\<close> that hands these types to their handlers; other types are not of interest here.\<close>

definition read_event :: "nat \<Rightarrow> bool \<Rightarrow> (kst \<Rightarrow> kst) list \<Rightarrow> kst \<Rightarrow> (nat result \<times> kst) option" where
  "read_event f copy_ok env st =
     (case f_type (k_file st f) of
        FD_EVENTFD \<Rightarrow> eventfd_do_read f copy_ok env st
      | FD_TIMERFD \<Rightarrow> timerfd_do_read f copy_ok env st
      | FD_SIGNALFD \<Rightarrow> signalfd_do_read f copy_ok env st
      | _ \<Rightarrow> Some (Inl EINVAL, st))"

subsection \<open>Frames\<close>

declare wait_loop.simps [simp del]

lemma kmalloc_cases:
  obtains m where "kmalloc st = (Some (k_brk st), st\<lparr>k_mem := m, k_brk := Suc (k_brk st), k_live := k_brk st # k_live st\<rparr>)"
  | m where "kmalloc st = (None, st\<lparr>k_mem := m\<rparr>)"
proof (cases "kmalloc_ok (k_mem st)")
  case (Pair b m)
  then show ?thesis using that by (cases b) (auto simp: kmalloc_def)
qed

text \<open>Resolving a wait queue touches only the heap and the queue pointer of that file.\<close>

lemma file_wq_get_frame:
  assumes "file_wq_get f st = (wq, st')"
  shows "k_files st' = k_files st" and "k_efd st' = k_efd st" and "k_tfd st' = k_tfd st" and "k_sfd st' = k_sfd st"
    and "timerfd_list st' = timerfd_list st" and "sig_pending st' = sig_pending st" and "shared_pending st' = shared_pending st"
    and "sig_blocked st' = sig_blocked st" and "tif_sigpending st' = tif_sigpending st"
    and "f_ctx (k_file st' g) = f_ctx (k_file st g)" and "f_flags (k_file st' g) = f_flags (k_file st g)"
    and "f_type (k_file st' g) = f_type (k_file st g)"
  using assms by (cases rule: kmalloc_cases [of st]; auto simp: file_wq_get_def wq_alloc_def upd_file_def split: option.splits)+

lemma do_wake_frame [simp]:
  "k_files (do_wake wq fl st) = k_files st" "k_file (do_wake wq fl st) = k_file st" "k_efd (do_wake wq fl st) = k_efd st"
  "k_tfd (do_wake wq fl st) = k_tfd st" "k_sfd (do_wake wq fl st) = k_sfd st" "timerfd_list (do_wake wq fl st) = timerfd_list st"
  "k_live (do_wake wq fl st) = k_live st"
  by (simp_all add: do_wake_def split: option.split)

lemma nonblocking_frame: "file_wq_get f st = (wq, st') \<Longrightarrow> nonblocking g st' = nonblocking g st"
  by (simp add: nonblocking_def file_wq_get_frame)

subsection \<open>The contract of a pollable file\<close>

text \<open>
  A readiness test agrees with the locked section of the operation: then the wait loop returns
  without sleeping exactly when the test says so, and a sleeping caller returns at the first
  wake-up that finds the test true.
\<close>

locale pollable =
  fixes ready :: "kst \<Rightarrow> bool"
    and attempt :: "kst \<Rightarrow> ('v result \<times> kst) option"
  assumes ready_iff: "ready st \<longleftrightarrow> attempt st \<noteq> None"
    and attempt_no_eagain: "attempt st = Some (r, st') \<Longrightarrow> r \<noteq> Inl EAGAIN"
begin

lemma loop_ready: "ready st \<Longrightarrow> wait_loop attempt nb intr env st = attempt st"
  using ready_iff [of st] by (subst wait_loop.simps) auto

lemma loop_eagain:
  assumes "nb st"
  shows "(\<exists>st'. wait_loop attempt nb intr env st = Some (Inl EAGAIN, st')) \<longleftrightarrow> \<not> ready st"
proof (cases "ready st")
  case True
  obtain r st1 where "attempt st = Some (r, st1)" using True ready_iff by (cases "attempt st") auto
  then show ?thesis using True attempt_no_eagain by (auto simp: loop_ready)
next
  case False
  then have "attempt st = None" using ready_iff by blast
  then show ?thesis using False assms by (subst wait_loop.simps) auto
qed

lemma loop_sleeps:
  assumes "\<not> ready st" and "\<not> nb st" and "\<not> intr st"
  shows "wait_loop attempt nb intr (g # env) st = wait_loop attempt nb intr env (g st)" and "wait_loop attempt nb intr [] st = None"
proof -
  have "attempt st = None" using assms(1) ready_iff by blast
  then show "wait_loop attempt nb intr (g # env) st = wait_loop attempt nb intr env (g st)" "wait_loop attempt nb intr [] st = None"
    using assms(2,3) by (simp_all add: wait_loop.simps [of attempt nb intr _ st])
qed

end

subsection \<open>eventfd counters\<close>

lemma sub64_max: "v \<le> EVENTFD_MAX \<Longrightarrow> sub64 EVENTFD_MAX v = EVENTFD_MAX - v"
  by (rule sub64_small) (simp_all add: EVENTFD_MAX_def U64_def)

lemma efd_take_None: "efd_take ctx = None \<longleftrightarrow> count ctx = 0"
  by (simp add: efd_take_def)

lemma efd_take_count: "efd_take ctx = Some (v, ctx') \<Longrightarrow> count ctx = v + count ctx' \<and> 0 < v \<and> efd_flags ctx' = efd_flags ctx"
  by (auto simp: efd_take_def split: if_splits)

lemma efd_add_None: "v \<le> EVENTFD_MAX \<Longrightarrow> efd_add v ctx = None \<longleftrightarrow> EVENTFD_MAX - v < count ctx"
  by (auto simp: efd_add_def sub64_max)

lemma efd_add_count:
  assumes "efd_add v ctx = Some ctx'" and "v \<le> EVENTFD_MAX"
  shows "count ctx' = count ctx + v \<and> count ctx' \<le> EVENTFD_MAX \<and> efd_flags ctx' = efd_flags ctx"
proof -
  have "count ctx + v \<le> EVENTFD_MAX" "ctx' = ctx\<lparr>count := add64 (count ctx) v\<rparr>"
    using assms by (auto simp: efd_add_def sub64_max split: if_splits)
  then show ?thesis by (auto simp: add64_small EVENTFD_MAX_def U64_def)
qed

lemma bits_lookup [simp]: "has_bits POLLIN POLLIN" "has_bits POLLOUT POLLOUT" "\<not> has_bits POLLIN POLLOUT" "\<not> has_bits POLLOUT POLLIN"
  "POLLIN \<noteq> 0" "POLLOUT \<noteq> 0"
  by (simp_all add: has_bits_def POLLIN_def POLLOUT_def)

interpretation efd_read: pollable "\<lambda>st. 0 < count (k_efd st c)" "efd_read_try c wq copy_ok" for c wq copy_ok
  by unfold_locales (auto simp: efd_read_try_def efd_take_def split: option.splits if_splits)

interpretation efd_write: pollable "\<lambda>st. count (k_efd st c) \<le> sub64 EVENTFD_MAX val" "efd_write_try c wq val" for c wq val
  by unfold_locales (auto simp: efd_write_try_def efd_add_def split: option.splits if_splits)

interpretation tfd_read: pollable "\<lambda>st. 0 < ticks (k_tfd st c)" "tfd_read_try c copy_ok" for c copy_ok
  by unfold_locales (auto simp: tfd_read_try_def Let_def split: if_splits)

interpretation sfd_read: pollable "\<lambda>st. sfd_private c st \<noteq> 0 \<or> sfd_shared c st \<noteq> 0" "sfd_read_try c copy_ok" for c copy_ok
  by unfold_locales (auto simp: sfd_read_try_def Let_def split: if_splits)

text \<open>
  A history of one eventfd: \<open>h_written\<close> sums the accepted writes and interrupt signals,
  \<open>h_read\<close> the values delivered and \<open>h_lost\<close> the values taken by reads whose buffer faulted.
\<close>

record efd_hist =
  h_st :: kst
  h_written :: nat
  h_read :: nat
  h_lost :: nat

inductive efd_history :: "nat \<Rightarrow> kst \<Rightarrow> efd_hist \<Rightarrow> bool" for f st0 where
  start: "efd_history f st0 \<lparr>h_st = st0, h_written = 0, h_read = 0, h_lost = 0\<rparr>"
| read_ok: "efd_history f st0 h \<Longrightarrow> eventfd_do_read f True [] (h_st h) = Some (Inr v, st') \<Longrightarrow>
    efd_history f st0 (h\<lparr>h_st := st', h_read := h_read h + v\<rparr>)"
| read_fault: "efd_history f st0 h \<Longrightarrow> f_ctx (k_file (h_st h) f) = Some c \<Longrightarrow>
    eventfd_do_read f False [] (h_st h) = Some (Inl EFAULT, st') \<Longrightarrow> efd_take (k_efd (h_st h) c) = Some (v, ctx) \<Longrightarrow>
    efd_history f st0 (h\<lparr>h_st := st', h_lost := h_lost h + v\<rparr>)"
| write_ok: "efd_history f st0 h \<Longrightarrow> eventfd_do_write f (Some v) 8 [] (h_st h) = Some (Inr (), st') \<Longrightarrow>
    efd_history f st0 (h\<lparr>h_st := st', h_written := h_written h + v\<rparr>)"
| refused: "efd_history f st0 h \<Longrightarrow> eventfd_do_write f uval len [] (h_st h) = Some (Inl e, st') \<Longrightarrow>
    efd_history f st0 (h\<lparr>h_st := st'\<rparr>)"
| read_refused: "efd_history f st0 h \<Longrightarrow> eventfd_do_read f ok [] (h_st h) = Some (Inl e, st') \<Longrightarrow> e \<noteq> EFAULT \<Longrightarrow>
    efd_history f st0 (h\<lparr>h_st := st'\<rparr>)"
| isr: "efd_history f st0 h \<Longrightarrow> f_ctx (k_file (h_st h) f) = Some c \<Longrightarrow>
    efd_history f st0 (h\<lparr>h_st := eventfd_signal_isr f (h_st h),
      h_written := h_written h + (if count (k_efd (h_st h) c) < EVENTFD_MAX then 1 else 0)\<rparr>)"

lemma wait_loop_Nil:
  "wait_loop attempt nb intr [] st =
     (case attempt st of Some r \<Rightarrow> Some r
      | None \<Rightarrow> if nb st then Some (Inl EAGAIN, st) else if intr st then Some (Inl ERESTART, st) else None)"
  by (subst wait_loop.simps) (simp split: option.split)

text \<open>Each call on the eventfd, as an effect on its counter.\<close>

lemma eventfd_do_read_effect:
  assumes "f_ctx (k_file st f) = Some c" and "eventfd_do_read f ok [] st = Some (r, st')"
  shows "f_ctx (k_file st' f) = Some c"
    and "case efd_take (k_efd st c) of
        Some (v, ctx) \<Rightarrow> r = (if ok then Inr v else Inl EFAULT) \<and> k_efd st' c = ctx
      | None \<Rightarrow> (r = Inl EAGAIN \<or> r = Inl ERESTART) \<and> k_efd st' c = k_efd st c"
proof -
  obtain wq s1 where w: "file_wq_get f st = (wq, s1)" by (cases "file_wq_get f st")
  note fr = file_wq_get_frame [OF w]
  have "wait_loop (efd_read_try c wq ok) (nonblocking f) tif_sigpending [] s1 = Some (r, st')"
    using assms w by (simp add: eventfd_do_read_def)
  then show "f_ctx (k_file st' f) = Some c"
    "case efd_take (k_efd st c) of
        Some (v, ctx) \<Rightarrow> r = (if ok then Inr v else Inl EFAULT) \<and> k_efd st' c = ctx
      | None \<Rightarrow> (r = Inl EAGAIN \<or> r = Inl ERESTART) \<and> k_efd st' c = k_efd st c"
    using fr assms(1) by (auto simp: wait_loop_Nil efd_read_try_def split: option.splits if_splits)
qed

lemma eventfd_do_write_effect:
  assumes "f_ctx (k_file st f) = Some c" and "eventfd_do_write f uval len [] st = Some (r, st')"
  shows "f_ctx (k_file st' f) = Some c"
    and "case r of
        Inr _ \<Rightarrow> \<exists>v. uval = Some v \<and> v \<le> EVENTFD_MAX \<and> efd_add v (k_efd st c) = Some (k_efd st' c)
      | Inl _ \<Rightarrow> k_efd st' c = k_efd st c"
proof -
  obtain wq s1 where w: "file_wq_get f st = (wq, s1)" by (cases "file_wq_get f st")
  note fr = file_wq_get_frame [OF w]
  show "f_ctx (k_file st' f) = Some c"
    "case r of
        Inr _ \<Rightarrow> \<exists>v. uval = Some v \<and> v \<le> EVENTFD_MAX \<and> efd_add v (k_efd st c) = Some (k_efd st' c)
      | Inl _ \<Rightarrow> k_efd st' c = k_efd st c"
    using assms w fr by (auto simp: eventfd_do_write_def wait_loop_Nil efd_write_try_def split: option.splits if_splits)
qed

lemma eventfd_signal_isr_effect:
  assumes "f_ctx (k_file st f) = Some c"
  shows "f_ctx (k_file (eventfd_signal_isr f st) f) = Some c \<and>
    count (k_efd (eventfd_signal_isr f st) c) = count (k_efd st c) + (if count (k_efd st c) < EVENTFD_MAX then 1 else 0)"
proof -
  let ?s = "if count (k_efd st c) < EVENTFD_MAX
    then st\<lparr>k_efd := (k_efd st)(c := (k_efd st c)\<lparr>count := count (k_efd st c) + 1\<rparr>)\<rparr> else st"
  obtain wq s1 where w: "file_wq_get f ?s = (wq, s1)" by (cases "file_wq_get f ?s")
  have "eventfd_signal_isr f st = do_wake wq POLLIN s1" using assms w by (simp add: eventfd_signal_isr_def Let_def)
  then show ?thesis using file_wq_get_frame [OF w] assms by auto
qed

lemma efd_history_inv:
  assumes "efd_history f st0 h" and "f_ctx (k_file st0 f) = Some c" and "count (k_efd st0 c) \<le> EVENTFD_MAX"
  shows "f_ctx (k_file (h_st h) f) = Some c \<and> count (k_efd (h_st h) c) \<le> EVENTFD_MAX \<and>
    count (k_efd st0 c) + h_written h = h_read h + h_lost h + count (k_efd (h_st h) c)"
  using assms
proof (induction rule: efd_history.induct)
  case (read_ok h v st')
  then have c: "f_ctx (k_file (h_st h) f) = Some c" by simp
  show ?case using read_ok eventfd_do_read_effect [OF c read_ok.hyps(2)]
    by (auto split: option.splits dest: efd_take_count)
next
  case (read_fault h c' st' v ctx)
  then have c: "f_ctx (k_file (h_st h) f) = Some c" "c' = c" by auto
  show ?case using read_fault c(2) eventfd_do_read_effect [OF c(1) read_fault.hyps(3)]
    by (auto split: option.splits dest: efd_take_count)
next
  case (write_ok h v st')
  then have c: "f_ctx (k_file (h_st h) f) = Some c" by simp
  show ?case using write_ok eventfd_do_write_effect [OF c write_ok.hyps(2)] by (auto dest: efd_add_count)
next
  case (refused h uval len e st')
  then have c: "f_ctx (k_file (h_st h) f) = Some c" by simp
  show ?case using refused eventfd_do_write_effect [OF c refused.hyps(2)] by auto
next
  case (read_refused h ok e st')
  then have c: "f_ctx (k_file (h_st h) f) = Some c" by simp
  show ?case using read_refused eventfd_do_read_effect [OF c read_refused.hyps(2)] by (auto split: option.splits if_splits)
next
  case (isr h c')
  then have c: "f_ctx (k_file (h_st h) f) = Some c" "c' = c" by auto
  show ?case using isr c(2) eventfd_signal_isr_effect [OF c(1)] by auto
qed simp

subsection \<open>Timer expiry\<close>

definition tick_ctx :: "u64 \<Rightarrow> timerfd_ctx \<Rightarrow> timerfd_ctx" where
  "tick_ctx now t =
     (if expiry t \<noteq> 0 \<and> expiry t \<le> now
      then t\<lparr>ticks := add64 (ticks t) 1, expiry := (if interval t \<noteq> 0 then add64 now (interval t) else 0)\<rparr> else t)"

lemma tick_one_tfd: "k_tfd (tick_one now c st) = (k_tfd st)(c := tick_ctx now (k_tfd st c)) \<and> timerfd_list (tick_one now c st) = timerfd_list st"
proof (cases "expiry (k_tfd st c) \<noteq> 0 \<and> expiry (k_tfd st c) \<le> now")
  case True
  let ?s = "st\<lparr>k_tfd := (k_tfd st)(c := tick_ctx now (k_tfd st c))\<rparr>"
  obtain wq s1 where w: "file_wq_get (t_file (k_tfd st c)) ?s = (wq, s1)" by (cases "file_wq_get (t_file (k_tfd st c)) ?s")
  have "tick_one now c st = do_wake wq POLLIN s1" using True w by (simp add: tick_one_def tick_ctx_def Let_def)
  then show ?thesis using file_wq_get_frame [OF w] by simp
qed (auto simp: tick_one_def tick_ctx_def Let_def)

lemma tick_fold_tfd:
  "distinct cs \<Longrightarrow> k_tfd (fold (tick_one now) cs st) c = (if c \<in> set cs then tick_ctx now (k_tfd st c) else k_tfd st c) \<and>
     timerfd_list (fold (tick_one now) cs st) = timerfd_list st"
  by (induction cs arbitrary: st) (auto simp: tick_one_tfd)

lemma tick_all_fold:
  assumes "c \<in> set (timerfd_list st)" and "distinct (timerfd_list st)"
  shows "k_tfd (fold timerfd_tick_all ts st) c = fold tick_ctx ts (k_tfd st c)"
  using assms
  by (induction ts arbitrary: st) (simp_all add: timerfd_tick_all_def tick_fold_tfd)

lemma tick_ctx_once:
  assumes "expiry t = e" and "0 < e" and "ticks t = 0" and "interval t = 0"
  shows "ticks (fold tick_ctx ts t) = (if \<exists>x \<in> set ts. e \<le> x then 1 else 0)"
proof -
  have d: "fold tick_ctx xs t = t" if "expiry t = 0" for xs t
    using that by (induction xs) (simp_all add: tick_ctx_def)
  show ?thesis using assms
  proof (induction ts)
    case (Cons x xs)
    have "tick_ctx x t = (if e \<le> x then t\<lparr>ticks := 1, expiry := 0\<rparr> else t)"
      using Cons.prems by (simp add: tick_ctx_def add64_def U64_def)
    then show ?case using Cons by (auto simp: d)
  qed simp
qed

text \<open>A periodic timer: every expiry moves the next one at least one period on.\<close>

lemma tick_ctx_periodic:
  assumes "expiry t = e" and "0 < e" and "ticks t = 0" and "interval t = p" and "0 < p"
    and "sorted ts" and "\<forall>x \<in> set ts. x + p < U64" and "length ts < U64"
  shows "let t' = fold tick_ctx ts t; k = ticks t' in
    interval t' = p \<and> k \<le> length ts \<and> e + k * p \<le> expiry t' \<and> (\<forall>x \<in> set ts. x < expiry t') \<and>
    (k = 0 \<longrightarrow> expiry t' = e) \<and> (0 < k \<longrightarrow> ts \<noteq> [] \<and> expiry t' \<le> last ts + p) \<and>
    (0 < k \<longleftrightarrow> (\<exists>x \<in> set ts. e \<le> x))"
  using assms(6-8)
proof (induction ts rule: rev_induct)
  case Nil
  then show ?case using assms by simp
next
  case (snoc x xs)
  let ?u = "fold tick_ctx xs t" and ?v = "tick_ctx x (fold tick_ctx xs t)"
  have le: "\<forall>y \<in> set xs. y \<le> x" using snoc.prems(1) by (simp add: sorted_append)
  have IH: "interval ?u = p" "ticks ?u \<le> length xs" "e + ticks ?u * p \<le> expiry ?u" "\<forall>y \<in> set xs. y < expiry ?u"
    "ticks ?u = 0 \<longrightarrow> expiry ?u = e" "0 < ticks ?u \<longrightarrow> xs \<noteq> [] \<and> expiry ?u \<le> last xs + p"
    "0 < ticks ?u \<longleftrightarrow> (\<exists>y \<in> set xs. e \<le> y)"
    using snoc.IH snoc.prems by (auto simp: sorted_append Let_def)
  show ?case
  proof (cases "expiry ?u \<le> x")
    case True
    have v: "?v = ?u\<lparr>ticks := ticks ?u + 1, expiry := x + p\<rparr>"
      using True IH(1-3) assms(2,5) snoc.prems(2,3) by (simp add: tick_ctx_def add64_small)
    have "e \<le> x" using True IH(3) by simp
    moreover have "y < x + p" if "y \<in> set xs" for y using bspec [OF le that] assms(5) by linarith
    ultimately show ?thesis using True IH(1-3) v assms(5) by (auto simp: Let_def)
  next
    case False
    then have v: "?v = ?u" by (simp add: tick_ctx_def)
    have "expiry ?u \<le> x + p" if "0 < ticks ?u"
    proof -
      have "last xs \<le> x" "expiry ?u \<le> last xs + p" using IH(6) that le by auto
      then show ?thesis by linarith
    qed
    moreover have "\<not> e \<le> x" if "ticks ?u = 0" using IH(5) that False by simp
    ultimately show ?thesis using False IH v by (auto simp: Let_def)
  qed
qed

subsection \<open>Creation and close\<close>

definition files_ok :: "files \<Rightarrow> bool" where
  "files_ok fl \<longleftrightarrow> length (fd_table fl) = MAX_FD \<and> length (close_on_exec fl) = 16"

lemma first_free_spec:
  "first_free xs i = Some j \<Longrightarrow> i \<le> j \<and> j - i < length xs \<and> xs ! (j - i) = None \<and> (\<forall>k < j - i. xs ! k \<noteq> None)"
proof (induction xs arbitrary: i)
  case (Cons x xs)
  show ?case
  proof (cases x)
    case (Some y)
    then have "first_free xs (Suc i) = Some j" using Cons.prems by simp
    note IH = Cons.IH [OF this]
    then obtain d where "j = Suc i + d" using le_Suc_ex by blast
    with IH Some show ?thesis by (auto simp: less_Suc_eq_0_disj)
  qed (use Cons.prems in simp)
qed simp

lemma drop_bit_and_1: "drop_bit n (w :: 64 word) AND 1 \<noteq> 0 \<longleftrightarrow> bit w n"
  by (simp add: and_one_eq bit_iff_odd_drop_bit odd_iff_mod_2_eq_one)

lemma fd_cloexec_get_set:
  assumes "length (close_on_exec fl) = 16" and "fd < MAX_FD"
  shows "fd_get_cloexec (fd_set_cloexec fl (int fd) on) (int fd) = on"
proof -
  have "fd div 64 < 16" using assms(2) by (simp add: MAX_FD_def)
  then show ?thesis using assms
    by (auto simp: fd_get_cloexec_def fd_set_cloexec_def Let_def drop_bit_and_1 bit_simps)
qed

lemma fd_set_cloexec_frame [simp]:
  "fd_table (fd_set_cloexec fl fd on) = fd_table fl" "length (close_on_exec (fd_set_cloexec fl fd on)) = length (close_on_exec fl)"
  by (simp_all add: fd_set_cloexec_def Let_def)

text \<open>A successful creation: a fresh file in the lowest free slot, with one reference.\<close>

lemma create_fd_ok:
  assumes "create_fd ty c nb cx st = (Inr (fd, f), st')"
  shows "f = k_brk st \<and> first_free (fd_table (k_files st)) 0 = Some fd \<and>
    k_file st' f = \<lparr>f_count = 1, fd_refs = 1, f_type = ty, f_flags = (if nb then O_NONBLOCK else 0), f_wq = None, f_ctx = Some c\<rparr> \<and>
    k_files st' = fd_set_cloexec ((k_files st)\<lparr>fd_table := (fd_table (k_files st))[fd := Some f]\<rparr>) (int fd) cx \<and>
    k_live st' = f # k_live st \<and> timerfd_list st' = timerfd_list st \<and> k_tfd st' = k_tfd st \<and> k_efd st' = k_efd st"
  using assms
  by (cases rule: kmalloc_cases [of st])
    (auto simp: create_fd_def alloc_fd_def upd_file_def fd_install_def zero_file_def Let_def kfree_def split: option.splits sum.splits)

lemma create_fd_fail:
  assumes "create_fd ty c nb cx st = (Inl e, st')"
  shows "k_files st' = k_files st \<and> k_live st' = remove1 c (k_live st) \<and> timerfd_list st' = timerfd_list st \<and> (e = EMFILE \<or> e = ENOMEM)"
  using assms
  by (cases rule: kmalloc_cases [of st])
    (auto simp: create_fd_def alloc_fd_def kfree_def Let_def split: option.splits sum.splits)

text \<open>Closing the only descriptor of a fresh event file frees the file and its context.\<close>

lemma close_fresh:
  assumes "fd < MAX_FD" and "fd_table (k_files st) ! fd = Some f" and "fd < length (fd_table (k_files st))"
    and "k_file st f = \<lparr>f_count = 1, fd_refs = 1, f_type = ty, f_flags = fl, f_wq = None, f_ctx = Some c\<rparr>"
    and "ty = FD_EVENTFD \<or> ty = FD_TIMERFD \<or> ty = FD_SIGNALFD" and "k_live st = f # c # L" and "c \<noteq> f"
  shows "\<exists>st'. bsd_close_installed_fd (int fd) st = (Inr (), st') \<and> fd_table (k_files st') = (fd_table (k_files st))[fd := None] \<and>
    k_live st' = L \<and> timerfd_list st' = (if ty = FD_TIMERFD then remove1 c (timerfd_list st) else timerfd_list st)"
  using assms
  by (auto simp: bsd_close_installed_fd_def fd_uninstall_def file_put_def upd_file_def kfree_def Let_def)

lemma create_close:
  assumes ok: "files_ok (k_files st)" and C: "create_fd ty c nb cx st = (Inr (fd, f), st')"
    and ty: "ty = FD_EVENTFD \<or> ty = FD_TIMERFD \<or> ty = FD_SIGNALFD" and L: "k_live st = c # L" and "c < k_brk st"
    and s: "k_files s = k_files st'" "k_file s = k_file st'" "k_live s = k_live st'"
  shows "fd < MAX_FD \<and> fd_table (k_files st) ! fd = None \<and> (\<forall>i < fd. fd_table (k_files st) ! i \<noteq> None) \<and>
    fd_get_cloexec (k_files s) (int fd) = cx \<and>
    (\<exists>s'. bsd_close_installed_fd (int fd) s = (Inr (), s') \<and> fd_table (k_files s') = fd_table (k_files st) \<and> k_live s' = L \<and>
      timerfd_list s' = (if ty = FD_TIMERFD then remove1 c (timerfd_list s) else timerfd_list s))"
proof -
  note F = create_fd_ok [OF C]
  have fd: "fd < MAX_FD" "fd_table (k_files st) ! fd = None" "\<forall>i < fd. fd_table (k_files st) ! i \<noteq> None"
    "fd < length (fd_table (k_files st))" and cl: "length (close_on_exec (k_files st)) = 16"
    using first_free_spec [of "fd_table (k_files st)" 0 fd] F ok by (auto simp: files_ok_def)
  have "fd_get_cloexec (k_files s) (int fd) = cx" using F s cl fd(1) by (simp add: fd_cloexec_get_set)
  moreover have "(fd_table (k_files s))[fd := None] = fd_table (k_files st)"
    using F s fd(2) by (metis fd_set_cloexec_frame(1) files.select_convs(1) files.surjective files.update_convs(1) list_update_id list_update_overwrite)
  moreover have "fd_table (k_files s) ! fd = Some f" "fd < length (fd_table (k_files s))" using F s fd(4) by simp_all
  ultimately show ?thesis
    using close_fresh [OF fd(1), of s f ty _ c L] F s L \<open>c < k_brk st\<close> ty fd(1-3) by auto
qed

subsection \<open>Signal selection\<close>

lemma ctzll_spec: "w \<noteq> 0 \<Longrightarrow> ctzll w < 64 \<and> bit w (ctzll w) \<and> (\<forall>k < ctzll w. \<not> bit w k)"
proof -
  assume "w \<noteq> 0"
  then obtain n where "bit w n" "n < 64" by (auto simp: bit_eq_iff dest: bit_imp_le_length)
  then have "find (bit w) [0..<64] \<noteq> None" by (auto simp: find_None_iff)
  then obtain m where m: "find (bit w) [0..<64] = Some m" by auto
  then have "ctzll w = m" by (simp add: ctzll_def)
  then show "ctzll w < 64 \<and> bit w (ctzll w) \<and> (\<forall>k < ctzll w. \<not> bit w k)"
    using m by (auto simp: find_Some_iff)
qed

lemma bit_SIGMASK: "bit (SIGMASK (Suc n)) k \<longleftrightarrow> k = n \<and> n < 64"
  by (auto simp: SIGMASK_def bit_simps)

lemma or_zero_iff: "(a :: 64 word) OR b = 0 \<longleftrightarrow> a = 0 \<and> b = 0"
  by (auto simp: bit_eq_iff bit_simps)

lemma sfd_private_no_kill: "sigmask (k_sfd st c) AND KILL_STOP = 0 \<Longrightarrow> sfd_private c st = sig_pending st AND sigmask (k_sfd st c) AND NOT (sig_blocked st)"
  by (auto simp: sfd_private_def Let_def bit_eq_iff bit_simps)

lemma sfd_ready_poll:
  assumes "sigmask (k_sfd st c) AND KILL_STOP = 0"
  shows "has_bits ((sig_pending st AND sigmask (k_sfd st c)) OR
      (case shared_pending st of None \<Rightarrow> 0 | Some sp \<Rightarrow> sp AND sigmask (k_sfd st c))) (NOT (sig_blocked st)) \<longleftrightarrow>
    sfd_private c st \<noteq> 0 \<or> sfd_shared c st \<noteq> 0"
  by (cases "shared_pending st")
    (auto simp: has_bits_def sfd_private_no_kill [OF assms] sfd_shared_def bit_eq_iff bit_simps)

text \<open>After the wait queue is resolved, a read is the wait loop on the same objects.\<close>

lemma sfd_sets_frame: "file_wq_get f st = (wq, s1) \<Longrightarrow> sfd_private c s1 = sfd_private c st \<and> sfd_shared c s1 = sfd_shared c st"
  by (auto simp: sfd_private_def sfd_shared_def file_wq_get_frame split: option.split)

subsection \<open>Concrete states\<close>

definition demo_k :: kst where
  "demo_k = \<lparr>k_files = \<lparr>fd_table = replicate MAX_FD None, close_on_exec = replicate 16 0\<rparr>,
     k_file = (\<lambda>_. zero_file), k_efd = (\<lambda>_. \<lparr>count = 5, efd_flags = 0\<rparr>),
     k_tfd = (\<lambda>_. \<lparr>expiry = 0, interval = 0, ticks = 0, t_file = 0\<rparr>), k_sfd = (\<lambda>_. \<lparr>sigmask = 0x4\<rparr>),
     timerfd_list = [], k_live = [], k_brk = 1, k_mem = [], k_wakes = [],
     sig_pending = 0, shared_pending = Some 0, sig_blocked = 0, tif_sigpending = False\<rparr>"

definition demo_file :: "fd_type \<Rightarrow> kst" where
  "demo_file ty = demo_k\<lparr>k_file := (\<lambda>_. zero_file\<lparr>f_count := 1, f_type := ty, f_wq := Some 9, f_ctx := Some 2\<rparr>)\<rparr>"

lemma demo_file_simps [simp]:
  "f_type (k_file (demo_file ty) f) = ty" "f_ctx (k_file (demo_file ty) f) = Some 2" "f_wq (k_file (demo_file ty) f) = Some 9"
  "f_flags (k_file (demo_file ty) f) = 0" "file_wq_get f (demo_file ty) = (Some 9, demo_file ty)"
  "k_efd (demo_file ty) c = \<lparr>count = 5, efd_flags = 0\<rparr>" "k_sfd (demo_file ty) c = \<lparr>sigmask = 0x4\<rparr>"
  by (simp_all add: demo_file_def demo_k_def zero_file_def file_wq_get_def wq_alloc_def)

subsection \<open>Properties\<close>

text \<open>
  C27. Conservation: over every history of reads, writes, refused calls and interrupt signals on an
  eventfd, in counter or semaphore mode, the counter never exceeds EVENTFD_MAX and what was added
  equals what was read, plus what faulting reads took, plus what is left; nothing wraps around.
\<close>

theorem eventfd_conservation:
  assumes "efd_history f st0 h" and "f_ctx (k_file st0 f) = Some c" and "count (k_efd st0 c) \<le> EVENTFD_MAX"
  shows "count (k_efd (h_st h) c) \<le> EVENTFD_MAX \<and>
    count (k_efd st0 c) + h_written h = h_read h + h_lost h + count (k_efd (h_st h) c)"
  using efd_history_inv [OF assms] by simp

theorem eventfd_conservation_witness:
  "\<exists>h. efd_history 1 (demo_file FD_EVENTFD) h \<and> h_read h = 12 \<and>
     5 + h_written h = h_read h + h_lost h + count (k_efd (h_st h) 2)"
proof -
  let ?s = "demo_file FD_EVENTFD"
  let ?h0 = "\<lparr>h_st = ?s, h_written = 0, h_read = 0, h_lost = 0\<rparr>"
  have "sub64 EVENTFD_MAX 7 = EVENTFD_MAX - 7" by (rule sub64_max) (simp add: EVENTFD_MAX_def)
  then have a: "efd_add 7 (k_efd ?s 2) = Some \<lparr>count = 12, efd_flags = 0\<rparr>"
    unfolding efd_add_def by (simp add: EVENTFD_MAX_def add64_small U64_def)
  define s1 where "s1 = do_wake (Some 9) POLLIN (?s\<lparr>k_efd := (k_efd ?s)(2 := \<lparr>count = 12, efd_flags = 0\<rparr>)\<rparr>)"
  have w: "eventfd_do_write 1 (Some 7) 8 [] ?s = Some (Inr (), s1)"
    using a by (simp add: eventfd_do_write_def wait_loop_Nil efd_write_try_def EVENTFD_MAX_def s1_def)
  have s1: "file_wq_get 1 s1 = (Some 9, s1)" "f_ctx (k_file s1 1) = Some 2" "k_efd s1 2 = \<lparr>count = 12, efd_flags = 0\<rparr>"
    by (simp_all add: s1_def file_wq_get_def wq_alloc_def)
  then obtain s2 where r: "eventfd_do_read 1 True [] s1 = Some (Inr 12, s2)"
    by (simp add: eventfd_do_read_def wait_loop_Nil efd_read_try_def efd_take_def has_bits_def)
  have "efd_history 1 ?s (?h0\<lparr>h_st := s1, h_written := h_written ?h0 + 7\<rparr>)"
    using efd_history.write_ok [OF efd_history.start [of 1 ?s], of 7 s1] w by simp
  from efd_history.read_ok [OF this, of 12 s2] r
  have h: "efd_history 1 ?s \<lparr>h_st = s2, h_written = 7, h_read = 12, h_lost = 0\<rparr>" by simp
  show ?thesis using h eventfd_conservation [OF h, of 2] by (intro exI [of _ "\<lparr>h_st = s2, h_written = 7, h_read = 12, h_lost = 0\<rparr>"])
      (simp add: EVENTFD_MAX_def)
qed

text \<open>
  C28. \<open>file_poll\<close> predicts \<open>read\<close>: for an eventfd, timerfd or signalfd in non-blocking mode, POLLIN
  is reported exactly when the read of that file does not return EAGAIN.
\<close>

theorem poll_predicts_read:
  assumes "f_type (k_file st f) \<in> {FD_EVENTFD, FD_TIMERFD, FD_SIGNALFD}" and "f_ctx (k_file st f) = Some c"
    and "nonblocking f st" and "sigmask (k_sfd st c) AND KILL_STOP = 0"
  shows "file_poll f POLLIN st = POLLIN \<longleftrightarrow> (\<forall>st'. read_event f ok env st \<noteq> Some (Inl EAGAIN, st'))"
proof -
  obtain wq s1 where w: "file_wq_get f st = (wq, s1)" by (cases "file_wq_get f st")
  note fr = file_wq_get_frame [OF w]
  have nb: "nonblocking f s1" using assms(3) nonblocking_frame [OF w] by simp
  consider "f_type (k_file st f) = FD_EVENTFD" | "f_type (k_file st f) = FD_TIMERFD" | "f_type (k_file st f) = FD_SIGNALFD"
    using assms(1) by auto
  then show ?thesis
  proof cases
    case 1
    have "file_poll f POLLIN st = POLLIN \<longleftrightarrow> 0 < count (k_efd s1 c)" using 1 assms(2) fr by (simp add: file_poll_def)
    then show ?thesis using efd_read.loop_eagain [where nb = "nonblocking f" and st = s1 and c = c and copy_ok = ok and intr = tif_sigpending and env = env and wq = wq, OF nb] 1 assms(2) w
      by (auto simp: read_event_def eventfd_do_read_def)
  next
    case 2
    have "file_poll f POLLIN st = POLLIN \<longleftrightarrow> 0 < ticks (k_tfd s1 c)" using 2 assms(2) fr by (simp add: file_poll_def)
    then show ?thesis using tfd_read.loop_eagain [where nb = "nonblocking f" and st = s1 and c = c and copy_ok = ok and intr = tif_sigpending and env = env, OF nb] 2 assms(2) w
      by (auto simp: read_event_def timerfd_do_read_def)
  next
    case 3
    have "file_poll f POLLIN st = POLLIN \<longleftrightarrow> sfd_private c s1 \<noteq> 0 \<or> sfd_shared c s1 \<noteq> 0"
      using 3 assms(2) sfd_ready_poll [OF assms(4)] sfd_sets_frame [OF w, of c] by (simp add: file_poll_def Let_def)
    then show ?thesis using sfd_read.loop_eagain [where nb = "nonblocking f" and st = s1 and c = c and copy_ok = ok and intr = sfd_interrupted and env = env, OF nb] 3 assms(2) w
      by (auto simp: read_event_def signalfd_do_read_def)
  qed
qed

definition demo_nonblock :: "fd_type \<Rightarrow> kst" where
  "demo_nonblock ty = upd_file 1 (\<lambda>fl. fl\<lparr>f_flags := O_NONBLOCK\<rparr>) (demo_file ty)"

theorem poll_predicts_read_witness:
  "file_poll 1 POLLIN (demo_nonblock FD_TIMERFD) \<noteq> POLLIN \<and>
     (\<exists>st'. read_event 1 True [] (demo_nonblock FD_TIMERFD) = Some (Inl EAGAIN, st'))"
proof -
  have "file_poll 1 POLLIN (demo_nonblock FD_TIMERFD) \<noteq> POLLIN"
    by (simp add: file_poll_def demo_nonblock_def upd_file_def demo_file_def demo_k_def zero_file_def POLLIN_def)
  then show ?thesis using poll_predicts_read [of "demo_nonblock FD_TIMERFD" 1 2 True "[]"]
    by (auto simp: demo_nonblock_def upd_file_def nonblocking_def has_bits_def O_NONBLOCK_def KILL_STOP_def SIGMASK_def demo_file_def
        demo_k_def zero_file_def push_bit_eq_mult)
qed

text \<open>
  C29. Timer expiries: over any non-decreasing sequence of timer interrupts, a one-shot timer counts
  one tick if and only if its time was reached; a periodic timer counts at least one tick if and
  only if its first expiry was reached, never more than the whole periods that have elapsed, and
  its next expiry lies after every interrupt handled.
\<close>

theorem timerfd_tick_count:
  assumes "c \<in> set (timerfd_list st)" and "distinct (timerfd_list st)" and "k_tfd st c = \<lparr>expiry = e, interval = p, ticks = 0, t_file = f\<rparr>"
    and "0 < e" and "sorted ts" and "\<forall>x \<in> set ts. x + p < U64" and "length ts < U64"
  shows "let t' = k_tfd (fold timerfd_tick_all ts st) c; k = ticks t' in
    if p = 0 then k = (if \<exists>x \<in> set ts. e \<le> x then 1 else 0)
    else (0 < k \<longleftrightarrow> (\<exists>x \<in> set ts. e \<le> x)) \<and> (0 < k \<longrightarrow> e + (k - 1) * p \<le> last ts) \<and> (\<forall>x \<in> set ts. x < expiry t')"
proof (cases "p = 0")
  case True
  then show ?thesis using tick_all_fold [OF assms(1,2), of ts] tick_ctx_once [of "k_tfd st c" e ts] assms(3,4) by (simp add: Let_def)
next
  case False
  let ?t = "fold tick_ctx ts (k_tfd st c)"
  have P: "e + ticks ?t * p \<le> expiry ?t" "\<forall>x \<in> set ts. x < expiry ?t" "0 < ticks ?t \<longrightarrow> expiry ?t \<le> last ts + p"
    "0 < ticks ?t \<longleftrightarrow> (\<exists>x \<in> set ts. e \<le> x)"
    using tick_ctx_periodic [of "k_tfd st c" e p ts] assms(3-7) False by (simp_all add: Let_def)
  have "e + (ticks ?t - 1) * p \<le> last ts" if pos: "0 < ticks ?t"
  proof -
    obtain m where "ticks ?t = Suc m" using pos by (cases "ticks ?t") auto
    then show ?thesis using P(1,3) pos by simp
  qed
  then show ?thesis using P False tick_all_fold [OF assms(1,2), of ts] by (simp add: Let_def)
qed

theorem timerfd_tick_count_witness:
  "\<exists>st. k_tfd st 2 = \<lparr>expiry = 100, interval = 10, ticks = 0, t_file = 1\<rparr> \<and>
     (let t' = k_tfd (fold timerfd_tick_all [95, 105, 130, 131] st) 2 in 0 < ticks t' \<and> 131 < expiry t')"
proof -
  let ?s = "demo_k\<lparr>timerfd_list := [2], k_tfd := (\<lambda>_. \<lparr>expiry = 100, interval = 10, ticks = 0, t_file = 1\<rparr>)\<rparr>"
  show ?thesis using timerfd_tick_count [of 2 ?s 100 10 1 "[95, 105, 130, 131]"] by (intro exI [of _ ?s]) (simp add: U64_def Let_def)
qed

text \<open>
  C30. Creation and close: a failing \<open>eventfd2\<close> or \<open>timerfd_create\<close> leaves descriptor table, heap and
  timer list as they were, whatever allocation failed; a successful one takes the lowest free
  descriptor, sets its close-on-exec bit as asked, and closing that descriptor restores table,
  heap and timer list exactly.
\<close>

theorem event_create_close:
  assumes "files_ok (k_files st)" and "k_brk st \<notin> set (timerfd_list st)"
    and "mk = sys_eventfd2 v fl \<or> mk = sys_timerfd_create clk fl" and "mk st = (r, st1)"
  shows "case r of
      Inl _ \<Rightarrow> fd_table (k_files st1) = fd_table (k_files st) \<and> k_live st1 = k_live st \<and> timerfd_list st1 = timerfd_list st
    | Inr fd \<Rightarrow> fd < MAX_FD \<and> fd_table (k_files st) ! fd = None \<and> (\<forall>i < fd. fd_table (k_files st) ! i \<noteq> None) \<and>
        fd_get_cloexec (k_files st1) (int fd) = has_bits fl EFD_CLOEXEC \<and>
        (\<exists>st2. bsd_close_installed_fd (int fd) st1 = (Inr (), st2) \<and> fd_table (k_files st2) = fd_table (k_files st) \<and>
          k_live st2 = k_live st \<and> timerfd_list st2 = timerfd_list st)"
proof (cases rule: kmalloc_cases [of st])
  case (2 m)
  then show ?thesis using assms(3,4) by (auto simp: sys_eventfd2_def sys_timerfd_create_def split: if_splits)
next
  case (1 m)
  let ?c = "k_brk st"
  let ?s = "st\<lparr>k_mem := m, k_brk := Suc ?c, k_live := ?c # k_live st\<rparr>"
  let ?e = "?s\<lparr>k_efd := (k_efd ?s)(?c := \<lparr>count = u64_of_int v, efd_flags = ucast fl\<rparr>)\<rparr>"
  let ?t = "?s\<lparr>k_tfd := (k_tfd ?s)(?c := \<lparr>expiry = 0, interval = 0, ticks = 0, t_file = 0\<rparr>)\<rparr>"
  let ?mk = "\<lambda>ty. create_fd ty ?c (has_bits fl EFD_NONBLOCK) (has_bits fl EFD_CLOEXEC)"
  obtain r1 s1 where E: "?mk FD_EVENTFD ?e = (r1, s1)" by (cases "?mk FD_EVENTFD ?e")
  obtain r2 s2 where T: "?mk FD_TIMERFD ?t = (r2, s2)" by (cases "?mk FD_TIMERFD ?t")
  from assms(3) show ?thesis
  proof
    assume mk: "mk = sys_eventfd2 v fl"
    show ?thesis
    proof (cases r1)
      case (Inl e)
      then show ?thesis using assms(4) mk 1 E create_fd_fail [of FD_EVENTFD ?c _ _ ?e e s1]
        by (auto simp: sys_eventfd2_def Let_def split: if_splits)
    next
      case (Inr p)
      then obtain fd f where p: "?mk FD_EVENTFD ?e = (Inr (fd, f), s1)" using E by (cases p) auto
      show ?thesis using assms(1,4) mk 1 p create_close [OF _ p _ _ _ refl refl refl, of "k_live st"] create_fd_ok [OF p]
        by (auto simp: sys_eventfd2_def Let_def split: if_splits)
    qed
  next
    assume mk: "mk = sys_timerfd_create clk fl"
    show ?thesis
    proof (cases r2)
      case (Inl e)
      then show ?thesis using assms(4) mk 1 T create_fd_fail [of FD_TIMERFD ?c _ _ ?t e s2]
        by (auto simp: sys_timerfd_create_def Let_def split: if_splits)
    next
      case (Inr p)
      then obtain fd f where p: "?mk FD_TIMERFD ?t = (Inr (fd, f), s2)" using T by (cases p) auto
      let ?z = "s2\<lparr>k_tfd := (k_tfd s2)(?c := (k_tfd s2 ?c)\<lparr>t_file := f\<rparr>), timerfd_list := timerfd_list s2 @ [?c]\<rparr>"
      show ?thesis using assms(1,2,4) mk 1 p create_close [OF _ p, of "k_live st" ?z] create_fd_ok [OF p]
        by (auto simp: sys_timerfd_create_def Let_def remove1_append split: if_splits)
    qed
  qed
qed

theorem event_create_close_witness:
  "\<exists>fd st1 st2. sys_timerfd_create 1 EFD_CLOEXEC demo_k = (Inr fd, st1) \<and> bsd_close_installed_fd (int fd) st1 = (Inr (), st2) \<and>
     k_live st2 = k_live demo_k"
proof -
  have "first_free (replicate MAX_FD None) 0 = Some 0" by (simp add: MAX_FD_def numeral_eq_Suc)
  then obtain fd st1 where c: "sys_timerfd_create 1 EFD_CLOEXEC demo_k = (Inr fd, st1)"
    by (simp add: sys_timerfd_create_def CLOCK_MONOTONIC_def has_bits_def EFD_CLOEXEC_def EFD_NONBLOCK_def kmalloc_def demo_k_def
        create_fd_def alloc_fd_def Let_def)
  show ?thesis using event_create_close [of demo_k _ 0 EFD_CLOEXEC 1, OF _ _ disjI2 [OF refl] c] c
    by (auto simp: files_ok_def demo_k_def)
qed

text \<open>
  C31. Descriptor bounds: \<open>timerfd_settime\<close> has a defined outcome exactly for descriptor arguments that
  truncate to an index of the table. It does not check the argument, and neither does \<open>signalfd4\<close>
  when it updates an existing file: for any other descriptor both read beyond \<open>fd_table\<close>.
\<close>

theorem event_fd_unchecked:
  assumes "files_ok (k_files st)"
  shows "(sys_timerfd_settime fd fl neu old now st = None \<longleftrightarrow> wrap32s fd < 0 \<or> int MAX_FD \<le> wrap32s fd) \<and>
    (fd \<noteq> -1 \<and> (wrap32s fd < 0 \<or> int MAX_FD \<le> wrap32s fd) \<longrightarrow> sys_signalfd4 fd (Some m) 8 0 st = None)"
  using assms
  by (auto simp: sys_timerfd_settime_def sys_signalfd4_def fd_lookup_def files_ok_def has_bits_def Let_def split: option.splits)

theorem event_fd_unchecked_witness:
  "sys_timerfd_settime 5000 0 None None 0 demo_k = None \<and> sys_timerfd_settime 7 0 None None 0 demo_k \<noteq> None \<and>
     sys_signalfd4 5000 (Some 1) 8 0 demo_k = None"
  using event_fd_unchecked [of demo_k 5000 0 None None 0 1] event_fd_unchecked [of demo_k 7 0 None None 0 1]
  by (simp add: files_ok_def demo_k_def wrap32s_def MAX_FD_def)

lemma sfd_private_bit:
  "sigmask (k_sfd st c) AND KILL_STOP = 0 \<Longrightarrow>
     bit (sfd_private c st) k \<longleftrightarrow> bit (sig_pending st) k \<and> bit (sigmask (k_sfd st c)) k \<and> \<not> bit (sig_blocked st) k"
  by (auto simp: sfd_private_no_kill bit_simps dest: bit_imp_le_length)

lemma sfd_shared_bit:
  "bit (sfd_shared c st) k \<longleftrightarrow>
     (case shared_pending st of None \<Rightarrow> False | Some sp \<Rightarrow> bit sp k) \<and> bit (sigmask (k_sfd st c)) k \<and> \<not> bit (sig_blocked st) k"
  by (auto simp: sfd_shared_def bit_simps dest: bit_imp_le_length split: option.splits)

lemma nonzero_bit: "w \<noteq> 0 \<longleftrightarrow> (\<exists>k. bit w k)" for w :: "64 word"
  using bit_imp_le_length [of w] by (auto simp: bit_eq_iff)

text \<open>
  C32. Signal selection: a signal is deliverable when it is pending, in the mask of the descriptor
  and not blocked. With a mask as \<open>signalfd4\<close> makes them, a successful read returns the
  lowest-numbered deliverable private signal, or when there is none the lowest-numbered deliverable
  shared signal, and clears exactly that pending bit in exactly that set.
\<close>

theorem signalfd_read_selects:
  assumes "f_ctx (k_file st f) = Some c" and "sigmask (k_sfd st c) AND KILL_STOP = 0" and "signalfd_do_read f True [] st = Some (Inr n, st')"
  shows "let open = (\<lambda>k. bit (sigmask (k_sfd st c)) k \<and> \<not> bit (sig_blocked st) k);
      priv = (\<lambda>k. bit (sig_pending st) k \<and> open k);
      shared = (\<lambda>k. (case shared_pending st of None \<Rightarrow> False | Some sp \<Rightarrow> bit sp k) \<and> open k)
    in 1 \<le> n \<and> n \<le> 64 \<and>
      (if \<exists>k. priv k
       then priv (n - 1) \<and> (\<forall>k < n - 1. \<not> priv k) \<and> sig_pending st' = sig_pending st AND NOT (SIGMASK n) \<and> shared_pending st' = shared_pending st
       else shared (n - 1) \<and> (\<forall>k < n - 1. \<not> shared k) \<and> sig_pending st' = sig_pending st \<and>
         shared_pending st' = map_option (\<lambda>sp. sp AND NOT (SIGMASK n)) (shared_pending st))"
proof -
  obtain wq s1 where w: "file_wq_get f st = (wq, s1)" by (cases "file_wq_get f st")
  note fr = file_wq_get_frame [OF w]
  have "wait_loop (sfd_read_try c True) (nonblocking f) sfd_interrupted [] s1 = Some (Inr n, st')"
    using assms w by (simp add: signalfd_do_read_def)
  then have R: "sfd_read_try c True s1 = Some (Inr n, st')" by (auto simp: wait_loop_Nil split: option.splits if_splits)
  let ?w = "if sfd_private c st \<noteq> 0 then sfd_private c st else sfd_shared c st"
  have n: "n = ctzll ?w + 1" "?w \<noteq> 0" using R sfd_sets_frame [OF w, of c] by (auto simp: sfd_read_try_def Let_def split: if_splits)
  then have low: "bit ?w (n - 1)" "\<forall>k < n - 1. \<not> bit ?w k" "1 \<le> n" "n \<le> 64" using ctzll_spec [OF n(2)] by auto
  have upd: "if sfd_private c st \<noteq> 0
     then sig_pending st' = sig_pending st AND NOT (SIGMASK n) \<and> shared_pending st' = shared_pending st
     else sig_pending st' = sig_pending st \<and> shared_pending st' = map_option (\<lambda>sp. sp AND NOT (SIGMASK n)) (shared_pending st)"
    using R sfd_sets_frame [OF w, of c] fr by (auto simp: sfd_read_try_def Let_def split: if_splits)
  have priv: "sfd_private c st \<noteq> 0 \<longleftrightarrow> (\<exists>k. bit (sig_pending st) k \<and> bit (sigmask (k_sfd st c)) k \<and> \<not> bit (sig_blocked st) k)"
    by (simp add: nonzero_bit sfd_private_bit [OF assms(2)])
  show ?thesis
    using low upd by (cases "sfd_private c st \<noteq> 0") (simp_all add: Let_def sfd_private_bit [OF assms(2)] sfd_shared_bit del: One_nat_def flip: priv)
qed

definition demo_sig :: kst where
  "demo_sig = (demo_file FD_SIGNALFD)\<lparr>shared_pending := Some 0x6\<rparr>"

theorem signalfd_read_selects_witness:
  "\<exists>st'. signalfd_do_read 1 True [] demo_sig = Some (Inr 3, st') \<and> shared_pending st' = Some (0x6 AND NOT (SIGMASK 3))"
proof -
  have k: "demo_sig = demo_k\<lparr>k_file := (\<lambda>_. zero_file\<lparr>f_count := 1, f_type := FD_SIGNALFD, f_wq := Some 9, f_ctx := Some 2\<rparr>),
      shared_pending := Some 0x6\<rparr>"
    by (simp add: demo_sig_def demo_file_def demo_k_def)
  have w: "file_wq_get f demo_sig = (Some 9, demo_sig)" for f by (simp add: k file_wq_get_def wq_alloc_def demo_k_def zero_file_def)
  have p: "sfd_private 2 demo_sig = 0" "sfd_shared 2 demo_sig = 0x4"
    by (simp_all add: k sfd_private_def sfd_shared_def demo_k_def)
  have z: "ctzll 4 = 2" by (simp add: ctzll_def upt_rec bit_numeral_rec numeral_eq_Suc)
  have "f_ctx (k_file demo_sig 1) = Some 2" by (simp add: k zero_file_def)
  then obtain st' where r: "signalfd_do_read 1 True [] demo_sig = Some (Inr 3, st')"
    using w by (simp add: signalfd_do_read_def wait_loop_Nil sfd_read_try_def p z)
  show ?thesis using signalfd_read_selects [OF _ _ r, of 2] r by (auto simp: k zero_file_def demo_k_def KILL_STOP_def SIGMASK_def Let_def split: if_splits)
qed

text \<open>
  C33. Interruption of a signalfd read: the check before sleeping looks at the private pending set
  only. A deliverable process-directed signal outside the mask leaves the reader asleep however
  often it is woken, although the cached pending bit, which interrupts every other event file, is
  set.
\<close>

theorem signalfd_misses_shared:
  assumes "f_ctx (k_file st f) = Some c" and "f_wq (k_file st f) = Some w" and "\<not> nonblocking f st"
    and "sig_pending st = 0" and "shared_pending st = Some sp"
    and "sp AND sigmask (k_sfd st c) = 0" and "sp AND NOT (sig_blocked st) \<noteq> 0"
  shows "tif_sigpending (recalc_sigpending st) \<and>
    signalfd_do_read f ok (replicate n (\<lambda>s. s)) (recalc_sigpending st) = None"
proof -
  let ?s = "recalc_sigpending st"
  have tif: "tif_sigpending ?s" using assms(4,5,7) by (simp add: recalc_sigpending_def Let_def or_zero_iff)
  have s: "k_file ?s = k_file st" "k_sfd ?s = k_sfd st" "sig_pending ?s = 0" "shared_pending ?s = Some sp" "sig_blocked ?s = sig_blocked st"
    using assms(4,5) by (simp_all add: recalc_sigpending_def Let_def)
  have nr: "\<not> (sfd_private c ?s \<noteq> 0 \<or> sfd_shared c ?s \<noteq> 0)" "\<not> sfd_interrupted ?s" "\<not> nonblocking f ?s"
    using assms(3,6) s by (simp_all add: sfd_private_def sfd_shared_def sfd_interrupted_def nonblocking_def and.assoc [symmetric])
  have "wait_loop (sfd_read_try c ok) (nonblocking f) sfd_interrupted (replicate n (\<lambda>s. s)) ?s = None"
    by (induction n) (simp_all add: sfd_read.loop_sleeps
        [where st = ?s and c = c and nb = "nonblocking f" and intr = sfd_interrupted, OF nr(1) nr(3) nr(2)])
  moreover have "file_wq_get f ?s = (Some w, ?s)" using assms(2) s by (simp add: file_wq_get_def wq_alloc_def)
  ultimately show ?thesis using tif assms(1) s by (simp add: signalfd_do_read_def)
qed

theorem signalfd_misses_shared_witness:
  "tif_sigpending (recalc_sigpending ((demo_file FD_SIGNALFD)\<lparr>shared_pending := Some 0x2\<rparr>)) \<and>
   signalfd_do_read 1 True (replicate 5 (\<lambda>s. s)) (recalc_sigpending ((demo_file FD_SIGNALFD)\<lparr>shared_pending := Some 0x2\<rparr>)) = None"
  by (rule signalfd_misses_shared [where c = 2 and w = 9 and sp = 2])
    (simp_all add: demo_file_def demo_k_def zero_file_def nonblocking_def has_bits_def)

end
