(* ===== verification/Lost_Wakeup.thy ===== *)
theory Lost_Wakeup
  imports Event_Files Wait_Queue
begin

text \<open>
  Readers and writers of one blocking eventfd running concurrently: \<open>eventfd_do_read\<close> and
  \<open>eventfd_do_write\<close> split at their shared accesses, with \<open>file_wq_get\<close> and \<open>wq_alloc\<close>
  (\<open>file_wq.c\<close>), the registration on the wait queue, the BLOCKED mark at the head of the loop, the
  section under \<open>ctx->lock\<close>, \<open>__wake_up\<close> and \<open>schedule()\<close> as separate steps. A wait queue is the
  list of its waiters, which is what the pointer model of wait queues refines.
\<close>

subsection \<open>Tasks\<close>

datatype role = Reader | Writer u64

datatype pc =
    Start role
  | Alloc role
  | Enrol role "nat option"
  | Prep role "nat option"
  | Check role "nat option"
  | Wake role "nat option"
  | Sleep role "nat option"
  | Leaving role "nat option"
  | Finished

record cst =
  c_ctx :: eventfd_ctx
  c_fwq :: "nat option"
  c_fresh :: nat
  c_members :: "nat \<Rightarrow> nat list"
  c_pc :: "nat \<Rightarrow> pc"
  c_state :: "nat \<Rightarrow> task_state"

text \<open>The section under the lock: the new context when the operation can proceed.\<close>

fun role_try :: "role \<Rightarrow> eventfd_ctx \<Rightarrow> eventfd_ctx option" where
  "role_try Reader ctx = map_option snd (efd_take ctx)"
| "role_try (Writer v) ctx = efd_add v ctx"

text \<open>The wait entry of an event file: callback installed, not exclusive, data is the task.\<close>

definition efd_wait :: "nat \<Rightarrow> wait_queue_t" where
  "efd_wait t = \<lparr>wq_func = True, wq_data = t, wq_exclusive = False\<rparr>"

definition goto :: "nat \<Rightarrow> pc \<Rightarrow> cst \<Rightarrow> cst" where
  "goto t p s = s\<lparr>c_pc := (c_pc s)(t := p)\<rparr>"

definition set_state :: "nat \<Rightarrow> task_state \<Rightarrow> cst \<Rightarrow> cst" where
  "set_state t x s = s\<lparr>c_state := (c_state s)(t := x)\<rparr>"

definition set_members :: "nat \<Rightarrow> nat list \<Rightarrow> cst \<Rightarrow> cst" where
  "set_members w ts s = s\<lparr>c_members := (c_members s)(w := ts)\<rparr>"

definition wake_queue :: "nat option \<Rightarrow> cst \<Rightarrow> cst" where
  "wake_queue wq s =
     (case wq of None \<Rightarrow> s
      | Some w \<Rightarrow> s\<lparr>c_state := run_callbacks efd_wait (woken efd_wait (c_members s w)) (c_state s)\<rparr>)"

inductive efd_cstep :: "cst \<Rightarrow> cst \<Rightarrow> bool" where
  wq_hit: "c_pc s t = Start r \<Longrightarrow> c_fwq s = Some w \<Longrightarrow> efd_cstep s (goto t (Enrol r (Some w)) s)"
| wq_miss: "c_pc s t = Start r \<Longrightarrow> c_fwq s = None \<Longrightarrow> efd_cstep s (goto t (Alloc r) s)"
| wq_store: "c_pc s t = Alloc r \<Longrightarrow>
    efd_cstep s (goto t (Enrol r (Some (c_fresh s)))
      ((set_members (c_fresh s) [] s)\<lparr>c_fwq := Some (c_fresh s), c_fresh := Suc (c_fresh s)\<rparr>))"
| wq_oom: "c_pc s t = Alloc r \<Longrightarrow> efd_cstep s (goto t (Enrol r None) s)"
| enrol: "c_pc s t = Enrol r (Some w) \<Longrightarrow> efd_cstep s (goto t (Prep r (Some w)) (set_members w (c_members s w @ [t]) s))"
| enrol_none: "c_pc s t = Enrol r None \<Longrightarrow> efd_cstep s (goto t (Prep r None) s)"
| prep: "c_pc s t = Prep r wq \<Longrightarrow> efd_cstep s (goto t (Check r wq) (set_state t BLOCKED s))"
| check_ok: "c_pc s t = Check r wq \<Longrightarrow> role_try r (c_ctx s) = Some ctx \<Longrightarrow>
    efd_cstep s (goto t (Wake r wq) (s\<lparr>c_ctx := ctx\<rparr>))"
| check_sleep: "c_pc s t = Check r wq \<Longrightarrow> role_try r (c_ctx s) = None \<Longrightarrow> efd_cstep s (goto t (Sleep r wq) s)"
| check_quit: "c_pc s t = Check r wq \<Longrightarrow> role_try r (c_ctx s) = None \<Longrightarrow>
    efd_cstep s (goto t (Leaving r wq) (set_state t RUNNING s))"
| wake: "c_pc s t = Wake r wq \<Longrightarrow> efd_cstep s (goto t (Leaving r wq) (set_state t RUNNING (wake_queue wq s)))"
| resume: "c_pc s t = Sleep r wq \<Longrightarrow> c_state s t \<noteq> BLOCKED \<Longrightarrow> efd_cstep s (goto t (Prep r wq) (set_state t RUNNING s))"
| leave: "c_pc s t = Leaving r (Some w) \<Longrightarrow>
    efd_cstep s (goto t Finished (set_state t RUNNING (set_members w (remove1 t (c_members s w)) s)))"
| leave_none: "c_pc s t = Leaving r None \<Longrightarrow> efd_cstep s (goto t Finished (set_state t RUNNING s))"

text \<open>Only a task that has not returned and is not blocked moves.\<close>

lemma efd_cstep_mover: "efd_cstep s s' \<Longrightarrow> \<exists>t. c_pc s t \<noteq> Finished \<and> (\<forall>r wq. c_pc s t = Sleep r wq \<longrightarrow> c_state s t \<noteq> BLOCKED)"
  by (induction rule: efd_cstep.induct) (rule_tac x = t in exI, simp)+

lemmas cst_simps = goto_def set_state_def set_members_def

subsection \<open>A queue that exists: no wake-up is lost\<close>

fun enrolled :: "nat \<Rightarrow> pc \<Rightarrow> bool" where
  "enrolled w (Prep r wq) \<longleftrightarrow> wq = Some w"
| "enrolled w (Check r wq) \<longleftrightarrow> wq = Some w"
| "enrolled w (Wake r wq) \<longleftrightarrow> wq = Some w"
| "enrolled w (Sleep r wq) \<longleftrightarrow> wq = Some w"
| "enrolled w (Leaving r wq) \<longleftrightarrow> wq = Some w"
| "enrolled w _ \<longleftrightarrow> False"

fun pc_ok :: "nat \<Rightarrow> pc \<Rightarrow> bool" where
  "pc_ok w (Start r) \<longleftrightarrow> True"
| "pc_ok w (Alloc r) \<longleftrightarrow> False"
| "pc_ok w (Enrol r wq) \<longleftrightarrow> wq = Some w"
| "pc_ok w Finished \<longleftrightarrow> True"
| "pc_ok w p \<longleftrightarrow> enrolled w p"

text \<open>A sleeper that could proceed is about to be woken.\<close>

definition covered :: "cst \<Rightarrow> nat \<Rightarrow> bool" where
  "covered s t \<longleftrightarrow>
     (\<forall>r wq. c_pc s t = Sleep r wq \<and> c_state s t = BLOCKED \<and> role_try r (c_ctx s) \<noteq> None \<longrightarrow>
        (\<exists>u r' wq'. c_pc s u = Wake r' wq'))"

definition cst_inv :: "nat \<Rightarrow> cst \<Rightarrow> bool" where
  "cst_inv w s \<longleftrightarrow> c_fwq s = Some w \<and>
     (\<forall>t. pc_ok w (c_pc s t) \<and> (enrolled w (c_pc s t) \<longrightarrow> t \<in> set (c_members s w)) \<and> covered s t)"

lemma wake_queue_state:
  "c_state (wake_queue (Some w) s) t = (if c_state s t = BLOCKED \<and> t \<in> set (c_members s w) then READY else c_state s t)"
  by (auto simp: wake_queue_def run_callbacks_wakes woken_def efd_wait_def)

lemma wake_queue_frame [simp]:
  "c_pc (wake_queue wq s) = c_pc s" "c_fwq (wake_queue wq s) = c_fwq s" "c_members (wake_queue wq s) = c_members s"
  "c_ctx (wake_queue wq s) = c_ctx s"
  by (simp_all add: wake_queue_def split: option.split)

lemma remove1_other: "t \<noteq> u \<Longrightarrow> t \<in> set (remove1 u xs) \<longleftrightarrow> t \<in> set xs"
  by (metis in_set_remove1)

lemma cst_invD:
  assumes "cst_inv w s"
  shows "c_fwq s = Some w" and "pc_ok w (c_pc s t)" and "enrolled w (c_pc s t) \<Longrightarrow> t \<in> set (c_members s w)" and "covered s t"
  using assms by (simp_all add: cst_inv_def)

text \<open>A step that changes neither the counter nor the other tasks keeps the invariant.\<close>

lemma cst_inv_move:
  assumes inv: "cst_inv w s" and now: "\<forall>r wq. c_pc s t \<noteq> Wake r wq"
    and s': "c_fwq s' = c_fwq s" "c_pc s' = (c_pc s)(t := p)" "c_ctx s' = c_ctx s"
    and p: "pc_ok w p" "enrolled w p \<Longrightarrow> t \<in> set (c_members s' w)" "\<And>r wq. p = Sleep r wq \<Longrightarrow> role_try r (c_ctx s) = None"
    and others: "\<And>u. u \<noteq> t \<Longrightarrow> c_state s' u = c_state s u \<and> (u \<in> set (c_members s w) \<longrightarrow> u \<in> set (c_members s' w))"
  shows "cst_inv w s'"
proof -
  have "covered s' u" for u
  proof (cases "u = t")
    case True
    then show ?thesis using s' p(3) by (auto simp: covered_def)
  next
    case False
    have "\<exists>v r' wq'. c_pc s' v = Wake r' wq'" if "\<exists>v r' wq'. c_pc s v = Wake r' wq'"
      using that now s'(2) by (metis fun_upd_other)
    then show ?thesis using cst_invD(4) [OF inv, of u] False s' others [OF False] by (simp add: covered_def)
  qed
  then show ?thesis using cst_invD(1-3) [OF inv] s' p(1,2) others by (simp add: cst_inv_def)
qed

lemma cst_inv_check_ok:
  assumes "cst_inv w s" and "c_pc s t = Check r wq"
  shows "cst_inv w (goto t (Wake r wq) (s\<lparr>c_ctx := ctx\<rparr>))"
proof -
  have "covered (goto t (Wake r wq) (s\<lparr>c_ctx := ctx\<rparr>)) u" for u
    by (auto simp: covered_def cst_simps)
  then show ?thesis using cst_invD(1-3) [OF assms(1)] cst_invD(2,3) [OF assms(1), of t] assms(2)
    by (auto simp: cst_inv_def cst_simps)
qed

lemma cst_inv_wake:
  assumes inv: "cst_inv w s" and t: "c_pc s t = Wake r wq"
  shows "cst_inv w (goto t (Leaving r wq) (set_state t RUNNING (wake_queue wq s)))" (is "cst_inv w ?s")
proof -
  have wq: "wq = Some w" using cst_invD(2) [OF inv, of t] t by simp
  have "covered ?s u" for u
  proof (cases "\<exists>r' wq'. u \<noteq> t \<and> c_pc s u = Sleep r' wq'")
    case True
    then have "u \<in> set (c_members s w)" using cst_invD(2,3) [OF inv, of u] by auto
    then show ?thesis using True wq by (auto simp: covered_def cst_simps wake_queue_state)
  qed (auto simp: covered_def cst_simps)
  then show ?thesis using cst_invD(1-3) [OF inv] cst_invD(3) [OF inv, of t] t wq by (auto simp: cst_inv_def cst_simps)
qed

lemma cst_inv_step: "efd_cstep s s' \<Longrightarrow> cst_inv w s \<Longrightarrow> cst_inv w s'"
proof (induction rule: efd_cstep.induct)
  case (wq_hit s t r v)
  show ?case by (rule cst_inv_move [OF wq_hit.prems, of t _ "Enrol r (Some v)"]) (use wq_hit cst_invD(1) [of w s] in \<open>auto simp: cst_simps\<close>)
next
  case (wq_miss s t r)
  then show ?case using cst_invD(1) [of w s] by simp
next
  case (wq_store s t r)
  then show ?case using cst_invD(2) [of w s t] by simp
next
  case (wq_oom s t r)
  then show ?case using cst_invD(2) [of w s t] by simp
next
  case (enrol s t r v)
  show ?case by (rule cst_inv_move [OF enrol.prems, of t _ "Prep r (Some v)"]) (use enrol cst_invD(2) [of w s t] in \<open>auto simp: cst_simps\<close>)
next
  case (enrol_none s t r)
  then show ?case using cst_invD(2) [of w s t] by simp
next
  case (prep s t r wq)
  show ?case by (rule cst_inv_move [OF prep.prems, of t _ "Check r wq"]) (use prep cst_invD(2,3) [of w s t] in \<open>auto simp: cst_simps\<close>)
next
  case (check_ok s t r wq ctx)
  then show ?case by (simp add: cst_inv_check_ok)
next
  case (check_sleep s t r wq)
  show ?case by (rule cst_inv_move [OF check_sleep.prems, of t _ "Sleep r wq"]) (use check_sleep cst_invD(2,3) [of w s t] in \<open>auto simp: cst_simps\<close>)
next
  case (check_quit s t r wq)
  show ?case by (rule cst_inv_move [OF check_quit.prems, of t _ "Leaving r wq"]) (use check_quit cst_invD(2,3) [of w s t] in \<open>auto simp: cst_simps\<close>)
next
  case (wake s t r wq)
  then show ?case by (simp add: cst_inv_wake)
next
  case (resume s t r wq)
  show ?case by (rule cst_inv_move [OF resume.prems, of t _ "Prep r wq"]) (use resume cst_invD(2,3) [of w s t] in \<open>auto simp: cst_simps\<close>)
next
  case (leave s t r v)
  show ?case by (rule cst_inv_move [OF leave.prems, of t _ Finished]) (use leave cst_invD(2) [of w s t] in \<open>auto simp: cst_simps remove1_other\<close>)
next
  case (leave_none s t r)
  then show ?case using cst_invD(2) [of w s t] by simp
qed

subsection \<open>Scheduling by name\<close>

text \<open>The step of task \<open>t\<close> when allocations succeed and a task that cannot proceed sleeps.\<close>

definition efd_do :: "nat \<Rightarrow> cst \<Rightarrow> cst option" where
  "efd_do t s =
     (case c_pc s t of
        Start r \<Rightarrow> Some (case c_fwq s of Some w \<Rightarrow> goto t (Enrol r (Some w)) s | None \<Rightarrow> goto t (Alloc r) s)
      | Alloc r \<Rightarrow> Some (goto t (Enrol r (Some (c_fresh s)))
          ((set_members (c_fresh s) [] s)\<lparr>c_fwq := Some (c_fresh s), c_fresh := Suc (c_fresh s)\<rparr>))
      | Enrol r wq \<Rightarrow>
          Some (case wq of Some w \<Rightarrow> goto t (Prep r (Some w)) (set_members w (c_members s w @ [t]) s) | None \<Rightarrow> goto t (Prep r None) s)
      | Prep r wq \<Rightarrow> Some (goto t (Check r wq) (set_state t BLOCKED s))
      | Check r wq \<Rightarrow>
          Some (case role_try r (c_ctx s) of Some ctx \<Rightarrow> goto t (Wake r wq) (s\<lparr>c_ctx := ctx\<rparr>) | None \<Rightarrow> goto t (Sleep r wq) s)
      | Wake r wq \<Rightarrow> Some (goto t (Leaving r wq) (set_state t RUNNING (wake_queue wq s)))
      | Sleep r wq \<Rightarrow> if c_state s t = BLOCKED then None else Some (goto t (Prep r wq) (set_state t RUNNING s))
      | Leaving r wq \<Rightarrow>
          Some (case wq of Some w \<Rightarrow> goto t Finished (set_state t RUNNING (set_members w (remove1 t (c_members s w)) s))
                | None \<Rightarrow> goto t Finished (set_state t RUNNING s))
      | Finished \<Rightarrow> None)"

primrec efd_run :: "nat list \<Rightarrow> cst \<Rightarrow> cst option" where
  "efd_run [] s = Some s"
| "efd_run (t # ts) s = (case efd_do t s of None \<Rightarrow> None | Some s' \<Rightarrow> efd_run ts s')"

lemma efd_do_step: "efd_do t s = Some s' \<Longrightarrow> efd_cstep s s'"
  by (auto simp: efd_do_def intro: efd_cstep.intros split: pc.splits option.splits if_splits)

lemma efd_run_reach: "efd_run ts s = Some s' \<Longrightarrow> efd_cstep\<^sup>*\<^sup>* s s'"
proof (induction ts arbitrary: s)
  case (Cons t ts)
  then show ?case by (auto split: option.splits intro: converse_rtranclp_into_rtranclp efd_do_step)
qed simp

subsection \<open>Properties\<close>

text \<open>
  C22. No lost wake-up: when the file already has its wait queue, under every interleaving of any
  number of readers and writers of a blocking eventfd, a task that sleeps although its operation
  could proceed is always about to be woken by another task.
\<close>

theorem eventfd_no_lost_wakeup:
  assumes "efd_cstep\<^sup>*\<^sup>* s0 s" and "c_fwq s0 = Some w" and "\<forall>t. c_pc s0 t = Finished \<or> (\<exists>r. c_pc s0 t = Start r)"
    and "c_pc s t = Sleep r wq" and "c_state s t = BLOCKED" and "role_try r (c_ctx s) \<noteq> None"
  shows "\<exists>u r' wq'. c_pc s u = Wake r' wq'"
proof -
  have "pc_ok w (c_pc s0 u) \<and> \<not> enrolled w (c_pc s0 u) \<and> (\<forall>r wq. c_pc s0 u \<noteq> Sleep r wq)" for u
    using spec [OF assms(3), of u] by auto
  then have "cst_inv w s0" using assms(2) by (simp add: cst_inv_def covered_def)
  with assms(1) have "cst_inv w s" by (induction rule: rtranclp_induct) (auto intro: cst_inv_step)
  then have "covered s t" by (simp add: cst_inv_def)
  then show ?thesis using assms(4-6) unfolding covered_def by blast
qed

definition pair_start :: "nat option \<Rightarrow> cst" where
  "pair_start wq = \<lparr>c_ctx = \<lparr>count = 0, efd_flags = 0\<rparr>, c_fwq = wq, c_fresh = 1, c_members = (\<lambda>_. []),
     c_pc = (\<lambda>t. if t = 0 then Start Reader else if t = 1 then Start (Writer 1) else Finished), c_state = (\<lambda>_. RUNNING)\<rparr>"

lemma efd_add_1 [simp]: "efd_add (Suc 0) \<lparr>count = 0, efd_flags = 0\<rparr> = Some \<lparr>count = 1, efd_flags = 0\<rparr>"
proof -
  have "sub64 EVENTFD_MAX 1 = EVENTFD_MAX - 1" by (rule sub64_max) (simp add: EVENTFD_MAX_def)
  then show ?thesis unfolding efd_add_def by (simp add: add64_small U64_def)
qed

lemma efd_take_0 [simp]: "efd_take \<lparr>count = 0, efd_flags = 0\<rparr> = None"
  by (simp add: efd_take_def)

theorem eventfd_no_lost_wakeup_witness:
  "\<exists>s. efd_cstep\<^sup>*\<^sup>* (pair_start (Some 0)) s \<and> c_pc s 0 = Sleep Reader (Some 0) \<and> c_state s 0 = BLOCKED \<and>
     role_try Reader (c_ctx s) \<noteq> None \<and> (\<exists>u r' wq'. c_pc s u = Wake r' wq')"
proof -
  obtain s where s: "efd_run [0, 0, 0, 0, 1, 1, 1, 1] (pair_start (Some 0)) = Some s" "c_pc s 0 = Sleep Reader (Some 0)"
    "c_state s 0 = BLOCKED" "role_try Reader (c_ctx s) \<noteq> None"
    by (simp add: efd_do_def pair_start_def cst_simps efd_take_def)
  show ?thesis
    using s eventfd_no_lost_wakeup [OF efd_run_reach [OF s(1)], of 0 0 Reader "Some 0"] efd_run_reach [OF s(1)]
    by (auto simp: pair_start_def)
qed

text \<open>
  C23. The lazily allocated queue can lose the wake-up: \<open>file_wq_get\<close> tests and stores \<open>f->wq\<close> without a
  lock, so a first reader and a first writer can each allocate a queue. There is a run after which
  the writer has returned, the counter is positive and the reader sleeps on the abandoned queue,
  with no step of the system left.
\<close>

theorem eventfd_lazy_queue_race:
  "\<exists>s. efd_cstep\<^sup>*\<^sup>* (pair_start None) s \<and> c_pc s 0 = Sleep Reader (Some 1) \<and> c_pc s 1 = Finished \<and>
     0 < count (c_ctx s) \<and> Collect (efd_cstep s) = {}"
proof -
  obtain s where s: "efd_run [0, 1, 0, 0, 0, 0, 1, 1, 1, 1, 1, 1] (pair_start None) = Some s" "c_pc s 0 = Sleep Reader (Some 1)"
    "c_pc s 1 = Finished" "0 < count (c_ctx s)" "c_state s 0 = BLOCKED" "\<forall>t. t \<noteq> 0 \<longrightarrow> c_pc s t = Finished"
    by (simp add: efd_do_def pair_start_def cst_simps wake_queue_def run_callbacks_def woken_def efd_wait_def wake_wq_target_def)
  have "\<not> efd_cstep s s'" for s'
  proof
    assume "efd_cstep s s'"
    then obtain t where "c_pc s t \<noteq> Finished" "\<forall>r wq. c_pc s t = Sleep r wq \<longrightarrow> c_state s t \<noteq> BLOCKED"
      using efd_cstep_mover by blast
    then show False using s(2,5,6) by (cases "t = 0") auto
  qed
  then show ?thesis using s efd_run_reach [OF s(1)] by auto
qed

end
