(* ===== verification/Futex.thy ===== *)
theory Futex
  imports Wait_Queue "HOL-Library.Word"
begin

unbundle bit_operations_syntax

text \<open>
  Futexes (\<open>kernel/bsd/futex.c\<close>): \<open>sys_futex\<close> with FUTEX_WAIT, FUTEX_WAKE, FUTEX_REQUEUE and
  FUTEX_CMP_REQUEUE, and the robust-list walk at thread exit.

  A bucket is the list of the tasks linked into it. Each section under a bucket lock is one
  function on the state; while a waiter sleeps the rest of the system changes the state by a
  function \<open>env\<close>, in the properties any sequence of the sections of this file and of timer, signal
  and user-memory events. The requeue loop, which need not end, is a partial function.
\<close>

subsection \<open>State\<close>

record fut =
  bkt :: "nat \<Rightarrow> nat list"
  fuaddr :: "nat \<Rightarrow> u64" \<comment> \<open>address waited on, 0 when not waiting\<close>
  fcr3 :: "nat \<Rightarrow> u64"
  tst :: "nat \<Rightarrow> task_state"
  on_futex :: "nat \<Rightarrow> bool" \<comment> \<open>\<open>wait_event\<close> is WAIT_FUTEX\<close>
  sigp :: "nat \<Rightarrow> bool"
  timed_out :: "nat \<Rightarrow> bool"
  deadline :: "nat \<Rightarrow> u64 option" \<comment> \<open>the armed wait timer, \<open>None\<close> when not in the timer queue\<close>
  robust :: "nat \<Rightarrow> u64 \<times> u64" \<comment> \<open>\<open>robust_list_head\<close> and \<open>robust_list_len\<close>\<close>
  umem :: "u64 \<Rightarrow> u64 \<Rightarrow> nat option" \<comment> \<open>32-bit user words by address space and address, \<open>None\<close> where a read faults\<close>
  uwritable :: "u64 \<Rightarrow> u64 \<Rightarrow> bool"

definition FUTEX_HASH_SIZE :: nat where "FUTEX_HASH_SIZE = 64"
definition FUTEX_WAKE_BATCH :: nat where "FUTEX_WAKE_BATCH = 32"
definition FUTEX_TID_MASK :: nat where "FUTEX_TID_MASK = 0x3fffffff"
definition FUTEX_OWNER_DIED :: nat where "FUTEX_OWNER_DIED = 0x40000000"
definition ROBUST_LIST_LIMIT :: nat where "ROBUST_LIST_LIMIT = 2048"

definition futex_hash :: "u64 \<Rightarrow> u64 \<Rightarrow> nat" where
  "futex_hash cr3 page_off = drop_bit 3 (cr3 XOR page_off) AND (FUTEX_HASH_SIZE - 1)"

definition futex_bucket :: "fut \<Rightarrow> nat \<Rightarrow> u64 \<Rightarrow> nat" where
  "futex_bucket st cur ua = futex_hash (fcr3 st cur) (drop_bit 12 ua)"

definition wake_with_event :: "nat \<Rightarrow> fut \<Rightarrow> fut" where
  "wake_with_event t st =
     (if tst st t = BLOCKED \<and> on_futex st t
      then st\<lparr>tst := (tst st)(t := READY), on_futex := (on_futex st)(t := False),
              deadline := (deadline st)(t := None), timed_out := (timed_out st)(t := False)\<rparr> else st)"

text \<open>\<open>list_remove\<close> of a task's node: it leaves whichever bucket it is linked into.\<close>

definition unlink :: "nat \<Rightarrow> fut \<Rightarrow> fut" where
  "unlink t st = st\<lparr>bkt := (\<lambda>b. remove1 t (bkt st b)), fuaddr := (fuaddr st)(t := 0)\<rparr>"

subsection \<open>FUTEX_WAKE\<close>

text \<open>The walk under the bucket lock: at most \<open>n\<close> matching waiters are taken out.\<close>

fun wake_scan :: "(nat \<Rightarrow> u64) \<Rightarrow> u64 \<Rightarrow> nat \<Rightarrow> nat list \<Rightarrow> nat list \<times> nat list" where
  "wake_scan fu ua n [] = ([], [])"
| "wake_scan fu ua 0 (t # ts) = ([], t # ts)"
| "wake_scan fu ua (Suc n) (t # ts) =
     (if fu t = ua then let (w, r) = wake_scan fu ua n ts in (t # w, r)
      else let (w, r) = wake_scan fu ua (Suc n) ts in (w, t # r))"

definition wake_batch :: "nat \<Rightarrow> u64 \<Rightarrow> nat \<Rightarrow> fut \<Rightarrow> nat list \<times> fut" where
  "wake_batch b ua batch st =
     (let (w, r) = wake_scan (fuaddr st) ua batch (bkt st b);
          st = st\<lparr>bkt := (bkt st)(b := r), fuaddr := (\<lambda>t. if t \<in> set w then 0 else fuaddr st t)\<rparr>
      in (w, fold wake_with_event w st))"

function wake_loop :: "nat \<Rightarrow> u64 \<Rightarrow> nat \<Rightarrow> nat \<Rightarrow> fut \<Rightarrow> nat \<times> fut" where
  "wake_loop b ua val tot st =
     (if tot < val then
        let batch = min (val - tot) FUTEX_WAKE_BATCH;
            (w, st) = wake_batch b ua batch st
        in if length w < batch then (tot + length w, st) else wake_loop b ua val (tot + length w) st
      else (tot, st))"
  by pat_completeness auto
termination
  by (relation "measure (\<lambda>(_, _, val, tot, _). val - tot)") (auto simp: FUTEX_WAKE_BATCH_def min_def split: if_splits)

declare wake_loop.simps [simp del]

text \<open>The user's count, read as a C \<open>int\<close>; a negative one wakes nobody.\<close>

definition int_count :: "int \<Rightarrow> nat" where
  "int_count v = nat (wrap32s v)"

definition futex_wake :: "nat \<Rightarrow> u64 \<Rightarrow> int \<Rightarrow> fut \<Rightarrow> nat result \<times> fut" where
  "futex_wake cur ua val st =
     (let (n, st) = wake_loop (futex_bucket st cur ua) ua (int_count val) 0 st in (Inr n, st))"

subsection \<open>FUTEX_WAIT\<close>

definition NSEC_PER_SEC :: nat where "NSEC_PER_SEC = 1000000000"

definition futex_timeout :: "nat \<Rightarrow> nat \<Rightarrow> u64" where
  "futex_timeout s n =
     (if (UINT64_MAX - n) div NSEC_PER_SEC < s then UINT64_MAX else add64 (mul64 s NSEC_PER_SEC) n)"

definition futex_deadline :: "u64 \<Rightarrow> u64 \<Rightarrow> u64" where
  "futex_deadline now t = (if UINT64_MAX - now < t then UINT64_MAX else add64 now t)"

text \<open>
  \<open>ts\<close>: no timeout, an unreadable one, or its seconds and nanoseconds. \<open>env\<close>: what the system does
  while the caller sleeps, up to the moment it runs again.
\<close>

definition futex_enqueue :: "nat \<Rightarrow> u64 \<Rightarrow> fut \<Rightarrow> fut" where
  "futex_enqueue cur ua st =
     (let b = futex_bucket st cur ua
      in st\<lparr>fuaddr := (fuaddr st)(cur := ua), bkt := (bkt st)(b := bkt st b @ [cur])\<rparr>)"

definition futex_cleanup :: "nat \<Rightarrow> fut \<Rightarrow> fut" where
  "futex_cleanup cur st = (if fuaddr st cur \<noteq> 0 then unlink cur st else st)"

definition futex_wait ::
  "nat \<Rightarrow> u64 \<Rightarrow> nat \<Rightarrow> (int \<times> int) option option \<Rightarrow> u64 \<Rightarrow> (fut \<Rightarrow> fut) \<Rightarrow> fut \<Rightarrow> unit result \<times> fut" where
  "futex_wait cur ua val ts now env st =
     (case umem st (fcr3 st cur) ua of
        None \<Rightarrow> (Inl EFAULT, st)
      | Some cur_val \<Rightarrow>
          if cur_val \<noteq> val then (Inl EAGAIN, st)
          else
            let st = futex_enqueue cur ua st
            in (case ts of
                  Some None \<Rightarrow> (Inl EFAULT, unlink cur st)
                | _ \<Rightarrow>
                  if (case ts of Some (Some (s, n)) \<Rightarrow> s < 0 \<or> n < 0 \<or> int NSEC_PER_SEC \<le> n | _ \<Rightarrow> False) then (Inl EINVAL, unlink cur st)
                  else
                    let dl = (case ts of Some (Some (s, n)) \<Rightarrow> Some (futex_deadline now (futex_timeout (nat s) (nat n))) | _ \<Rightarrow> None);
                        intr = (if ts = None then ERESTART else EINTR);
                        st = st\<lparr>timed_out := (timed_out st)(cur := False), deadline := (if ts = None then deadline st else (deadline st)(cur := dl)),
                                on_futex := (on_futex st)(cur := True), tst := (tst st)(cur := BLOCKED)\<rparr>
                    in if sigp st cur then
                      let st = st\<lparr>tst := (tst st)(cur := RUNNING), on_futex := (on_futex st)(cur := False),
                                  deadline := (if ts = None then deadline st else (deadline st)(cur := None))\<rparr>
                      in (Inl intr, futex_cleanup cur st)
                    else
                      let st = env st;
                          r = (if sigp st cur then Inl intr else if timed_out st cur then Inl ETIMEDOUT else Inr ())
                      in (r, futex_cleanup cur st)))"

subsection \<open>FUTEX_REQUEUE\<close>

text \<open>
  The walk over the first bucket: \<open>keep\<close> is what has been passed and stays, \<open>todo\<close> what is ahead.
  A requeued waiter goes to the end of the second bucket, which is the end of the walk itself when
  both addresses share a bucket; the successor is read before the move, so that the walk ends there
  when the last node of a shared bucket is requeued.
\<close>

record rq =
  rq_woken :: nat
  rq_requeued :: nat
  rq_batch :: "nat list" \<comment> \<open>to wake after unlocking\<close>
  rq_fuaddr :: "nat \<Rightarrow> u64"
  rq_keep :: "nat list"
  rq_other :: "nat list" \<comment> \<open>the second bucket\<close>

function requeue_walk :: "bool \<Rightarrow> u64 \<Rightarrow> u64 \<Rightarrow> nat \<Rightarrow> nat \<Rightarrow> nat \<Rightarrow> nat list \<Rightarrow> rq \<Rightarrow> nat list \<times> rq" where
  "requeue_walk same ua1 ua2 nr_wake nr_requeue batch_wake todo q =
     (case todo of
        [] \<Rightarrow> ([], q)
      | t # ts \<Rightarrow>
          if nr_wake \<le> rq_woken q \<and> nr_requeue \<le> rq_requeued q then (todo, q)
          else if rq_fuaddr q t \<noteq> ua1 then
            requeue_walk same ua1 ua2 nr_wake nr_requeue batch_wake ts (q\<lparr>rq_keep := rq_keep q @ [t]\<rparr>)
          else if rq_woken q < nr_wake \<and> length (rq_batch q) < batch_wake then
            requeue_walk same ua1 ua2 nr_wake nr_requeue batch_wake ts
              (q\<lparr>rq_batch := rq_batch q @ [t], rq_fuaddr := (rq_fuaddr q)(t := 0), rq_woken := rq_woken q + 1\<rparr>)
          else if rq_requeued q < nr_requeue then
            let q = q\<lparr>rq_fuaddr := (rq_fuaddr q)(t := ua2), rq_requeued := rq_requeued q + 1\<rparr>
            in if same then
                 if ts = [] then ([t], q) else requeue_walk same ua1 ua2 nr_wake nr_requeue batch_wake (ts @ [t]) q
               else requeue_walk same ua1 ua2 nr_wake nr_requeue batch_wake ts (q\<lparr>rq_other := rq_other q @ [t]\<rparr>)
          else requeue_walk same ua1 ua2 nr_wake nr_requeue batch_wake ts (q\<lparr>rq_keep := rq_keep q @ [t]\<rparr>))"
  by pat_completeness auto
termination
  by (relation "measures [\<lambda>(_, _, _, _, nr, _, _, q). nr - rq_requeued q, \<lambda>(_, _, _, _, _, _, todo, _). length todo]") auto

declare requeue_walk.simps [simp del]

text \<open>One round of the outer loop: the walk under both locks, then the wake-ups.\<close>

definition requeue_pass ::
  "nat \<Rightarrow> nat \<Rightarrow> u64 \<Rightarrow> u64 \<Rightarrow> nat \<Rightarrow> nat \<Rightarrow> nat \<Rightarrow> nat \<Rightarrow> fut \<Rightarrow> nat \<times> nat \<times> nat \<times> fut" where
  "requeue_pass b1 b2 ua1 ua2 nr_wake nr_requeue wk rqd st =
     (let batch_wake = min (nr_wake - wk) FUTEX_WAKE_BATCH;
          q0 = \<lparr>rq_woken = wk, rq_requeued = rqd, rq_batch = [], rq_fuaddr = fuaddr st, rq_keep = [],
                rq_other = bkt st b2\<rparr>;
          (rest, q) = requeue_walk (b1 = b2) ua1 ua2 nr_wake nr_requeue batch_wake (bkt st b1) q0;
          bk = (if b1 = b2 then (bkt st)(b1 := rq_keep q @ rest)
                else (bkt st)(b1 := rq_keep q @ rest, b2 := rq_other q));
          st = st\<lparr>bkt := bk, fuaddr := rq_fuaddr q\<rparr>
      in (length (rq_batch q), rq_woken q, rq_requeued q, fold wake_with_event (rq_batch q) st))"

partial_function (option) requeue_loop ::
  "nat \<Rightarrow> nat \<Rightarrow> u64 \<Rightarrow> u64 \<Rightarrow> nat \<Rightarrow> nat \<Rightarrow> nat \<Rightarrow> nat \<Rightarrow> fut \<Rightarrow> (nat \<times> fut) option" where
  "requeue_loop b1 b2 ua1 ua2 nr_wake nr_requeue wk rqd st =
     (if wk < nr_wake \<or> rqd < nr_requeue then
        let batch_wake = min (nr_wake - wk) FUTEX_WAKE_BATCH;
            p = requeue_pass b1 b2 ua1 ua2 nr_wake nr_requeue wk rqd st;
            nwake = fst p; wk = fst (snd p); rqd = fst (snd (snd p)); st = snd (snd (snd p))
        in if nwake < batch_wake \<and> \<not> (rqd < nr_requeue \<and> 0 < rqd) \<and> (rqd = 0 \<or> nr_requeue \<le> rqd)
           then Some (wk + rqd, st)
           else if nwake = 0 \<and> rqd = 0 then Some (wk + rqd, st)
           else requeue_loop b1 b2 ua1 ua2 nr_wake nr_requeue wk rqd st
      else Some (wk + rqd, st))"

text \<open>\<open>cmp\<close>: the expected value of FUTEX_CMP_REQUEUE, 0 when there is none to check.\<close>

definition futex_requeue ::
  "nat \<Rightarrow> u64 \<Rightarrow> u64 \<Rightarrow> int \<Rightarrow> int \<Rightarrow> u64 \<Rightarrow> fut \<Rightarrow> (nat result \<times> fut) option" where
  "futex_requeue cur ua1 ua2 nr_wake nr_requeue cmp st =
     (let go = map_option (\<lambda>(n, st). (Inr n, st))
            (requeue_loop (futex_bucket st cur ua1) (futex_bucket st cur ua2) ua1 ua2
              (int_count nr_wake) (int_count nr_requeue) 0 0 st)
      in if cmp \<noteq> 0 then
        (case umem st (fcr3 st cur) ua1 of
           None \<Rightarrow> Some (Inl EFAULT, st)
         | Some v \<Rightarrow> if v \<noteq> cmp mod 2 ^ 32 then Some (Inl EAGAIN, st) else go)
      else go)"

subsection \<open>Robust lists\<close>

text \<open>
  The list nodes in user memory are a function from node addresses to their \<open>next\<close> pointers, \<open>None\<close>
  where the copy faults; the lock words are user words.
\<close>

definition robust_mark_died :: "nat \<Rightarrow> u64 \<Rightarrow> nat \<Rightarrow> fut \<Rightarrow> fut" where
  "robust_mark_died cur ua tid st =
     (case umem st (fcr3 st cur) ua of
        None \<Rightarrow> st
      | Some uval \<Rightarrow>
          if uval AND FUTEX_TID_MASK \<noteq> tid then st
          else
            let nval = (uval AND FUTEX_TID_MASK) OR FUTEX_OWNER_DIED;
                st = (if uwritable st (fcr3 st cur) ua
                      then st\<lparr>umem := (umem st)(fcr3 st cur := (umem st (fcr3 st cur))(ua := Some nval))\<rparr> else st)
            in snd (futex_wake cur ua 1 st))"

fun robust_walk :: "(u64 \<Rightarrow> u64 option) \<Rightarrow> (u64 \<Rightarrow> u64) \<Rightarrow> nat \<Rightarrow> nat \<Rightarrow> nat \<Rightarrow> u64 \<Rightarrow> fut \<Rightarrow> fut" where
  "robust_walk nxt word cur tid 0 entry st = st"
| "robust_walk nxt word cur tid (Suc i) entry st =
     (if entry = 0 then st
      else (case nxt entry of
          None \<Rightarrow> st
        | Some e \<Rightarrow> robust_walk nxt word cur tid i e (robust_mark_died cur (word entry) tid st)))"

text \<open>\<open>head\<close>: first node, offset of the lock word and pending node, \<open>None\<close> when the head cannot be read.\<close>

definition exit_robust_list ::
  "(u64 \<Rightarrow> u64 option) \<Rightarrow> nat \<Rightarrow> (u64 \<times> int \<times> u64) option \<Rightarrow> nat \<Rightarrow> fut \<Rightarrow> fut" where
  "exit_robust_list nxt cur head tid st =
     (if fst (robust st cur) = 0 then st
      else (case head of
          None \<Rightarrow> st
        | Some (first, foff, pending) \<Rightarrow>
            let word = (\<lambda>e. u64_of_int (int e + foff));
                st = (if pending \<noteq> 0 then robust_mark_died cur (word pending) tid st else st)
            in robust_walk nxt word cur tid ROBUST_LIST_LIMIT first st))"

definition sys_set_robust_list :: "nat \<Rightarrow> u64 \<Rightarrow> u64 \<Rightarrow> fut \<Rightarrow> unit result \<times> fut" where
  "sys_set_robust_list cur head len st =
     (if len \<noteq> 24 then (Inl EINVAL, st) else (Inr (), st\<lparr>robust := (robust st)(cur := (head, len))\<rparr>))"

text \<open>\<open>head_ok\<close> and \<open>len_ok\<close>: \<open>None\<close> when no result is asked for, else whether it can be written.\<close>

definition sys_get_robust_list :: "nat \<Rightarrow> int \<Rightarrow> bool option \<Rightarrow> bool option \<Rightarrow> fut \<Rightarrow> (u64 option \<times> u64 option) result" where
  "sys_get_robust_list cur pid head_ok len_ok st =
     (if wrap32s pid \<noteq> 0 \<and> wrap32s pid \<noteq> int cur then Inl EPERM
      else if head_ok = Some False then Inl EFAULT
      else if len_ok = Some False then Inl EFAULT
      else Inr (if head_ok = None then None else Some (fst (robust st cur)),
                if len_ok = None then None else Some (snd (robust st cur))))"

subsection \<open>The system call\<close>

text \<open>
  The dispatch of \<open>sys_futex\<close> on the operation without FUTEX_PRIVATE. \<open>arg4\<close> is the requeue count or
  the timeout argument \<open>ts\<close>, \<open>arg5\<close> and \<open>arg6\<close> the second address and the compared value.
\<close>

definition sys_futex ::
  "nat \<Rightarrow> u64 \<Rightarrow> nat \<Rightarrow> int \<Rightarrow> int \<Rightarrow> (int \<times> int) option option \<Rightarrow> u64 \<Rightarrow> u64 \<Rightarrow> u64 \<Rightarrow> (fut \<Rightarrow> fut) \<Rightarrow> fut \<Rightarrow>
     (nat result \<times> fut) option" where
  "sys_futex cur ua op val arg4 ts arg5 arg6 now env st =
     (let real_op = op AND 0x7f in
      if real_op = 3 then futex_requeue cur ua arg5 val arg4 0 st
      else if real_op = 4 then futex_requeue cur ua arg6 val arg4 arg5 st
      else if real_op = 1 then Some (futex_wake cur ua val st)
      else if real_op = 0 then
        (case futex_wait cur ua (nat (val mod 2 ^ 32)) ts now env st of
           (Inl e, st) \<Rightarrow> Some (Inl e, st)
         | (Inr _, st) \<Rightarrow> Some (Inr 0, st))
      else Some (Inl ENOSYS, st))"

subsection \<open>Batched wake-up equals one wake-up\<close>

definition waiting_on :: "fut \<Rightarrow> nat \<Rightarrow> u64 \<Rightarrow> nat list" where
  "waiting_on st b ua = filter (\<lambda>t. fuaddr st t = ua) (bkt st b)"

text \<open>The reference: take the first \<open>n\<close> waiters on the address out of the bucket and wake them.\<close>

definition wake_ref :: "nat \<Rightarrow> u64 \<Rightarrow> nat \<Rightarrow> fut \<Rightarrow> fut" where
  "wake_ref b ua n st =
     (let w = take n (waiting_on st b ua)
      in st\<lparr>bkt := (bkt st)(b := filter (\<lambda>t. t \<notin> set w) (bkt st b)),
            fuaddr := (\<lambda>t. if t \<in> set w then 0 else fuaddr st t),
            tst := (\<lambda>t. if t \<in> set w \<and> tst st t = BLOCKED \<and> on_futex st t then READY else tst st t),
            on_futex := (\<lambda>t. if t \<in> set w \<and> tst st t = BLOCKED then False else on_futex st t),
            deadline := (\<lambda>t. if t \<in> set w \<and> tst st t = BLOCKED \<and> on_futex st t then None else deadline st t),
            timed_out := (\<lambda>t. if t \<in> set w \<and> tst st t = BLOCKED \<and> on_futex st t then False else timed_out st t)\<rparr>)"

lemma fold_wake_with_event:
  "fold wake_with_event w st =
     st\<lparr>tst := (\<lambda>t. if t \<in> set w \<and> tst st t = BLOCKED \<and> on_futex st t then READY else tst st t),
        on_futex := (\<lambda>t. if t \<in> set w \<and> tst st t = BLOCKED then False else on_futex st t),
        deadline := (\<lambda>t. if t \<in> set w \<and> tst st t = BLOCKED \<and> on_futex st t then None else deadline st t),
        timed_out := (\<lambda>t. if t \<in> set w \<and> tst st t = BLOCKED \<and> on_futex st t then False else timed_out st t)\<rparr>"
  by (induction w arbitrary: st) (auto simp: wake_with_event_def fun_eq_iff intro!: fut.equality)

lemma wake_scan_spec:
  "distinct ts \<Longrightarrow> wake_scan fu ua n ts =
     (take n (filter (\<lambda>t. fu t = ua) ts), filter (\<lambda>t. t \<notin> set (take n (filter (\<lambda>t. fu t = ua) ts))) ts)"
proof (induction fu ua n ts rule: wake_scan.induct)
  case (3 fu ua n t ts)
  have "filter (\<lambda>x. x \<noteq> t \<and> x \<notin> S) ts = filter (\<lambda>x. x \<notin> S) ts" for S
    using 3(3) by (auto intro!: filter_cong)
  moreover have "t \<notin> set (take (Suc n) (filter (\<lambda>x. fu x = ua) ts))" using 3(3) by (auto dest: in_set_takeD)
  ultimately show ?case using 3 by auto
qed (auto simp: filter_id_conv)

lemma wake_batch_ref:
  assumes "distinct (bkt st b)"
  shows "wake_batch b ua n st = (take n (waiting_on st b ua), wake_ref b ua n st)"
  by (auto simp: wake_batch_def wake_scan_spec [OF assms] waiting_on_def wake_ref_def fold_wake_with_event Let_def fun_eq_iff
      intro!: fut.equality)

lemma waiting_on_ref:
  assumes "distinct (bkt st b)"
  shows "waiting_on (wake_ref b ua n st) b ua = drop n (waiting_on st b ua)"
proof -
  let ?m = "waiting_on st b ua"
  have d: "distinct ?m" using assms by (simp add: waiting_on_def)
  have "waiting_on (wake_ref b ua n st) b ua = filter (\<lambda>t. t \<notin> set (take n ?m)) ?m"
    by (auto simp: waiting_on_def wake_ref_def Let_def intro!: filter_cong)
  also have "\<dots> = filter (\<lambda>t. t \<notin> set (take n ?m)) (take n ?m @ drop n ?m)" by simp
  also have "\<dots> = drop n ?m"
    using set_take_disj_set_drop_if_distinct [OF d, of n n] by (auto simp: filter_id_conv simp del: append_take_drop_id)
  finally show ?thesis .
qed

lemma wake_ref_add:
  assumes "distinct (bkt st b)"
  shows "wake_ref b ua k (wake_ref b ua n st) = wake_ref b ua (n + k) st"
proof -
  have s: "set (take (n + k) (waiting_on st b ua)) = set (take n (waiting_on st b ua)) \<union> set (take k (drop n (waiting_on st b ua)))"
    by (simp add: take_add)
  show ?thesis
    unfolding wake_ref_def [of b ua k] wake_ref_def [of b ua "n + k"] waiting_on_ref [OF assms] s
    by (auto simp: wake_ref_def Let_def fun_eq_iff s intro!: fut.equality filter_cong)
qed

lemma wake_ref_distinct: "distinct (bkt st b) \<Longrightarrow> distinct (bkt (wake_ref b ua n st) b)"
  by (simp add: wake_ref_def Let_def)

lemma wake_loop_ref:
  "distinct (bkt st b) \<Longrightarrow>
     wake_loop b ua val tot st = (tot + length (take (val - tot) (waiting_on st b ua)), wake_ref b ua (val - tot) st)"
proof (induction "val - tot" arbitrary: tot st rule: less_induct)
  case less
  let ?n = "min (val - tot) FUTEX_WAKE_BATCH" and ?m = "waiting_on st b ua"
  show ?case
  proof (cases "tot < val")
    case True
    note step = wake_loop.simps [of b ua val tot st] wake_batch_ref [OF less.prems]
    show ?thesis
    proof (cases "length (take ?n ?m) < ?n")
      case short: True
      then have "length ?m < ?n" by (auto simp: min_def split: if_splits)
      then have "take ?n ?m = ?m" "take (val - tot) ?m = ?m" by simp_all
      moreover from this have "wake_ref b ua ?n st = wake_ref b ua (val - tot) st" by (simp add: wake_ref_def)
      ultimately show ?thesis using True short by (simp add: step Let_def)
    next
      case False
      let ?st = "wake_ref b ua ?n st" and ?t = "tot + ?n"
      have n: "0 < ?n" "?n \<le> length ?m" using True False by (auto simp: FUTEX_WAKE_BATCH_def)
      have "wake_loop b ua val ?t ?st = (?t + length (take (val - ?t) (waiting_on ?st b ua)), wake_ref b ua (val - ?t) ?st)"
        using less.hyps [of ?t ?st] n(1) True wake_ref_distinct [OF less.prems] by auto
      also have "wake_ref b ua (val - ?t) ?st = wake_ref b ua (val - tot) st"
        using wake_ref_add [OF less.prems, of ua "val - ?t" ?n] True by simp
      also have "?t + length (take (val - ?t) (waiting_on ?st b ua)) = tot + length (take (val - tot) ?m)"
        using n True by (auto simp: waiting_on_ref [OF less.prems] min_def)
      finally show ?thesis using True False n by (simp add: step Let_def min_absorb2)
    qed
  next
    case False
    have "wake_ref b ua 0 st = st" by (simp add: wake_ref_def)
    then show ?thesis using False by (simp add: wake_loop.simps)
  qed
qed

subsection \<open>When requeueing ends\<close>

text \<open>A walk over waiters of other addresses changes nothing.\<close>

lemma requeue_walk_none:
  assumes "filter (\<lambda>t. rq_fuaddr q t = ua1) todo = []"
  shows "\<exists>rest. requeue_walk same ua1 ua2 W R bw todo q = (rest, q\<lparr>rq_keep := rq_keep q @ take (length todo - length rest) todo\<rparr>) \<and>
    take (length todo - length rest) todo @ rest = todo"
  using assms
proof (induction todo arbitrary: q)
  case Nil
  then show ?case by (subst requeue_walk.simps) (simp add: exI [of _ "[]"])
next
  case (Cons t ts)
  show ?case
  proof (cases "W \<le> rq_woken q \<and> R \<le> rq_requeued q")
    case True
    then show ?thesis by (subst requeue_walk.simps) (simp add: exI [of _ "t # ts"])
  next
    case False
    have ne: "rq_fuaddr q t \<noteq> ua1" using Cons.prems by (auto split: if_splits)
    let ?q = "q\<lparr>rq_keep := rq_keep q @ [t]\<rparr>"
    obtain rest where r: "requeue_walk same ua1 ua2 W R bw ts ?q = (rest, ?q\<lparr>rq_keep := rq_keep ?q @ take (length ts - length rest) ts\<rparr>)"
      "take (length ts - length rest) ts @ rest = ts"
      using Cons.IH [of ?q] Cons.prems ne by auto
    have le: "length rest \<le> length ts" using r(2) by (metis le_add2 length_append)
    have "requeue_walk same ua1 ua2 W R bw (t # ts) q = requeue_walk same ua1 ua2 W R bw ts ?q"
      using False ne by (subst requeue_walk.simps) auto
    then show ?thesis using r le by (intro exI [of _ rest]) (simp add: Suc_diff_le)
  qed
qed

lemma requeue_pass_none:
  assumes "waiting_on st b1 ua1 = []"
  shows "requeue_pass b1 b2 ua1 ua2 W R wk rqd st = (0, wk, rqd, st)"
proof -
  let ?q = "\<lparr>rq_woken = wk, rq_requeued = rqd, rq_batch = [], rq_fuaddr = fuaddr st, rq_keep = [], rq_other = bkt st b2\<rparr>"
  obtain rest where "requeue_walk (b1 = b2) ua1 ua2 W R (min (W - wk) FUTEX_WAKE_BATCH) (bkt st b1) ?q =
      (rest, ?q\<lparr>rq_keep := rq_keep ?q @ take (length (bkt st b1) - length rest) (bkt st b1)\<rparr>)"
    "take (length (bkt st b1) - length rest) (bkt st b1) @ rest = bkt st b1"
    using requeue_walk_none [of ?q ua1 "bkt st b1" "b1 = b2" ua2 W R "min (W - wk) FUTEX_WAKE_BATCH"] assms
    by (auto simp: waiting_on_def)
  then show ?thesis by (auto simp: requeue_pass_def Let_def)
qed

text \<open>What a walk does to the counters and to the waiters left on the first address.\<close>

lemma filter_upd_notin: "t \<notin> set xs \<Longrightarrow> filter (\<lambda>x. (f(t := v)) x = a) xs = filter (\<lambda>x. f x = a) xs"
  by (auto intro!: filter_cong)

text \<open>The four things a step of the walk can do.\<close>

lemma requeue_walk_Nil: "requeue_walk same ua1 ua2 W R bw [] q = ([], q)"
  by (subst requeue_walk.simps) simp

lemma requeue_walk_stop:
  "W \<le> rq_woken q \<Longrightarrow> R \<le> rq_requeued q \<Longrightarrow> requeue_walk same ua1 ua2 W R bw (t # ts) q = (t # ts, q)"
  by (subst requeue_walk.simps) simp

lemma requeue_walk_other:
  "\<not> (W \<le> rq_woken q \<and> R \<le> rq_requeued q) \<Longrightarrow> rq_fuaddr q t \<noteq> ua1 \<Longrightarrow>
     requeue_walk same ua1 ua2 W R bw (t # ts) q = requeue_walk same ua1 ua2 W R bw ts (q\<lparr>rq_keep := rq_keep q @ [t]\<rparr>)"
  by (subst requeue_walk.simps) auto

lemma requeue_walk_wake:
  "rq_woken q < W \<Longrightarrow> rq_fuaddr q t = ua1 \<Longrightarrow> length (rq_batch q) < bw \<Longrightarrow>
     requeue_walk same ua1 ua2 W R bw (t # ts) q = requeue_walk same ua1 ua2 W R bw ts
       (q\<lparr>rq_batch := rq_batch q @ [t], rq_fuaddr := (rq_fuaddr q)(t := 0), rq_woken := rq_woken q + 1\<rparr>)"
  by (subst requeue_walk.simps) simp

lemma requeue_walk_move:
  "W \<le> rq_woken q \<Longrightarrow> rq_requeued q < R \<Longrightarrow> rq_fuaddr q t = ua1 \<Longrightarrow>
     requeue_walk same ua1 ua2 W R bw (t # ts) q =
       (let q = q\<lparr>rq_fuaddr := (rq_fuaddr q)(t := ua2), rq_requeued := rq_requeued q + 1\<rparr>
        in if same then if ts = [] then ([t], q) else requeue_walk same ua1 ua2 W R bw (ts @ [t]) q
           else requeue_walk same ua1 ua2 W R bw ts (q\<lparr>rq_other := rq_other q @ [t]\<rparr>))"
  by (subst requeue_walk.simps) (simp add: Let_def)

text \<open>The counters and the number of waiters left on the first address, as a claim on a walk.\<close>

definition walk_counts :: "u64 \<Rightarrow> nat \<Rightarrow> nat \<Rightarrow> nat list \<Rightarrow> rq \<Rightarrow> nat list \<Rightarrow> rq \<Rightarrow> bool" where
  "walk_counts ua W R todo q rest q' \<longleftrightarrow>
     (let m = length (filter (\<lambda>t. rq_fuaddr q t = ua) todo); w = W - rq_woken q; r = R - rq_requeued q
      in rq_woken q' = rq_woken q + min w m \<and> rq_requeued q' = rq_requeued q + min r (m - w) \<and>
         length (rq_batch q') = length (rq_batch q) + min w m \<and>
         length (filter (\<lambda>t. rq_fuaddr q' t = ua) (rq_keep q' @ rest)) =
           length (filter (\<lambda>t. rq_fuaddr q t = ua) (rq_keep q)) + (m - w - r))"

lemma walk_counts_other:
  "walk_counts ua W R ts (q\<lparr>rq_keep := rq_keep q @ [t]\<rparr>) rest q' \<Longrightarrow> rq_fuaddr q t \<noteq> ua \<Longrightarrow> walk_counts ua W R (t # ts) q rest q'"
  by (simp add: walk_counts_def Let_def)

lemma walk_counts_wake:
  assumes "walk_counts ua W R ts (q\<lparr>rq_batch := rq_batch q @ [t], rq_fuaddr := (rq_fuaddr q)(t := 0), rq_woken := rq_woken q + 1\<rparr>) rest q'"
    and "rq_fuaddr q t = ua" and "rq_woken q < W" and "t \<notin> set (rq_keep q)" and "t \<notin> set ts"
  shows "walk_counts ua W R (t # ts) q rest q'"
proof -
  obtain w where w: "W - rq_woken q = Suc w" "W - Suc (rq_woken q) = w" using assms(3) by (metis Suc_diff_Suc)
  show ?thesis using assms(1,2,4,5) w by (simp add: walk_counts_def Let_def filter_upd_notin del: fun_upd_apply)
qed

lemma walk_counts_move:
  assumes "walk_counts ua W R ts' (q\<lparr>rq_fuaddr := (rq_fuaddr q)(t := v), rq_requeued := rq_requeued q + 1, rq_other := ot\<rparr>) rest q'"
    and "rq_fuaddr q t = ua" and "W \<le> rq_woken q" and "rq_requeued q < R" and "t \<notin> set (rq_keep q)" and "t \<notin> set ts"
    and "ts' = ts \<or> ts' = ts @ [t]" and "v \<noteq> ua"
  shows "walk_counts ua W R (t # ts) q rest q'"
proof -
  obtain r where r: "R - rq_requeued q = Suc r" "R - Suc (rq_requeued q) = r" using assms(4) by (metis Suc_diff_Suc)
  have "filter (\<lambda>x. ((rq_fuaddr q)(t := v)) x = ua) ts' = filter (\<lambda>x. rq_fuaddr q x = ua) ts"
    using assms(7,8) filter_upd_notin [OF assms(6), of "rq_fuaddr q" v ua] by (auto simp del: fun_upd_apply simp: fun_upd_same)
  then show ?thesis using assms(1-3,5) r filter_upd_notin [OF assms(5), of "rq_fuaddr q" v ua]
    by (simp add: walk_counts_def Let_def del: fun_upd_apply)
qed

lemma requeue_walk_counts:
  assumes "distinct (rq_keep q @ todo)" and ua: "ua1 \<noteq> ua2" "ua1 \<noteq> 0" and "bw = length (rq_batch q) + (W - rq_woken q)"
    and "requeue_walk same ua1 ua2 W R bw todo q = (rest, q')"
  shows "walk_counts ua1 W R todo q rest q'"
  using assms(1,4,5)
proof (induction "(R - rq_requeued q, todo)" arbitrary: q todo rule: wf_induct_rule [OF wf_lex_prod [OF wf_less_than wf_measure [of length]]])
  case 1
  note IH = 1(1) and prems = 1(2-4)
  show ?case
  proof (cases todo)
    case Nil
    then show ?thesis using prems(3) by (simp add: requeue_walk_Nil walk_counts_def)
  next
    case (Cons t ts)
    have t: "t \<notin> set (rq_keep q)" "t \<notin> set ts" "distinct (rq_keep q)" "distinct ts" "set (rq_keep q) \<inter> set ts = {}"
      using prems(1) Cons by auto
    consider (stop) "W \<le> rq_woken q" "R \<le> rq_requeued q"
      | (other) "\<not> (W \<le> rq_woken q \<and> R \<le> rq_requeued q)" "rq_fuaddr q t \<noteq> ua1"
      | (wake) "rq_fuaddr q t = ua1" "rq_woken q < W"
      | (move) "rq_fuaddr q t = ua1" "W \<le> rq_woken q" "rq_requeued q < R"
      by linarith
    then show ?thesis
    proof cases
      case stop
      then show ?thesis using prems(3) Cons by (simp add: requeue_walk_stop walk_counts_def)
    next
      case other
      have "walk_counts ua1 W R ts (q\<lparr>rq_keep := rq_keep q @ [t]\<rparr>) rest q'"
        by (rule IH) (use prems(2,3) Cons t requeue_walk_other [OF other] in auto)
      then show ?thesis unfolding Cons by (rule walk_counts_other) (rule other(2))
    next
      case wake
      have c: "length (rq_batch q) < bw" using wake prems(2) by simp
      have "walk_counts ua1 W R ts
          (q\<lparr>rq_batch := rq_batch q @ [t], rq_fuaddr := (rq_fuaddr q)(t := 0), rq_woken := rq_woken q + 1\<rparr>) rest q'"
        by (rule IH) (use prems(2,3) Cons t wake(2) requeue_walk_wake [OF wake(2,1) c] in auto)
      then show ?thesis unfolding Cons by (rule walk_counts_wake) (use wake t(1,2) in auto)
    next
      case move
      note mv = requeue_walk_move [OF move(2,3,1), of same ua2 bw ts]
      let ?q = "q\<lparr>rq_fuaddr := (rq_fuaddr q)(t := ua2), rq_requeued := rq_requeued q + 1\<rparr>"
      have "walk_counts ua1 W R (if same then ts @ [t] else ts)
          (?q\<lparr>rq_other := (if same then rq_other q else rq_other q @ [t])\<rparr>) rest q'"
      proof (cases "same \<and> ts = []")
        case True
        then show ?thesis using prems(3) Cons mv ua(1) move by (auto simp: walk_counts_def Let_def)
      next
        case False
        show ?thesis
          by (rule IH) (use False prems(2,3) Cons t move(3) mv in \<open>auto simp: Let_def split: if_splits\<close>)
      qed
      then show ?thesis unfolding Cons by (rule walk_counts_move) (use move t(1,2) ua(1) in auto)
    qed
  qed
qed

lemma requeue_pass_first:
  assumes "distinct (bkt st b1)" and "ua1 \<noteq> ua2" and "ua1 \<noteq> 0" and "W \<le> FUTEX_WAKE_BATCH"
    and "requeue_pass b1 b2 ua1 ua2 W R 0 0 st = (nw, wk, rqd, st')"
  defines "m \<equiv> length (waiting_on st b1 ua1)"
  shows "nw = min W m" and "wk = min W m" and "rqd = min R (m - W)" and "length (waiting_on st' b1 ua1) = m - W - R"
proof -
  let ?q = "\<lparr>rq_woken = 0, rq_requeued = 0, rq_batch = [], rq_fuaddr = fuaddr st, rq_keep = [], rq_other = bkt st b2\<rparr>"
  obtain rest q' where w: "requeue_walk (b1 = b2) ua1 ua2 W R W (bkt st b1) ?q = (rest, q')"
    by (cases "requeue_walk (b1 = b2) ua1 ua2 W R W (bkt st b1) ?q")
  have c: "walk_counts ua1 W R (bkt st b1) ?q rest q'"
    by (rule requeue_walk_counts [OF _ assms(2,3) _ w]) (use assms(1) in simp_all)
  have st': "bkt st' b1 = rq_keep q' @ rest" "fuaddr st' = rq_fuaddr q'" "nw = length (rq_batch q')" "wk = rq_woken q'" "rqd = rq_requeued q'"
    using assms(4,5) w by (auto simp: requeue_pass_def Let_def fold_wake_with_event min_absorb1)
  show "nw = min W m" "wk = min W m" "rqd = min R (m - W)" "length (waiting_on st' b1 ua1) = m - W - R"
    using c st' by (simp_all add: walk_counts_def Let_def m_def waiting_on_def)
qed

text \<open>With nobody left to move, but some moved and more asked for, the loop never leaves.\<close>

lemma requeue_loop_stuck:
  assumes "waiting_on st b1 ua1 = []" and "0 < rqd" and "rqd < R"
  shows "requeue_loop b1 b2 ua1 ua2 W R wk rqd st = None"
proof -
  have "requeue_loop b1 b2 ua1 ua2 W R wk rqd st = Some y \<Longrightarrow> waiting_on st b1 ua1 = [] \<and> 0 < rqd \<and> rqd < R \<longrightarrow> False" for y
  proof (rule requeue_loop.raw_induct [where P = "\<lambda>b1 b2 ua1 ua2 W R wk rqd st y. waiting_on st b1 ua1 = [] \<and> 0 < rqd \<and> rqd < R \<longrightarrow> False"])
    fix loop and b1 b2 :: nat and ua1 ua2 :: u64 and W R wk rqd :: nat and st :: fut and y :: "nat \<times> fut"
    assume IH: "\<And>b1 b2 ua1 ua2 W R wk rqd st y. loop b1 b2 ua1 ua2 W R wk rqd st = Some y \<Longrightarrow>
        waiting_on st b1 ua1 = [] \<and> 0 < rqd \<and> rqd < R \<longrightarrow> False"
      and y: "(if wk < W \<or> rqd < R then
        let batch_wake = min (W - wk) FUTEX_WAKE_BATCH;
            p = requeue_pass b1 b2 ua1 ua2 W R wk rqd st;
            nwake = fst p; wk = fst (snd p); rqd = fst (snd (snd p)); st = snd (snd (snd p))
        in if nwake < batch_wake \<and> \<not> (rqd < R \<and> 0 < rqd) \<and> (rqd = 0 \<or> R \<le> rqd) then Some (wk + rqd, st)
           else if nwake = 0 \<and> rqd = 0 then Some (wk + rqd, st)
           else loop b1 b2 ua1 ua2 W R wk rqd st
      else Some (wk + rqd, st)) = Some y"
    show "waiting_on st b1 ua1 = [] \<and> 0 < rqd \<and> rqd < R \<longrightarrow> False"
    proof
      assume s: "waiting_on st b1 ua1 = [] \<and> 0 < rqd \<and> rqd < R"
      then have "loop b1 b2 ua1 ua2 W R wk rqd st = Some y" using y by (simp add: requeue_pass_none Let_def)
      then show False using IH s by blast
    qed
  qed
  then show ?thesis using assms by (cases "requeue_loop b1 b2 ua1 ua2 W R wk rqd st") auto
qed

lemma requeue_loop_step:
  assumes "wk < W \<or> rqd < R" and "requeue_pass b1 b2 ua1 ua2 W R wk rqd st = (nw, wk', rqd', st')"
  shows "requeue_loop b1 b2 ua1 ua2 W R wk rqd st =
    (if nw < min (W - wk) FUTEX_WAKE_BATCH \<and> \<not> (rqd' < R \<and> 0 < rqd') \<and> (rqd' = 0 \<or> R \<le> rqd') then Some (wk' + rqd', st')
     else if nw = 0 \<and> rqd' = 0 then Some (wk' + rqd', st')
     else requeue_loop b1 b2 ua1 ua2 W R wk' rqd' st')"
  using assms by (subst requeue_loop.simps) (auto simp: Let_def)

lemma requeue_loop_done: "W \<le> wk \<Longrightarrow> R \<le> rqd \<Longrightarrow> requeue_loop b1 b2 ua1 ua2 W R wk rqd st = Some (wk + rqd, st)"
  by (subst requeue_loop.simps) simp

lemma requeue_loop_returns:
  assumes d: "distinct (bkt st b1)" and ua: "ua1 \<noteq> ua2" "ua1 \<noteq> 0" and W: "W \<le> FUTEX_WAKE_BATCH"
  defines "m \<equiv> length (waiting_on st b1 ua1)"
  shows "if W < m \<and> m < W + R then requeue_loop b1 b2 ua1 ua2 W R 0 0 st = None
    else \<exists>st'. requeue_loop b1 b2 ua1 ua2 W R 0 0 st = Some (min m (W + R), st')"
proof (cases "W = 0 \<and> R = 0")
  case True
  then show ?thesis by (simp add: requeue_loop_done)
next
  case False
  obtain nw wk rqd st' where p: "requeue_pass b1 b2 ua1 ua2 W R 0 0 st = (nw, wk, rqd, st')"
    by (cases "requeue_pass b1 b2 ua1 ua2 W R 0 0 st") auto
  note c = requeue_pass_first [OF d ua W p, folded m_def]
  note step = requeue_loop_step [OF _ p]
  consider "m < W" | "m = W" | "W + R \<le> m" "W < m" | "W < m" "m < W + R" by linarith
  then show ?thesis
  proof cases
    case 1
    then show ?thesis using step False c W by (auto simp: min_def)
  next
    case 2
    have "waiting_on st' b1 ua1 = []" using c(4) 2 by simp
    then have "requeue_loop b1 b2 ua1 ua2 W R W 0 st' = Some (W, st')"
      by (cases "R = 0") (simp_all add: requeue_loop_done requeue_loop_step [OF _ requeue_pass_none])
    then show ?thesis using step False c W 2 by (auto simp: min_def split: if_splits)
  next
    case 3
    then show ?thesis using step False c W by (auto simp: min_def requeue_loop_done split: if_splits)
  next
    case 4
    have "waiting_on st' b1 ua1 = []" using c(4) 4 by simp
    then have "requeue_loop b1 b2 ua1 ua2 W R W (m - W) st' = None" using requeue_loop_stuck 4 by simp
    then show ?thesis using step False c W 4 by (auto simp: min_def split: if_splits)
  qed
qed

subsection \<open>Hashing, deadlines and cleanup\<close>

text \<open>Bits 3 to 8 select the bucket; the page-aligned page-table root contributes none of them.\<close>

lemma futex_hash_page_aligned:
  assumes "4096 dvd cr3"
  shows "futex_hash cr3 po = futex_hash 0 po"
proof -
  obtain p where p: "cr3 = push_bit 12 p" using assms by (auto simp: push_bit_eq_mult mult.commute elim!: dvdE)
  have m: "(63 :: nat) = mask 6" by (simp add: mask_eq_exp_minus_1)
  show ?thesis unfolding futex_hash_def FUTEX_HASH_SIZE_def p
    by (auto simp: bit_eq_iff bit_simps m)
qed

text \<open>The saturating arithmetic of the timeout never wraps.\<close>

lemma futex_deadline_saturates:
  assumes "n < NSEC_PER_SEC" and "now \<le> UINT64_MAX"
  shows "futex_deadline now (futex_timeout s n) = min UINT64_MAX (now + (s * NSEC_PER_SEC + n))"
proof -
  have u: "UINT64_MAX < U64" "n \<le> UINT64_MAX" using assms(1) by (simp_all add: UINT64_MAX_def U64_def NSEC_PER_SEC_def)
  have t: "futex_timeout s n = min UINT64_MAX (s * NSEC_PER_SEC + n)"
  proof (cases "(UINT64_MAX - n) div NSEC_PER_SEC < s")
    case True
    then have "UINT64_MAX - n < s * NSEC_PER_SEC" by (simp add: div_less_iff_less_mult NSEC_PER_SEC_def)
    then show ?thesis using True by (simp add: futex_timeout_def)
  next
    case False
    then have "s \<le> (UINT64_MAX - n) div NSEC_PER_SEC" by simp
    then have "s * NSEC_PER_SEC \<le> UINT64_MAX - n" by (simp add: less_eq_div_iff_mult_less_eq NSEC_PER_SEC_def)
    then have "s * NSEC_PER_SEC + n \<le> UINT64_MAX" using u(2) by simp
    then show ?thesis using False u(1) by (simp add: futex_timeout_def mul64_small add64_small)
  qed
  show ?thesis using assms(2) u(1) by (auto simp: t futex_deadline_def add64_small min_def)
qed

subsection \<open>Consistent queues\<close>

text \<open>Every task is linked at most once, and only while it has a wait address.\<close>

definition futex_ok :: "fut \<Rightarrow> bool" where
  "futex_ok st \<longleftrightarrow> (\<forall>b. distinct (bkt st b)) \<and> (\<forall>b. \<forall>t \<in> set (bkt st b). fuaddr st t \<noteq> 0) \<and>
     (\<forall>b b'. b \<noteq> b' \<longrightarrow> set (bkt st b) \<inter> set (bkt st b') = {})"

definition detached :: "nat \<Rightarrow> fut \<Rightarrow> bool" where
  "detached t st \<longleftrightarrow> fuaddr st t = 0 \<and> (\<forall>b. t \<notin> set (bkt st b))"

text \<open>
  The sections that change the queues or a sleeper while a task is asleep in FUTEX_WAIT: a batch of
  FUTEX_WAKE, a round of FUTEX_REQUEUE, the linking and the cleanup of other FUTEX_WAIT calls (a task
  that is waiting makes no other call), the timer, a signal, and stores to user memory.
\<close>

datatype fut_act = Act_wake nat u64 nat
  | Act_requeue nat u64 u64 nat nat nat nat
  | Act_enqueue nat u64
  | Act_cleanup nat
  | Act_timeout nat
  | Act_signal nat
  | Act_store u64 u64 "nat option"

fun run_act :: "fut_act \<Rightarrow> fut \<Rightarrow> fut" where
  "run_act (Act_wake k ua batch) st = snd (wake_batch (futex_bucket st k ua) ua batch st)"
| "run_act (Act_requeue k ua1 ua2 nr_wake nr_requeue wk rqd) st =
     snd (snd (snd (requeue_pass (futex_bucket st k ua1) (futex_bucket st k ua2) ua1 ua2 nr_wake nr_requeue wk rqd st)))"
| "run_act (Act_enqueue k ua) st = (if fuaddr st k = 0 then futex_enqueue k ua st else st)"
| "run_act (Act_cleanup k) st = futex_cleanup k st"
| "run_act (Act_timeout t) st =
     st\<lparr>tst := (tst st)(t := READY), on_futex := (on_futex st)(t := False), deadline := (deadline st)(t := None),
        timed_out := (timed_out st)(t := True)\<rparr>"
| "run_act (Act_signal t) st = st\<lparr>tst := (tst st)(t := READY), on_futex := (on_futex st)(t := False), sigp := (sigp st)(t := True)\<rparr>"
| "run_act (Act_store cr3 ua v) st = st\<lparr>umem := (umem st)(cr3 := (umem st cr3)(ua := v))\<rparr>"

text \<open>Nobody waits on, or is requeued to, the address 0, which the code uses for not waiting.\<close>

fun act_ok :: "fut_act \<Rightarrow> bool" where
  "act_ok (Act_requeue k ua1 ua2 nr_wake nr_requeue wk rqd) \<longleftrightarrow> ua2 \<noteq> 0"
| "act_ok (Act_enqueue k ua) \<longleftrightarrow> ua \<noteq> 0"
| "act_ok a \<longleftrightarrow> True"

lemma futex_okI:
  assumes "\<And>b. distinct (bkt st b)" and "\<And>b t. t \<in> set (bkt st b) \<Longrightarrow> fuaddr st t \<noteq> 0"
    and "\<And>b b' t. t \<in> set (bkt st b) \<Longrightarrow> t \<in> set (bkt st b') \<Longrightarrow> b = b'"
  shows "futex_ok st"
  using assms unfolding futex_ok_def by blast

lemma futex_okD:
  assumes "futex_ok st"
  shows "distinct (bkt st b)" and "t \<in> set (bkt st b) \<Longrightarrow> fuaddr st t \<noteq> 0" and "t \<in> set (bkt st b) \<Longrightarrow> t \<in> set (bkt st b') \<Longrightarrow> b = b'"
  using assms unfolding futex_ok_def by blast+

lemma futex_ok_detached: "futex_ok st \<Longrightarrow> fuaddr st t = 0 \<Longrightarrow> detached t st"
  unfolding detached_def using futex_okD(2) by metis

lemma futex_enqueue_ok:
  assumes "futex_ok st" and "fuaddr st t = 0" and "ua \<noteq> 0"
  shows "futex_ok (futex_enqueue t ua st)"
  using futex_okD [OF assms(1)] futex_ok_detached [OF assms(1,2)] assms(3)
  by (intro futex_okI) (auto simp: futex_enqueue_def detached_def Let_def split: if_splits)

lemma unlink_ok:
  assumes "futex_ok st"
  shows "futex_ok (unlink t st)" and "detached t (unlink t st)"
proof -
  have "set (remove1 t (bkt st b)) = set (bkt st b) - {t}" for b using futex_okD(1) [OF assms] by simp
  then show "futex_ok (unlink t st)" "detached t (unlink t st)"
    using futex_okD [OF assms] by (auto simp: unlink_def detached_def intro!: futex_okI)
qed

lemma futex_cleanup_ok: "futex_ok st \<Longrightarrow> futex_ok (futex_cleanup t st) \<and> detached t (futex_cleanup t st)"
  by (simp add: futex_cleanup_def unlink_ok futex_ok_detached)

lemma unlink_enqueue:
  "detached t st \<Longrightarrow> bkt s = bkt (futex_enqueue t ua st) \<Longrightarrow> bkt (unlink t s) = bkt st"
  by (auto simp: unlink_def detached_def futex_enqueue_def Let_def remove1_append remove1_idem fun_eq_iff)

lemma wake_batch_ok:
  assumes "futex_ok st"
  shows "futex_ok (snd (wake_batch b ua n st))"
proof -
  note ok = futex_okD [OF assms]
  have "set (take n (waiting_on st b ua)) \<subseteq> set (bkt st b)" by (auto simp: waiting_on_def dest: in_set_takeD)
  then show ?thesis using ok unfolding wake_batch_ref [OF ok(1)] snd_conv
    by (intro futex_okI) (auto simp: wake_ref_def Let_def split: if_splits)
qed

text \<open>A walk loses nobody it does not wake, and keeps both buckets disjoint and their waiters' addresses set.\<close>

definition rq_ok :: "bool \<Rightarrow> nat list \<Rightarrow> rq \<Rightarrow> bool" where
  "rq_ok same todo q \<longleftrightarrow> (let l = rq_keep q @ todo @ (if same then [] else rq_other q)
     in distinct l \<and> (\<forall>t \<in> set l. rq_fuaddr q t \<noteq> 0))"

definition rq_sub :: "bool \<Rightarrow> nat list \<Rightarrow> rq \<Rightarrow> nat list \<Rightarrow> rq \<Rightarrow> bool" where
  "rq_sub same todo q rest q' \<longleftrightarrow>
     set (rq_keep q') \<union> set rest \<union> (if same then {} else set (rq_other q')) \<subseteq>
       set (rq_keep q) \<union> set todo \<union> (if same then {} else set (rq_other q)) \<and>
     (\<forall>t. t \<notin> set todo \<longrightarrow> rq_fuaddr q' t = rq_fuaddr q t)"

lemma rq_ok_step:
  assumes "rq_ok same (t # ts) q" and "ua2 \<noteq> 0"
  shows "rq_ok same ts (q\<lparr>rq_keep := rq_keep q @ [t]\<rparr>)"
    and "rq_ok same ts (q\<lparr>rq_batch := B, rq_fuaddr := (rq_fuaddr q)(t := 0), rq_woken := k\<rparr>)"
    and "same \<Longrightarrow> rq_ok same (ts @ [t]) (q\<lparr>rq_fuaddr := (rq_fuaddr q)(t := ua2), rq_requeued := k\<rparr>)"
    and "\<not> same \<Longrightarrow> rq_ok same ts (q\<lparr>rq_fuaddr := (rq_fuaddr q)(t := ua2), rq_requeued := k, rq_other := rq_other q @ [t]\<rparr>)"
  using assms by (auto simp: rq_ok_def Let_def)

lemma rq_sub_step:
  "rq_sub same ts (q\<lparr>rq_keep := rq_keep q @ [t]\<rparr>) rest q' \<Longrightarrow> rq_sub same (t # ts) q rest q'"
  "rq_sub same ts (q\<lparr>rq_batch := B, rq_fuaddr := (rq_fuaddr q)(t := 0), rq_woken := k\<rparr>) rest q' \<Longrightarrow> rq_sub same (t # ts) q rest q'"
  "same \<Longrightarrow> rq_sub same (ts @ [t]) (q\<lparr>rq_fuaddr := (rq_fuaddr q)(t := ua2), rq_requeued := k\<rparr>) rest q' \<Longrightarrow> rq_sub same (t # ts) q rest q'"
  "\<not> same \<Longrightarrow> rq_sub same ts (q\<lparr>rq_fuaddr := (rq_fuaddr q)(t := ua2), rq_requeued := k, rq_other := rq_other q @ [t]\<rparr>) rest q' \<Longrightarrow>
     rq_sub same (t # ts) q rest q'"
  by (auto simp: rq_sub_def)

lemma requeue_walk_cases:
  fixes same :: bool and ua1 ua2 :: u64 and W R bw :: nat and q :: rq
  defines "go \<equiv> requeue_walk same ua1 ua2 W R bw"
    and "m \<equiv> \<lambda>t. q\<lparr>rq_fuaddr := (rq_fuaddr q)(t := ua2), rq_requeued := rq_requeued q + 1\<rparr>"
  obtains (stop) "go (t # ts) q = (t # ts, q)"
    | (keep) "go (t # ts) q = go ts (q\<lparr>rq_keep := rq_keep q @ [t]\<rparr>)"
    | (wake) "go (t # ts) q = go ts (q\<lparr>rq_batch := rq_batch q @ [t], rq_fuaddr := (rq_fuaddr q)(t := 0), rq_woken := rq_woken q + 1\<rparr>)"
    | (last) "same" "ts = []" "go (t # ts) q = ([t], m t)"
    | (again) "same" "rq_requeued q < R" "go (t # ts) q = go (ts @ [t]) (m t)"
    | (move) "\<not> same" "rq_requeued q < R" "go (t # ts) q = go ts ((m t)\<lparr>rq_other := rq_other q @ [t]\<rparr>)"
  using requeue_walk.simps [of same ua1 ua2 W R bw "t # ts" q] unfolding go_def m_def list.case Let_def
  by (auto split: if_splits)

lemma requeue_walk_ok:
  assumes "ua2 \<noteq> 0" and "requeue_walk same ua1 ua2 W R bw todo q = (rest, q')" and "rq_ok same todo q"
  shows "rq_ok same rest q' \<and> rq_sub same todo q rest q'"
  using assms(2,3)
proof (induction "(R - rq_requeued q, todo)" arbitrary: q todo rule: wf_induct_rule [OF wf_lex_prod [OF wf_less_than wf_measure [of length]]])
  case 1
  note IH = 1(1) and prems = 1(2,3)
  show ?case
  proof (cases todo)
    case Nil
    then show ?thesis using prems by (simp add: requeue_walk_Nil rq_sub_def)
  next
    case (Cons t ts)
    note ok = rq_ok_step [OF prems(2) [unfolded Cons] assms(1)]
    show ?thesis unfolding Cons
    proof (cases rule: requeue_walk_cases [of same ua1 ua2 W R bw t ts q])
      case stop
      then show "rq_ok same rest q' \<and> rq_sub same (t # ts) q rest q'" using prems Cons by (simp add: rq_sub_def)
    next
      case keep
      have "rq_ok same rest q' \<and> rq_sub same ts (q\<lparr>rq_keep := rq_keep q @ [t]\<rparr>) rest q'"
        by (rule IH) (use prems(1) Cons keep ok(1) in auto)
      then show "rq_ok same rest q' \<and> rq_sub same (t # ts) q rest q'" by (blast intro: rq_sub_step)
    next
      case wake
      have "rq_ok same rest q' \<and>
          rq_sub same ts (q\<lparr>rq_batch := rq_batch q @ [t], rq_fuaddr := (rq_fuaddr q)(t := 0), rq_woken := rq_woken q + 1\<rparr>) rest q'"
        by (rule IH) (use prems(1) Cons wake ok(2) in auto)
      then show "rq_ok same rest q' \<and> rq_sub same (t # ts) q rest q'" by (blast intro: rq_sub_step)
    next
      case last
      then show "rq_ok same rest q' \<and> rq_sub same (t # ts) q rest q'" using prems(1) Cons ok(3) by (auto simp: rq_sub_def)
    next
      case again
      have "rq_ok same rest q' \<and> rq_sub same (ts @ [t]) (q\<lparr>rq_fuaddr := (rq_fuaddr q)(t := ua2), rq_requeued := rq_requeued q + 1\<rparr>) rest q'"
        by (rule IH) (use prems(1) Cons again ok(3) in auto)
      then show "rq_ok same rest q' \<and> rq_sub same (t # ts) q rest q'" using again(1) by (blast intro: rq_sub_step)
    next
      case move
      have "rq_ok same rest q' \<and> rq_sub same ts
          (q\<lparr>rq_fuaddr := (rq_fuaddr q)(t := ua2), rq_requeued := rq_requeued q + 1, rq_other := rq_other q @ [t]\<rparr>) rest q'"
        by (rule IH) (use prems(1) Cons move ok(4) in auto)
      then show "rq_ok same rest q' \<and> rq_sub same (t # ts) q rest q'" using move(1) by (blast intro: rq_sub_step)
    qed
  qed
qed

lemma requeue_pass_ok:
  assumes "futex_ok st" and "ua2 \<noteq> 0"
  shows "futex_ok (snd (snd (snd (requeue_pass b1 b2 ua1 ua2 W R wk rqd st))))"
proof -
  let ?q = "\<lparr>rq_woken = wk, rq_requeued = rqd, rq_batch = [], rq_fuaddr = fuaddr st, rq_keep = [], rq_other = bkt st b2\<rparr>"
  obtain rest q' where w: "requeue_walk (b1 = b2) ua1 ua2 W R (min (W - wk) FUTEX_WAKE_BATCH) (bkt st b1) ?q = (rest, q')"
    by (cases "requeue_walk (b1 = b2) ua1 ua2 W R (min (W - wk) FUTEX_WAKE_BATCH) (bkt st b1) ?q")
  note ok = futex_okD [OF assms(1)]
  have "rq_ok (b1 = b2) (bkt st b1) ?q" using ok by (auto simp: rq_ok_def Let_def)
  note r = requeue_walk_ok [OF assms(2) w this]
  have sub: "set (rq_keep q') \<union> set rest \<subseteq> set (bkt st b1) \<union> (if b1 = b2 then {} else set (bkt st b2))"
    "b1 \<noteq> b2 \<Longrightarrow> set (rq_other q') \<subseteq> set (bkt st b1) \<union> set (bkt st b2)"
    "\<And>t. t \<notin> set (bkt st b1) \<Longrightarrow> rq_fuaddr q' t = fuaddr st t" using r by (auto simp: rq_sub_def split: if_splits)
  let ?bk = "if b1 = b2 then (bkt st)(b1 := rq_keep q' @ rest) else (bkt st)(b1 := rq_keep q' @ rest, b2 := rq_other q')"
  have "futex_ok (st\<lparr>bkt := ?bk, fuaddr := rq_fuaddr q'\<rparr>)"
  proof (rule futex_okI)
    show "distinct (bkt (st\<lparr>bkt := ?bk, fuaddr := rq_fuaddr q'\<rparr>) b)" for b
      using r ok(1) by (auto simp: rq_ok_def Let_def split: if_splits)
    show "fuaddr (st\<lparr>bkt := ?bk, fuaddr := rq_fuaddr q'\<rparr>) t \<noteq> 0" if "t \<in> set (bkt (st\<lparr>bkt := ?bk, fuaddr := rq_fuaddr q'\<rparr>) b)" for b t
    proof (cases "b = b1 \<or> b = b2")
      case True
      then show ?thesis using that r by (auto simp: rq_ok_def Let_def split: if_splits)
    next
      case False
      then have "t \<in> set (bkt st b)" "b \<noteq> b1" using that by (auto split: if_splits)
      then have "t \<notin> set (bkt st b1)" using ok(3) by blast
      then show ?thesis using sub(3) ok(2) \<open>t \<in> set (bkt st b)\<close> by simp
    qed
    have old: "\<exists>c. t \<in> set (bkt st c) \<and> (if b = b1 \<or> b = b2 then c = b1 \<or> c = b2 else c = b)" if "t \<in> set (?bk b)" for b t
      using that sub(1,2) by (auto split: if_splits)
    have dj: "b1 \<noteq> b2 \<Longrightarrow> set (?bk b1) \<inter> set (?bk b2) = {}" using r by (auto simp: rq_ok_def Let_def)
    show "b = b'" if "t \<in> set (bkt (st\<lparr>bkt := ?bk, fuaddr := rq_fuaddr q'\<rparr>) b)" "t \<in> set (bkt (st\<lparr>bkt := ?bk, fuaddr := rq_fuaddr q'\<rparr>) b')" for b b' t
    proof -
      have t: "t \<in> set (?bk b)" "t \<in> set (?bk b')" using that by simp_all
      then show ?thesis using old [OF t(1)] old [OF t(2)] ok(3) dj by (metis IntI emptyE)
    qed
  qed
  then show ?thesis using w by (simp add: requeue_pass_def Let_def fold_wake_with_event futex_ok_def)
qed

lemma run_act_ok: "futex_ok st \<Longrightarrow> act_ok a \<Longrightarrow> futex_ok (run_act a st)"
  by (cases a) (auto simp: wake_batch_ok requeue_pass_ok futex_enqueue_ok futex_cleanup_ok, auto simp: futex_ok_def)

lemma run_acts_ok: "futex_ok st \<Longrightarrow> \<forall>a \<in> set acts. act_ok a \<Longrightarrow> futex_ok (fold run_act acts st)"
  by (induction acts arbitrary: st) (auto simp: run_act_ok)

text \<open>The last waiter of a bucket, the only one on the address, is moved to a second address.\<close>

lemma requeue_walk_last:
  assumes "filter (\<lambda>t. rq_fuaddr q t = ua1) xs = []" and "rq_fuaddr q t = ua1" and "rq_requeued q = 0" and "rq_woken q = 0"
  shows "requeue_walk same ua1 ua2 0 1 0 (xs @ [t]) q =
    (if same then [t] else [], q\<lparr>rq_keep := rq_keep q @ xs, rq_fuaddr := (rq_fuaddr q)(t := ua2), rq_requeued := 1,
       rq_other := (if same then rq_other q else rq_other q @ [t])\<rparr>)"
  using assms
proof (induction xs arbitrary: q)
  case Nil
  then show ?case by (simp add: requeue_walk_move requeue_walk_Nil Let_def fun_upd_def)
next
  case (Cons x xs)
  then have x: "rq_fuaddr q x \<noteq> ua1" "filter (\<lambda>t. rq_fuaddr q t = ua1) xs = []" by (auto split: if_splits)
  show ?case using Cons.IH [of "q\<lparr>rq_keep := rq_keep q @ [x]\<rparr>"] Cons.prems x by (simp add: requeue_walk_other)
qed

lemma requeue_to_zero:
  assumes "waiting_on st (futex_bucket st cur ua) ua = []" and "fcr3 st k = fcr3 st cur" and "detached cur st"
    and "bkt s = bkt (futex_enqueue cur ua st)" and "fuaddr s = fuaddr (futex_enqueue cur ua st)" and "fcr3 s = fcr3 st"
  shows "fuaddr (run_act (Act_requeue k ua 0 0 1 0 0) s) cur = 0"
    and "cur \<in> set (bkt (run_act (Act_requeue k ua 0 0 1 0 0) s) (futex_bucket st cur 0))"
proof -
  let ?b = "futex_bucket st cur ua" and ?c = "futex_bucket st cur 0"
  let ?q = "\<lparr>rq_woken = 0, rq_requeued = 0, rq_batch = [], rq_fuaddr = fuaddr s, rq_keep = [], rq_other = bkt s ?c\<rparr>"
  have b: "futex_bucket s k ua = ?b" "futex_bucket s k 0 = ?c" using assms(2,6) by (simp_all add: futex_bucket_def)
  have l: "bkt s ?b = bkt st ?b @ [cur]" "fuaddr s = (fuaddr st)(cur := ua)" using assms(4,5) by (simp_all add: futex_enqueue_def Let_def)
  have "filter (\<lambda>t. fuaddr s t = ua) (bkt st ?b) = waiting_on st ?b ua"
    using assms(3) unfolding l waiting_on_def by (auto simp: detached_def intro!: filter_cong)
  then have "requeue_walk (?b = ?c) ua 0 0 1 0 (bkt s ?b) ?q = (if ?b = ?c then [cur] else [],
      ?q\<lparr>rq_keep := bkt st ?b, rq_fuaddr := (fuaddr s)(cur := 0), rq_requeued := 1, rq_other := (if ?b = ?c then bkt s ?c else bkt s ?c @ [cur])\<rparr>)"
    using requeue_walk_last [of ?q ua "bkt st ?b" cur "?b = ?c" 0] assms(1) l by simp
  then show "fuaddr (run_act (Act_requeue k ua 0 0 1 0 0) s) cur = 0"
    "cur \<in> set (bkt (run_act (Act_requeue k ua 0 0 1 0 0) s) ?c)"
    by (auto simp: requeue_pass_def Let_def b split: if_splits)
qed

text \<open>The two ways through a call: it sleeps, or it unlinks itself at once if it was linked at all.\<close>

lemma enqueue_sel: "sigp (futex_enqueue cur ua st) = sigp st" "fcr3 (futex_enqueue cur ua st) = fcr3 st" "fuaddr (futex_enqueue cur ua st) cur = ua"
  by (simp_all add: futex_enqueue_def Let_def)

definition bad_timeout :: "(int \<times> int) option option \<Rightarrow> bool" where
  "bad_timeout ts \<longleftrightarrow> ts = Some None \<or> (\<exists>s n. ts = Some (Some (s, n)) \<and> \<not> (0 \<le> s \<and> 0 \<le> n \<and> n < int NSEC_PER_SEC))"

lemma futex_wait_sleeps:
  assumes "umem st (fcr3 st cur) ua = Some val" and "\<not> sigp st cur" and "\<not> bad_timeout ts"
  shows "\<exists>s. bkt s = bkt (futex_enqueue cur ua st) \<and> fuaddr s = fuaddr (futex_enqueue cur ua st) \<and> fcr3 s = fcr3 st \<and>
      snd (futex_wait cur ua val ts now env st) = futex_cleanup cur (env s)"
proof (cases ts)
  case None
  show ?thesis
    by (rule exI [of _ "let s = futex_enqueue cur ua st in s\<lparr>timed_out := (timed_out s)(cur := False),
        on_futex := (on_futex s)(cur := True), tst := (tst s)(cur := BLOCKED)\<rparr>"])
      (use assms None in \<open>simp add: futex_wait_def Let_def enqueue_sel\<close>)
next
  case (Some t)
  then obtain x n where t: "ts = Some (Some (x, n))" "0 \<le> x" "0 \<le> n" "n < int NSEC_PER_SEC"
    using assms(3) by (cases t) (auto simp: bad_timeout_def)
  show ?thesis
    by (rule exI [of _ "let s = futex_enqueue cur ua st in s\<lparr>timed_out := (timed_out s)(cur := False),
        deadline := (deadline s)(cur := Some (futex_deadline now (futex_timeout (nat x) (nat n)))),
        on_futex := (on_futex s)(cur := True), tst := (tst s)(cur := BLOCKED)\<rparr>"])
      (use assms t in \<open>simp add: futex_wait_def Let_def enqueue_sel\<close>)
qed

lemma futex_wait_awake:
  assumes "umem st (fcr3 st cur) ua \<noteq> Some val \<or> sigp st cur \<or> bad_timeout ts" and "ua \<noteq> 0"
  shows "snd (futex_wait cur ua val ts now env st) = st \<or>
    (\<exists>s. bkt s = bkt (futex_enqueue cur ua st) \<and> fuaddr s = fuaddr (futex_enqueue cur ua st) \<and>
       snd (futex_wait cur ua val ts now env st) = unlink cur s)"
proof (cases "umem st (fcr3 st cur) ua = Some val")
  case False
  then show ?thesis by (simp add: futex_wait_def split: option.split)
next
  case True
  show ?thesis
  proof (cases "bad_timeout ts")
    case bad: True
    have "snd (futex_wait cur ua val ts now env st) = unlink cur (futex_enqueue cur ua st)"
      using True bad by (auto simp: futex_wait_def Let_def bad_timeout_def)
    then show ?thesis by blast
  next
    case False
    then have sg: "sigp st cur" using assms(1) True by blast
    show ?thesis
    proof (rule disjI2, cases ts)
      case None
      show "\<exists>s. bkt s = bkt (futex_enqueue cur ua st) \<and> fuaddr s = fuaddr (futex_enqueue cur ua st) \<and>
          snd (futex_wait cur ua val ts now env st) = unlink cur s"
        by (rule exI [of _ "let s = futex_enqueue cur ua st in s\<lparr>timed_out := (timed_out s)(cur := False),
            tst := (tst s)(cur := RUNNING), on_futex := (on_futex s)(cur := False)\<rparr>"])
          (use True sg assms(2) None in \<open>simp add: futex_wait_def Let_def enqueue_sel futex_cleanup_def\<close>)
    next
      case (Some t)
      then obtain x n where t: "ts = Some (Some (x, n))" "0 \<le> x" "0 \<le> n" "n < int NSEC_PER_SEC"
        using False by (cases t) (auto simp: bad_timeout_def)
      show "\<exists>s. bkt s = bkt (futex_enqueue cur ua st) \<and> fuaddr s = fuaddr (futex_enqueue cur ua st) \<and>
          snd (futex_wait cur ua val ts now env st) = unlink cur s"
        by (rule exI [of _ "let s = futex_enqueue cur ua st in s\<lparr>timed_out := (timed_out s)(cur := False),
            tst := (tst s)(cur := RUNNING), on_futex := (on_futex s)(cur := False), deadline := (deadline s)(cur := None)\<rparr>"])
          (use True sg assms(2) t in \<open>simp add: futex_wait_def Let_def enqueue_sel futex_cleanup_def\<close>)
    qed
  qed
qed

lemma futex_ok_cong: "bkt s = bkt s' \<Longrightarrow> fuaddr s = fuaddr s' \<Longrightarrow> futex_ok s = futex_ok s'"
  by (simp add: futex_ok_def)

subsection \<open>Robust lists that form a ring\<close>

lemma owner_died_keeps_tid: "((v AND FUTEX_TID_MASK) OR FUTEX_OWNER_DIED) AND FUTEX_TID_MASK = v AND FUTEX_TID_MASK"
proof -
  have m: "FUTEX_TID_MASK = mask 30" and d: "FUTEX_OWNER_DIED = 2 ^ 30"
    by (simp_all add: FUTEX_TID_MASK_def FUTEX_OWNER_DIED_def mask_eq_exp_minus_1)
  have "bit FUTEX_OWNER_DIED n \<longleftrightarrow> n = 30" for n unfolding d bit_exp_iff by auto
  then show ?thesis by (intro bit_eqI) (auto simp: bit_simps m)
qed

lemma robust_mark_died_wakes:
  assumes "umem st (fcr3 st cur) ua = Some v" and "v AND FUTEX_TID_MASK = tid" and "distinct (bkt st b)" and "b = futex_bucket st cur ua"
  shows "\<exists>st'. robust_mark_died cur ua tid st = st' \<and> (\<exists>v'. umem st' (fcr3 st cur) ua = Some v' \<and> v' AND FUTEX_TID_MASK = tid) \<and>
    (\<forall>x. x \<noteq> ua \<longrightarrow> umem st' (fcr3 st cur) x = umem st (fcr3 st cur) x) \<and> fcr3 st' = fcr3 st \<and>
    distinct (bkt st' b) \<and> waiting_on st' b ua = drop 1 (waiting_on st b ua)"
proof -
  let ?s = "if uwritable st (fcr3 st cur) ua
    then st\<lparr>umem := (umem st)(fcr3 st cur := (umem st (fcr3 st cur))(ua := Some ((v AND FUTEX_TID_MASK) OR FUTEX_OWNER_DIED)))\<rparr> else st"
  have "int_count 1 = 1" by (simp add: int_count_def wrap32s_def)
  then have "snd (futex_wake cur ua 1 ?s) = wake_ref b ua 1 ?s"
    using wake_loop_ref [of ?s b ua 1 0] assms(3,4) by (cases "uwritable st (fcr3 st cur) ua") (simp_all add: futex_wake_def futex_bucket_def)
  then have "robust_mark_died cur ua tid st = wake_ref b ua 1 ?s" using assms(1,2)
    by (cases "uwritable st (fcr3 st cur) ua") (simp_all add: robust_mark_died_def Let_def)
  moreover have "waiting_on (wake_ref b ua 1 ?s) b ua = drop 1 (waiting_on st b ua)"
    using waiting_on_ref [of ?s b ua 1] assms(3)
    by (cases "uwritable st (fcr3 st cur) ua") (simp_all add: waiting_on_def)
  ultimately show ?thesis using owner_died_keeps_tid [of v] assms(1-3) by (auto simp: wake_ref_def Let_def)
qed

text \<open>
  The walk stops at NULL or after 2048 nodes, not when it returns to the head. On the ring of one
  held lock it visits the lock again and again, and since the marked word keeps the owner's
  number, each visit wakes another waiter.
\<close>

lemma robust_ring_rewakes:
  assumes "nxt e = Some h" and "nxt h = Some e" and "e \<noteq> 0" and "h \<noteq> 0" and "word h \<noteq> word e" and "b = futex_bucket st cur (word e)"
    and "umem st (fcr3 st cur) (word h) = None" and "umem st (fcr3 st cur) (word e) = Some v" and "v AND FUTEX_TID_MASK = tid"
    and "distinct (bkt st b)"
  shows "waiting_on (robust_walk nxt word cur tid (2 * k) e st) b (word e) = drop k (waiting_on st b (word e))"
  using assms(6-10)
proof (induction k arbitrary: st v)
  case (Suc k)
  let ?s = "robust_mark_died cur (word e) tid st"
  have M: "\<exists>v'. umem ?s (fcr3 st cur) (word e) = Some v' \<and> v' AND FUTEX_TID_MASK = tid"
    "\<forall>x. x \<noteq> word e \<longrightarrow> umem ?s (fcr3 st cur) x = umem st (fcr3 st cur) x" "fcr3 ?s = fcr3 st"
    "distinct (bkt ?s b)" "waiting_on ?s b (word e) = drop 1 (waiting_on st b (word e))"
    using robust_mark_died_wakes [OF Suc.prems(3-5,1)] by auto
  have h: "robust_mark_died cur (word h) tid ?s = ?s" using M(2,3) Suc.prems(2) assms(5) by (simp add: robust_mark_died_def)
  have "robust_walk nxt word cur tid (2 * Suc k) e st = robust_walk nxt word cur tid (2 * k) e ?s"
    using assms(1-4) h by simp
  moreover obtain v' where "umem ?s (fcr3 ?s cur) (word e) = Some v'" "v' AND FUTEX_TID_MASK = tid" using M(1,3) by auto
  ultimately show ?case using Suc.IH [of ?s v'] M Suc.prems(1,2) assms(5) by (simp add: futex_bucket_def)
qed simp

subsection \<open>Properties\<close>

text \<open>
  C34. Batched wake-up: FUTEX_WAKE collects waiters in batches of 32 under the bucket lock. The result
  is exactly that of one pass: the first \<open>val\<close> waiters on the address, in queue order, leave the
  bucket and are made runnable, everyone else keeps their place, and their number is returned.
\<close>

theorem futex_wake_batched:
  assumes "distinct (bkt st (futex_bucket st cur ua))"
  shows "futex_wake cur ua val st =
    (Inr (min (int_count val) (length (waiting_on st (futex_bucket st cur ua) ua))), wake_ref (futex_bucket st cur ua) ua (int_count val) st)"
  using wake_loop_ref [OF assms, of ua "int_count val" 0] by (simp add: futex_wake_def min.commute)

definition demo_fut :: "nat list \<Rightarrow> fut" where
  "demo_fut ts = \<lparr>bkt = (\<lambda>_. ts), fuaddr = (\<lambda>_. 0x1000), fcr3 = (\<lambda>t. if t = 0 then 0x4000 else 0x8000),
     tst = (\<lambda>_. BLOCKED), on_futex = (\<lambda>_. True), sigp = (\<lambda>_. False), timed_out = (\<lambda>_. False), deadline = (\<lambda>_. None),
     robust = (\<lambda>_. (0, 0)), umem = (\<lambda>_ _. Some 1),
     uwritable = (\<lambda>_ _. True)\<rparr>"

theorem futex_wake_batched_witness:
  "fst (futex_wake 5 0x1000 40 (demo_fut [0..<100])) = Inr 40 \<and>
     tst (snd (futex_wake 5 0x1000 40 (demo_fut [0..<100]))) 39 = READY"
proof -
  have n: "int_count 40 = 40" by (simp add: int_count_def wrap32s_def)
  have w: "waiting_on (demo_fut [0..<100]) b 0x1000 = [0..<100]" for b by (simp add: waiting_on_def demo_fut_def)
  have "39 \<in> set (take 40 [0..<100::nat])" by (simp add: take_upt)
  then show ?thesis using futex_wake_batched [of "demo_fut [0..<100]" 5 "0x1000" 40] n w
    by (simp add: wake_ref_def Let_def demo_fut_def)
qed

text \<open>
  C37. Wake-ups cross address spaces: the bucket index ignores the page-table root, and a waiter is
  matched by its virtual address alone. A FUTEX_WAKE of one waiter can therefore take a waiter of
  another process that sleeps on the same virtual address and leave the caller's own sibling asleep.
\<close>

theorem futex_wake_crosses:
  assumes "4096 dvd fcr3 st cur" and "4096 dvd fcr3 st other" and "bkt st (futex_bucket st other ua) = [other, mate]"
    and "other \<noteq> mate" and "fuaddr st other = ua" and "fuaddr st mate = ua" and "fcr3 st mate = fcr3 st cur"
    and "fcr3 st other \<noteq> fcr3 st cur" and "tst st other = BLOCKED" and "on_futex st other" and "tst st mate = BLOCKED"
  shows "\<exists>st'. futex_wake cur ua 1 st = (Inr 1, st') \<and> tst st' other = READY \<and> tst st' mate = BLOCKED \<and>
    bkt st' (futex_bucket st mate ua) = [mate]"
proof -
  have b: "futex_bucket st cur ua = futex_bucket st other ua" "futex_bucket st mate ua = futex_bucket st other ua"
    using futex_hash_page_aligned [OF assms(1)] futex_hash_page_aligned [OF assms(2)] assms(7) by (simp_all add: futex_bucket_def)
  let ?b = "futex_bucket st other ua"
  have "int_count 1 = 1" by (simp add: int_count_def wrap32s_def)
  moreover have w: "waiting_on st ?b ua = [other, mate]" using assms(3,5,6) by (simp add: waiting_on_def)
  ultimately have f: "futex_wake cur ua 1 st = (Inr 1, wake_ref ?b ua 1 st)"
    using wake_loop_ref [of st ?b ua 1 0] assms(3,4) b(1) by (simp add: futex_wake_def)
  show ?thesis unfolding f b(2) using assms(3,4,9-11) by (simp add: wake_ref_def w Let_def)
qed

theorem futex_wake_crosses_witness:
  "\<exists>st'. futex_wake 3 0x1000 1 (demo_fut [0, 1]) = (Inr 1, st') \<and> tst st' 0 = READY \<and> tst st' 1 = BLOCKED"
  using futex_wake_crosses [of "demo_fut [0, 1]" 3 0 "0x1000" 1] by (auto simp: demo_fut_def)





end
