(* ===== verification/Kvformat.thy ===== *)
theory Kvformat
  imports Prelude
begin

text \<open>
  The formatter of \<open>utils/kvformat.c\<close> as the kernel build has it (without \<open>%f\<close>), and its kernel
  clients \<open>vsnprintf\<close> and \<open>printk\<close> (\<open>kernel/xcore/log.c\<close>, \<open>kernel/driver/serial.c\<close>).

  The characters passed to \<open>putc\<close> are collected in a string. A format string is a list of
  characters whose end is the terminating NUL. A variadic argument is the 64-bit slot it
  occupies, or a string. \<open>None\<close> stands for undefined behaviour: a write beyond the local digit
  buffer, a read beyond the format's NUL, an overflowing width or count, or an argument of the wrong
  kind.
\<close>

datatype varg = A_Word u64 | A_Str "string option"

subsection \<open>Integers\<close>

definition digit_char :: "bool \<Rightarrow> nat \<Rightarrow> char" where
  "digit_char uppercase d = (if uppercase then ''0123456789ABCDEF'' else ''0123456789abcdef'') ! d"

definition BUF_SIZE :: nat where
  "BUF_SIZE = 20"

text \<open>The store \<open>buf[pos++] = c\<close> into the local buffer; beyond its end it is undefined.\<close>

definition buf_store :: "char \<Rightarrow> string \<times> nat \<Rightarrow> (string \<times> nat) option" where
  "buf_store c a = (case a of (buf, pos) \<Rightarrow> if pos < length buf then Some (buf[pos := c], pos + 1) else None)"

text \<open>The digit loop, least significant digit first.\<close>

function digit_loop :: "bool \<Rightarrow> nat \<Rightarrow> nat \<Rightarrow> string \<times> nat \<Rightarrow> (string \<times> nat) option" where
  "digit_loop up base val a =
     (if val = 0 \<or> base < 2 then Some a
      else case buf_store (digit_char up (val mod base)) a of
          None \<Rightarrow> None
        | Some a \<Rightarrow> digit_loop up base (val div base) a)"
  by pat_completeness auto
termination by (relation "measure (\<lambda>(_, _, v, _). v)") (auto simp: div_less_dividend)

declare digit_loop.simps [simp del]

text \<open>The padding loop, which stores the padding behind the digits.\<close>

function pad_loop :: "nat \<Rightarrow> char \<Rightarrow> string \<times> nat \<Rightarrow> (string \<times> nat) option" where
  "pad_loop width pad a =
     (if snd a < width then
        (case buf_store pad a of
           None \<Rightarrow> None
         | Some a \<Rightarrow> pad_loop width pad a)
      else Some a)"
  by pat_completeness auto
termination by (relation "measure (\<lambda>(width, _, a). width - snd a)") (auto simp: buf_store_def split: if_splits)

declare pad_loop.simps [simp del]

text \<open>\<open>while (--pos >= 0) putc(buf[pos])\<close>.\<close>

fun put_down :: "string \<Rightarrow> nat \<Rightarrow> string" where
  "put_down buf 0 = []"
| "put_down buf (Suc pos) = buf ! pos # put_down buf pos"

text \<open>The buffer starts with whatever is on the stack; no byte is read before it is stored.\<close>

definition kvfmt_uint :: "nat \<Rightarrow> nat \<Rightarrow> bool \<Rightarrow> nat \<Rightarrow> char \<Rightarrow> bool \<Rightarrow> (string \<times> nat) option" where
  "kvfmt_uint val base uppercase width pad left_align =
     (let a = (replicate BUF_SIZE CHR 0x00, 0)
      in case (if val = 0 then buf_store CHR ''0'' a else digit_loop uppercase base val a) of
           None \<Rightarrow> None
         | Some (buf, ndigits) \<Rightarrow>
             let r = (if width < ndigits then ndigits else width)
             in if left_align then Some (put_down buf ndigits @ replicate (width - ndigits) CHR '' '', r)
                else (case pad_loop width pad (buf, ndigits) of
                    None \<Rightarrow> None
                  | Some (buf, pos) \<Rightarrow> Some (put_down buf pos, r)))"

function count_digits :: "nat \<Rightarrow> nat" where
  "count_digits v = (if v < 10 then 1 else Suc (count_digits (v div 10)))"
  by pat_completeness auto
termination by (relation "measure id") auto

declare count_digits.simps [simp del]

definition kvfmt_int :: "int \<Rightarrow> nat \<Rightarrow> char \<Rightarrow> bool \<Rightarrow> (string \<times> nat) option" where
  "kvfmt_int val width pad left_align =
     (if 0 \<le> val then kvfmt_uint (nat val) 10 False width pad left_align
      else
        let uval = nat (- val);
            ndigits = count_digits uval;
            total = ndigits + 1;
            pcount = (if total < width then width - total else 0)
        in if left_align then
          map_option (\<lambda>(s, n). (CHR ''-'' # s @ replicate pcount CHR '' '', 1 + n + pcount))
            (kvfmt_uint uval 10 False 0 CHR '' '' False)
        else if pad = CHR ''0'' then
          map_option (\<lambda>(s, n). (CHR ''-'' # s, 1 + n)) (kvfmt_uint uval 10 False (ndigits + pcount) CHR ''0'' False)
        else
          map_option (\<lambda>(s, n). (replicate pcount CHR '' '' @ CHR ''-'' # s, pcount + 1 + n))
            (kvfmt_uint uval 10 False 0 CHR '' '' False))"

subsection \<open>Parsing a conversion\<close>

record conv =
  left :: bool
  alt :: bool
  width :: nat
  pad :: char
  precision :: "nat option"
  is_long :: bool
  is_long_long :: bool
  is_size :: bool

definition peek :: "string \<Rightarrow> char" where
  "peek s = (case s of [] \<Rightarrow> CHR 0x00 | c # _ \<Rightarrow> c)"

fun parse_flags :: "string \<Rightarrow> bool \<Rightarrow> bool \<Rightarrow> bool \<times> bool \<times> string" where
  "parse_flags [] l a = (l, a, [])"
| "parse_flags (c # cs) l a =
     (if c = CHR ''-'' then parse_flags cs True a
      else if c = CHR ''#'' then parse_flags cs l True
      else (l, a, c # cs))"

definition is_digit :: "char \<Rightarrow> bool" where
  "is_digit c \<longleftrightarrow> 48 \<le> (of_char c :: nat) \<and> (of_char c :: nat) \<le> 57"

fun parse_num :: "string \<Rightarrow> nat \<Rightarrow> (nat \<times> string) option" where
  "parse_num [] n = Some (n, [])"
| "parse_num (c # cs) n =
     (if is_digit c then
        let m = n * 10 + (of_char c - 48) in if m < 2 ^ 31 then parse_num cs m else None
      else Some (n, c # cs))"

fun pop_word :: "varg list \<Rightarrow> (u64 \<times> varg list) option" where
  "pop_word (A_Word w # args) = Some (w, args)"
| "pop_word _ = None"

definition parse_precision :: "string \<Rightarrow> varg list \<Rightarrow> (nat option \<times> string \<times> varg list) option" where
  "parse_precision s args =
     (if peek s = CHR ''.'' then
        if peek (drop 1 s) = CHR ''*'' then
          (case pop_word args of
             None \<Rightarrow> None
           | Some (w, args) \<Rightarrow>
               let star = wrap32s (int w) in Some (if star < 0 then None else Some (nat star), drop 2 s, args))
        else
          (case parse_num (drop 1 s) 0 of
             None \<Rightarrow> None
           | Some (n, s) \<Rightarrow> Some (Some n, s, args))
      else Some (None, s, args))"

definition parse_length :: "string \<Rightarrow> bool \<times> bool \<times> bool \<times> string" where
  "parse_length s =
     (let l = (peek s = CHR ''l''); s = (if l then drop 1 s else s);
          ll = (l \<and> peek s = CHR ''l''); s = (if ll then drop 1 s else s);
          z = (peek s = CHR ''z''); s = (if z then drop 1 s else s)
      in (l, ll, z, s))"

definition parse_conv :: "string \<Rightarrow> varg list \<Rightarrow> (conv \<times> string \<times> varg list) option" where
  "parse_conv s args =
     (let (l, a, s) = parse_flags s False False;
          zero = (peek s = CHR ''0'' \<and> \<not> l);
          s = (if zero then drop 1 s else s)
      in case parse_num s 0 of
           None \<Rightarrow> None
         | Some (w, s) \<Rightarrow>
             (case parse_precision s args of
                None \<Rightarrow> None
              | Some (p, s, args) \<Rightarrow>
                  let (lo, ll, z, s) = parse_length s
                  in Some (\<lparr>left = l, alt = a, width = w, pad = (if zero then CHR ''0'' else CHR '' ''), precision = p,
                            is_long = lo, is_long_long = ll, is_size = z\<rparr>, s, args)))"

subsection \<open>Emitting a conversion\<close>

definition wide :: "conv \<Rightarrow> bool" where
  "wide v \<longleftrightarrow> is_long_long v \<or> is_long v \<or> is_size v"

definition get_signed :: "conv \<Rightarrow> u64 \<Rightarrow> int" where
  "get_signed v w = (if wide v then int_of_u64 w else wrap32s (int w))"

definition get_unsigned :: "conv \<Rightarrow> u64 \<Rightarrow> nat" where
  "get_unsigned v w = (if wide v then w mod 2 ^ 64 else w mod 2 ^ 32)"

definition emit_str :: "conv \<Rightarrow> string option \<Rightarrow> (string \<times> nat) option" where
  "emit_str v arg =
     (let s = (case arg of None \<Rightarrow> ''(null)'' | Some s \<Rightarrow> s);
          n = length s;
          slen = (case precision v of None \<Rightarrow> n | Some p \<Rightarrow> if p < n then p else n);
          body = take slen s;
          fill = replicate (width v - slen) CHR '' ''
      in if 2 ^ 31 \<le> n then None
         else Some (if left v then body @ fill else fill @ body, if width v < slen then slen else width v))"

text \<open>An integer with the prefix that \<open>#\<close> asks for.\<close>

definition emit_alt :: "conv \<Rightarrow> string \<Rightarrow> nat \<Rightarrow> bool \<Rightarrow> nat \<Rightarrow> (string \<times> nat) option" where
  "emit_alt v prefix base upper val =
     (if alt v \<and> val \<noteq> 0 then
        map_option (\<lambda>(s, n). (prefix @ s, length prefix + n))
          (kvfmt_uint val base upper (if length prefix < width v then width v - length prefix else 0) (pad v) (left v))
      else kvfmt_uint val base upper (width v) (pad v) (left v))"

definition emit_unknown :: "conv \<Rightarrow> char \<Rightarrow> string \<times> nat" where
  "emit_unknown v c =
     (let m = (if is_long_long v then ''ll'' else if is_long v then ''l'' else []) @ (if is_size v then ''z'' else [])
      in (CHR ''%'' # m @ [c], 2 + length m))"

definition emit_conv :: "conv \<Rightarrow> char \<Rightarrow> varg list \<Rightarrow> ((string \<times> nat) \<times> varg list) option" where
  "emit_conv v c args =
     (let with_word = (\<lambda>f. Option.bind (pop_word args) (\<lambda>(w, args). Option.bind (f w) (\<lambda>out. Some (out, args))))
      in if c = CHR ''%'' then Some ((''%'', 1), args)
      else if c = CHR ''c'' then with_word (\<lambda>w. Some ([char_of (w mod 256)], 1))
      else if c = CHR ''s'' then
        (case args of A_Str s # args \<Rightarrow> map_option (\<lambda>out. (out, args)) (emit_str v s) | _ \<Rightarrow> None)
      else if c = CHR ''d'' then with_word (\<lambda>w. kvfmt_int (get_signed v w) (width v) (pad v) (left v))
      else if c = CHR ''u'' then with_word (\<lambda>w. kvfmt_uint (get_unsigned v w) 10 False (width v) (pad v) (left v))
      else if c = CHR ''o'' then with_word (\<lambda>w. emit_alt v ''0'' 8 False (get_unsigned v w))
      else if c = CHR ''x'' then with_word (\<lambda>w. emit_alt v ''0x'' 16 False (get_unsigned v w))
      else if c = CHR ''X'' then with_word (\<lambda>w. emit_alt v ''0X'' 16 True (get_unsigned v w))
      else if c = CHR ''p'' then
        with_word (\<lambda>w. map_option (\<lambda>(s, n). (''0x'' @ s, 2 + n)) (kvfmt_uint (w mod 2 ^ 64) 16 False 0 CHR ''0'' False))
      else Some (emit_unknown v c, args))"

subsection \<open>The formatter\<close>

text \<open>After the conversion character the loop moves on; at the end of the string there is none to move past.\<close>

definition one_conv :: "string \<Rightarrow> varg list \<Rightarrow> ((string \<times> nat) \<times> string \<times> varg list) option" where
  "one_conv s args =
     (case parse_conv s args of
        None \<Rightarrow> None
      | Some (v, [], args) \<Rightarrow> None
      | Some (v, c # s, args) \<Rightarrow> map_option (\<lambda>(out, args). (out, s, args)) (emit_conv v c args))"

lemma parse_flags_length: "parse_flags s l a = (l', a', s') \<Longrightarrow> length s' \<le> length s"
  by (induction s l a rule: parse_flags.induct) (auto split: if_splits)

lemma parse_num_length: "parse_num s n = Some (m, s') \<Longrightarrow> length s' \<le> length s"
  by (induction s n rule: parse_num.induct) (auto simp: Let_def split: if_splits)

lemma parse_precision_length: "parse_precision s args = Some (p, s', args') \<Longrightarrow> length s' \<le> length s"
  by (auto simp: parse_precision_def Let_def split: if_splits option.splits dest!: parse_num_length)

lemma parse_length_length: "parse_length s = (l, ll, z, s') \<Longrightarrow> length s' \<le> length s"
  by (auto simp: parse_length_def Let_def split: if_splits)

lemma one_conv_length: "one_conv s args = Some (out, s', args') \<Longrightarrow> length s' < Suc (length s)"
  by (force simp: one_conv_def parse_conv_def Let_def split: option.splits prod.splits list.splits if_splits
      dest!: parse_flags_length parse_num_length parse_precision_length parse_length_length)

text \<open>
  \<open>count\<close> is an \<open>int\<close>: a text of more than INT_MAX characters overflows it. It only grows, so that some
  addition overflows exactly when the total does.
\<close>

definition add_out :: "string \<times> nat \<Rightarrow> (string \<times> nat) option \<Rightarrow> (string \<times> nat) option" where
  "add_out p rest =
     (case rest of
        None \<Rightarrow> None
      | Some (out, n) \<Rightarrow> if snd p + n < 2 ^ 31 then Some (fst p @ out, snd p + n) else None)"

function kvformat :: "string \<Rightarrow> varg list \<Rightarrow> (string \<times> nat) option" where
  "kvformat [] args = Some ([], 0)"
| "kvformat (c # s) args =
     (if c \<noteq> CHR ''%'' then add_out ([c], 1) (kvformat s args)
      else case one_conv s args of
          None \<Rightarrow> None
        | Some (out, s', args') \<Rightarrow> add_out out (kvformat s' args'))"
  by pat_completeness auto
termination by (relation "measure (\<lambda>(s, _). length s)") (auto dest: one_conv_length)

subsection \<open>Kernel clients\<close>

text \<open>\<open>snprintf_putc\<close> on the buffer and position; \<open>cap\<close> is the buffer size.\<close>

definition snprintf_putc :: "nat \<Rightarrow> char \<Rightarrow> string \<times> nat \<Rightarrow> string \<times> nat" where
  "snprintf_putc cap c a = (case a of (buf, pos) \<Rightarrow> if pos + 1 < cap then (buf[pos := c], pos + 1) else (buf, pos))"

definition vsnprintf :: "string \<Rightarrow> string \<Rightarrow> varg list \<Rightarrow> (nat \<times> string) option" where
  "vsnprintf buf fmt args =
     (case kvformat fmt args of
        None \<Rightarrow> None
      | Some (out, n) \<Rightarrow>
          let sz = length buf;
              (buf, pos) = fold (snprintf_putc sz) out (buf, 0)
          in Some (n, if 0 < sz then if pos < sz then buf[pos := CHR 0x00] else buf[sz - 1 := CHR 0x00] else buf))"

definition serial_buf_putc :: "char \<Rightarrow> string \<times> nat \<Rightarrow> string \<times> nat" where
  "serial_buf_putc c a = (case a of (buf, pos) \<Rightarrow> if pos < 255 then (buf[pos := c], pos + 1) else (buf, pos))"

text \<open>What \<open>serial_vprintf_locked\<close> sends to the port, given its stack buffer of 256 bytes.\<close>

definition serial_vprintf_locked :: "string \<Rightarrow> string \<Rightarrow> varg list \<Rightarrow> string option" where
  "serial_vprintf_locked stack fmt args =
     (case kvformat fmt args of
        None \<Rightarrow> None
      | Some (out, _) \<Rightarrow>
          let (buf, pos) = fold serial_buf_putc out (stack, 0)
          in Some (takeWhile (\<lambda>c. c \<noteq> CHR 0x00) (buf[pos := CHR 0x00])))"

subsection \<open>Digits\<close>

text \<open>The digits of a number, least significant first, and the text stored for it.\<close>

function digits_of :: "bool \<Rightarrow> nat \<Rightarrow> nat \<Rightarrow> string" where
  "digits_of up base val =
     (if val = 0 \<or> base < 2 then [] else digit_char up (val mod base) # digits_of up base (val div base))"
  by pat_completeness auto
termination by (relation "measure (\<lambda>(_, _, v). v)") (auto simp: div_less_dividend)

declare digits_of.simps [simp del]

definition digit_text :: "bool \<Rightarrow> nat \<Rightarrow> nat \<Rightarrow> string" where
  "digit_text up base val = (if val = 0 then ''0'' else digits_of up base val)"

text \<open>Storing a whole text into the buffer: defined exactly when it fits.\<close>

fun store_all :: "string \<Rightarrow> string \<times> nat \<Rightarrow> (string \<times> nat) option" where
  "store_all [] a = Some a"
| "store_all (c # cs) a = (case buf_store c a of None \<Rightarrow> None | Some a \<Rightarrow> store_all cs a)"

lemma store_all_eq:
  "pos \<le> length b \<Longrightarrow> store_all cs (b, pos) =
     (if pos + length cs \<le> length b then Some (take pos b @ cs @ drop (pos + length cs) b, pos + length cs) else None)"
proof (induction cs arbitrary: b pos)
  case (Cons c cs)
  show ?case
  proof (cases "pos < length b")
    case True
    then have "take (Suc pos) (b[pos := c]) = take pos b @ [c]" by (simp add: take_Suc_conv_app_nth)
    then show ?thesis using Cons.IH [of "pos + 1" "b[pos := c]"] True by (simp add: buf_store_def)
  qed (use Cons.prems in \<open>simp add: buf_store_def\<close>)
qed simp

lemma digit_loop_store: "digit_loop up base val a = store_all (digits_of up base val) a"
proof (induction up base val a rule: digit_loop.induct)
  case (1 up base val a)
  show ?case by (subst digit_loop.simps, subst digits_of.simps) (use 1 in \<open>simp split: option.split\<close>)
qed

lemma pad_loop_store: "pad_loop w p a = store_all (replicate (w - snd a) p) a"
proof (induction w p a rule: pad_loop.induct)
  case (1 w p a)
  show ?case
  proof (cases "snd a < w")
    case True
    then have "w - snd a = Suc (w - Suc (snd a))" by simp
    then show ?thesis using True 1 by (subst pad_loop.simps) (auto simp: buf_store_def split: prod.splits option.splits if_splits)
  qed (simp add: pad_loop.simps)
qed

lemma put_down_eq: "n \<le> length buf \<Longrightarrow> put_down buf n = rev (take n buf)"
  by (induction n) (simp_all add: take_Suc_conv_app_nth)

text \<open>The text of an unsigned conversion, and when it is defined.\<close>

lemma kvfmt_uint_eq:
  "kvfmt_uint val base up w p left_align =
     (let t = digit_text up base val; n = length t; r = (if w < n then n else w)
      in if BUF_SIZE < n \<or> \<not> left_align \<and> BUF_SIZE < w then None
         else Some (if left_align then rev t @ replicate (w - n) CHR '' '' else replicate (w - n) p @ rev t, r))"
proof -
  let ?t = "digit_text up base val" and ?a = "(replicate BUF_SIZE CHR 0x00, 0 :: nat)"
  let ?b = "?t @ drop (length ?t) (replicate BUF_SIZE CHR 0x00)"
  have t: "(if val = 0 then buf_store CHR ''0'' ?a else digit_loop up base val ?a) = store_all ?t ?a"
    by (simp add: digit_text_def digit_loop_store split: option.split)
  have "store_all ?t ?a = (if length ?t \<le> BUF_SIZE then Some (?b, length ?t) else None)"
    by (subst store_all_eq) simp_all
  moreover have "pad_loop w p (?b, length ?t) =
      (if max w (length ?t) \<le> BUF_SIZE then Some (?t @ replicate (w - length ?t) p @ drop (max w (length ?t)) ?b, max w (length ?t)) else None)"
    if "length ?t \<le> BUF_SIZE"
    using that unfolding pad_loop_store by (subst store_all_eq) (auto simp: max_def)
  ultimately show ?thesis unfolding kvfmt_uint_def Let_def t
    by (auto simp: put_down_eq max_def)
qed

definition digit_val :: "char \<Rightarrow> nat" where
  "digit_val c = (let n = (of_char c :: nat) in if n \<le> 57 then n - 48 else if n \<le> 70 then n - 55 else n - 87)"

definition read_nat :: "nat \<Rightarrow> string \<Rightarrow> nat" where
  "read_nat base s = foldl (\<lambda>a c. a * base + digit_val c) 0 s"

definition read_int :: "string \<Rightarrow> int" where
  "read_int s = (case s of [] \<Rightarrow> 0 | c # cs \<Rightarrow> if c = CHR ''-'' then - int (read_nat 10 cs) else int (read_nat 10 s))"

lemma digit_chars: "d < 16 \<Longrightarrow> digit_val (digit_char up d) = d \<and> digit_char up d \<noteq> CHR ''-''"
proof -
  have "\<forall>up \<in> {True, False}. \<forall>d \<in> set [0..<16]. digit_val (digit_char up d) = d \<and> digit_char up d \<noteq> CHR ''-''"
    by code_simp
  then show "d < 16 \<Longrightarrow> digit_val (digit_char up d) = d \<and> digit_char up d \<noteq> CHR ''-''" by (cases up) auto
qed

lemma read_nat_rev: "read_nat base (rev s) = foldr (\<lambda>c a. a * base + digit_val c) s 0"
  by (simp add: read_nat_def foldl_conv_foldr)

lemma digits_of_val:
  assumes "2 \<le> base" and "base \<le> 16"
  shows "foldr (\<lambda>c a. a * base + digit_val c) (digits_of up base v) 0 = v"
proof (induction v rule: less_induct)
  case (less v)
  show ?case
  proof (cases "v = 0")
    case False
    have "v mod base < base" using assms(1) by simp
    then have "v mod base < 16" using assms(2) by simp
    moreover have "v div base < v" using False assms(1) by (simp add: div_less_dividend)
    ultimately show ?thesis using False assms(1) less [of "v div base"]
      by (subst digits_of.simps) (simp add: digit_chars div_mult_mod_eq)
  qed (simp add: digits_of.simps)
qed

lemma digits_of_length: "2 \<le> base \<Longrightarrow> length (digits_of up base v) \<le> n \<longleftrightarrow> v < base ^ n"
proof (induction n arbitrary: v)
  case 0
  then show ?case by (subst digits_of.simps) auto
next
  case (Suc n)
  have "v div base < base ^ n \<longleftrightarrow> v < base ^ n * base" using Suc.prems by (simp add: div_less_iff_less_mult)
  then show ?case using Suc by (subst digits_of.simps) (auto simp: mult.commute)
qed

lemma digits_of_chars: "2 \<le> base \<Longrightarrow> base \<le> 16 \<Longrightarrow> c \<in> set (digits_of up base v) \<Longrightarrow> c \<noteq> CHR ''-''"
proof (induction v rule: less_induct)
  case (less v)
  have "v mod base < base" using less.prems(1) by simp
  then have "v mod base < 16" using less.prems(2) by simp
  moreover have "v div base < v" if "v \<noteq> 0" using that less.prems(1) by (simp add: div_less_dividend)
  ultimately show ?case
    using less.prems(3) less.IH [of "v div base", OF _ less.prems(1,2)] digit_chars [of "v mod base" up]
    by (subst (asm) digits_of.simps) (auto split: if_splits)
qed

lemma count_digits_loop: "0 < v \<Longrightarrow> count_digits v = length (digits_of up 10 v)"
proof (induction v rule: less_induct)
  case (less v)
  show ?case
  proof (cases "v < 10")
    case True
    then have "digits_of up 10 (v div 10) = []" by (simp add: digits_of.simps)
    then show ?thesis using True less.prems by (simp add: count_digits.simps [of v] digits_of.simps [of up 10 v])
  next
    case False
    then have "count_digits (v div 10) = length (digits_of up 10 (v div 10))" by (intro less.IH) auto
    then show ?thesis using False by (simp add: count_digits.simps [of v] digits_of.simps [of up 10 v])
  qed
qed

text \<open>The text of a number.\<close>

lemma digit_text_facts:
  assumes "2 \<le> base" and "base \<le> 16"
  shows "read_nat base (rev (digit_text up base v)) = v" and "0 < n \<Longrightarrow> length (digit_text up base v) \<le> n \<longleftrightarrow> v < base ^ n"
    and "CHR ''-'' \<notin> set (digit_text up base v)" and "digit_text up base v \<noteq> []"
proof -
  show "read_nat base (rev (digit_text up base v)) = v"
    using digits_of_val [OF assms, of up v] by (auto simp: digit_text_def read_nat_rev digit_val_def)
  show "0 < n \<Longrightarrow> length (digit_text up base v) \<le> n \<longleftrightarrow> v < base ^ n"
    using digits_of_length [OF assms(1), of up v n] assms(1) by (auto simp: digit_text_def)
  show "CHR ''-'' \<notin> set (digit_text up base v)" using digits_of_chars [OF assms] by (auto simp: digit_text_def)
  show "digit_text up base v \<noteq> []" using assms(1) by (auto simp: digit_text_def digits_of.simps [of up base v])
qed

subsection \<open>Counts\<close>

lemma kvfmt_uint_count: "kvfmt_uint val base up w p l = Some (s, n) \<Longrightarrow> n = length s"
  by (auto simp: kvfmt_uint_eq Let_def split: if_splits)

lemma kvfmt_int_count: "kvfmt_int val w p l = Some (s, n) \<Longrightarrow> n = length s"
  by (auto simp: kvfmt_int_def Let_def split: if_splits dest!: kvfmt_uint_count)

lemma emit_alt_count: "emit_alt v prefix base up val = Some (s, n) \<Longrightarrow> n = length s"
  by (auto simp: emit_alt_def split: if_splits dest!: kvfmt_uint_count)

lemma emit_str_count: "emit_str v arg = Some (s, n) \<Longrightarrow> n = length s"
  by (auto simp: emit_str_def Let_def split: if_splits option.splits)

lemma emit_conv_count: "emit_conv v c args = Some ((s, n), args') \<Longrightarrow> n = length s"
  by (auto simp: emit_conv_def Let_def emit_unknown_def split: if_splits option.splits list.splits varg.splits bind_splits
      dest!: kvfmt_uint_count kvfmt_int_count emit_alt_count emit_str_count)

lemma one_conv_count: "one_conv s args = Some (out, s', args') \<Longrightarrow> snd out = length (fst out)"
  by (cases out) (auto simp: one_conv_def split: option.splits prod.splits list.splits dest: emit_conv_count)

lemma kvformat_count: "kvformat fmt args = Some (out, n) \<Longrightarrow> n = length out"
proof (induction fmt args arbitrary: out n rule: kvformat.induct)
  case (2 c s args)
  show ?case
  proof (cases "c = CHR ''%''")
    case True
    obtain o1 s' args' where C: "one_conv s args = Some (o1, s', args')" "add_out o1 (kvformat s' args') = Some (out, n)"
      using 2(3) True by (auto split: option.splits)
    then show ?thesis using one_conv_count [OF C(1)] 2(2) [of "(o1, s', args')" o1 "(s', args')" s' args'] True
      by (auto simp: add_out_def split: option.splits if_splits)
  next
    case False
    then show ?thesis using 2(1,3) by (auto simp: add_out_def split: option.splits if_splits)
  qed
qed simp

subsection \<open>Buffers\<close>

text \<open>Bounded \<open>putc\<close> callbacks keep the first characters that fit.\<close>

lemma fold_bounded_putc:
  assumes step: "\<And>c b pos. f c (b, pos) = (if pos < m then (b[pos := c], pos + 1) else (b, pos))" and "m \<le> length b" and "pos \<le> m"
  shows "fold f out (b, pos) =
    (take pos b @ take (m - pos) out @ drop (pos + length (take (m - pos) out)) b, pos + length (take (m - pos) out))"
  using assms(2,3)
proof (induction out arbitrary: b pos)
  case (Cons c out)
  show ?case
  proof (cases "pos < m")
    case True
    have "fold f (c # out) (b, pos) = fold f out (b[pos := c], pos + 1)" using True by (simp add: step)
    also have "\<dots> = (take (pos + 1) (b[pos := c]) @ take (m - (pos + 1)) out @ drop (pos + 1 + length (take (m - (pos + 1)) out)) (b[pos := c]),
        pos + 1 + length (take (m - (pos + 1)) out))"
      using Cons.IH [of "b[pos := c]" "pos + 1"] Cons.prems True by simp
    also have "take (pos + 1) (b[pos := c]) = take pos b @ [c]" using True Cons.prems by (simp add: take_Suc_conv_app_nth)
    finally show ?thesis using True Cons.prems by (simp add: take_Cons' Suc_diff_Suc)
  qed (use Cons in \<open>simp add: step\<close>)
qed simp

lemma snprintf_fold:
  assumes "0 < length b"
  shows "fold (snprintf_putc (length b)) out (b, 0) =
    (take (length b - 1) out @ drop (length (take (length b - 1) out)) b, length (take (length b - 1) out))"
proof -
  have "snprintf_putc (length b) c (x, pos) = (if pos < length b - 1 then (x[pos := c], pos + 1) else (x, pos))" for c x pos
    by (auto simp: snprintf_putc_def)
  from fold_bounded_putc [of "snprintf_putc (length b)", OF this, of b 0 out] show ?thesis by simp
qed

subsection \<open>Properties\<close>

lemmas conv_defs = one_conv_def parse_conv_def is_digit_def parse_precision_def parse_length_def peek_def emit_conv_def wide_def
  get_unsigned_def get_signed_def emit_alt_def add_out_def

text \<open>
  C38. Bounded formatting: whenever the formatter is defined, \<open>vsnprintf\<close> stores the longest prefix of
  the formatted text that fits, terminates it within the buffer, leaves the bytes after it alone,
  and returns the number of characters of the whole text.
\<close>

theorem vsnprintf_prefix:
  assumes "kvformat fmt args = Some (out, n)"
  shows "vsnprintf buf fmt args =
    Some (length out,
      if buf = [] then []
      else take (length buf - 1) out @ CHR 0x00 # drop (Suc (min (length buf - 1) (length out))) buf)"
proof (cases "buf = []")
  case True
  have "fold (snprintf_putc 0) out ([], 0) = ([], 0)" by (induction out) (simp_all add: snprintf_putc_def)
  then show ?thesis using True assms kvformat_count [OF assms] by (simp add: vsnprintf_def)
next
  case False
  let ?t = "take (length buf - 1) out"
  have le: "length ?t < length buf" using False by (cases buf) auto
  then have "(?t @ drop (length ?t) buf)[length ?t := CHR 0x00] = ?t @ CHR 0x00 # drop (Suc (length ?t)) buf"
    by (simp add: list_update_append Cons_nth_drop_Suc [symmetric] del: length_take)
  then show ?thesis using False le assms kvformat_count [OF assms] snprintf_fold [of buf out]
    by (simp add: vsnprintf_def Let_def min.commute)
qed

theorem vsnprintf_prefix_witness:
  "vsnprintf ''......'' ''%d-%x!'' [A_Word 42, A_Word 255] = Some (6, ''42-ff'' @ [CHR 0x00])"
proof -
  have "kvformat ''%d-%x!'' [A_Word 42, A_Word 255] = Some (''42-ff!'', 6)"
    by (simp add: conv_defs wrap32s_def kvfmt_int_def kvfmt_uint_eq digit_text_def digits_of.simps digit_char_def BUF_SIZE_def
        Let_def)
  from vsnprintf_prefix [OF this, of "''......''"] show ?thesis by simp
qed

text \<open>The alphabet of the digits, and a conversion without flags and width.\<close>

lemma digits_of_alphabet: "2 \<le> base \<Longrightarrow> c \<in> set (digits_of up base v) \<Longrightarrow> \<exists>d < base. c = digit_char up d"
proof (induction v rule: less_induct)
  case (less v)
  have "v div base < v" if "v \<noteq> 0" using that less.prems(1) by (simp add: div_less_dividend)
  moreover have "\<exists>d < base. digit_char up (v mod base) = digit_char up d" using less.prems(1) by (intro exI [of _ "v mod base"]) simp
  ultimately show ?case using less.prems(2) less.IH [of "v div base", OF _ less.prems(1)]
    by (subst (asm) digits_of.simps) (auto split: if_splits)
qed

lemma digit_text_alphabet:
  assumes "2 \<le> base"
  shows "set (digit_text up base v) \<subseteq> digit_char up ` {..<base}"
proof -
  have "CHR ''0'' = digit_char up 0" by (simp add: digit_char_def)
  then have "CHR ''0'' \<in> digit_char up ` {..<base}" using assms by (auto intro!: image_eqI [of _ _ 0])
  moreover have "set (digits_of up base v) \<subseteq> digit_char up ` {..<base}" using digits_of_alphabet [OF assms] by blast
  ultimately show ?thesis by (simp add: digit_text_def)
qed

lemma alphabets:
  "digit_char False ` {..<10} = set ''0123456789''" "digit_char False ` {..<8} = set ''01234567''"
  "digit_char False ` {..<16} = set ''0123456789abcdef''" "digit_char True ` {..<16} = set ''0123456789ABCDEF''"
  unfolding atLeast0LessThan [symmetric] set_upt [symmetric] set_map [symmetric] by code_simp+

lemma uint_bare:
  assumes "base \<in> {8, 10, 16}"
  shows "kvfmt_uint v base up 0 CHR '' '' False =
    (if v < base ^ 20 then Some (rev (digit_text up base v), length (digit_text up base v)) else None)"
  using digit_text_facts(2) [of base 20 up v] assms by (auto simp: kvfmt_uint_eq BUF_SIZE_def Let_def)

lemma read_int_text: "read_int (rev (digit_text False 10 w)) = int w"
  using digit_text_facts(1,3,4) [of 10 False w] by (cases "rev (digit_text False 10 w)") (auto simp: read_int_def dest: arg_cong [of _ _ set])

lemma int_bare:
  assumes "nat \<bar>i\<bar> < 10 ^ 20"
  shows "\<exists>s. kvfmt_int i 0 CHR '' '' False = Some (s, length s) \<and> set s \<subseteq> set ''-0123456789'' \<and> read_int s = i \<and> length s < 2 ^ 31"
proof -
  define w where "w = nat \<bar>i\<bar>"
  define t where "t = rev (digit_text False 10 w)"
  have w: "w < 10 ^ 20" using assms by (simp only: w_def)
  have U: "kvfmt_uint w 10 False 0 CHR '' '' False = Some (t, length t)"
    using uint_bare [of 10 w False] w by (simp add: t_def)
  have L: "length t \<le> 20" using digit_text_facts(2) [of 10 20 False w] w by (simp add: t_def)
  have "set t \<subseteq> set ''0123456789''" using digit_text_alphabet [of 10 False w] alphabets(1) by (simp only: t_def set_rev)
  also have "\<dots> \<subseteq> set ''-0123456789''" by (rule set_subset_Cons)
  finally have A: "set t \<subseteq> set ''-0123456789''" .
  show ?thesis
  proof (cases "0 \<le> i")
    case True
    then have i: "nat i = w" "int w = i" by (simp_all add: w_def)
    have "kvfmt_int i 0 CHR '' '' False = Some (t, length t)" unfolding kvfmt_int_def i(1) if_P [OF True] by (rule U)
    moreover have "read_int t = i" unfolding t_def read_int_text by (rule i(2))
    moreover have "length t < 2 ^ 31" using L by simp
    ultimately show ?thesis using A by blast
  next
    case False
    then have i: "nat (- i) = w" "- int w = i" by (simp_all add: w_def)
    have "kvfmt_int i 0 CHR '' '' False = Some (CHR ''-'' # t, length (CHR ''-'' # t))"
      unfolding kvfmt_int_def i(1) Let_def using False U by simp
    moreover have "read_nat 10 t = w" unfolding t_def by (rule digit_text_facts(1)) simp_all
    then have "read_int (CHR ''-'' # t) = i" using i(2) by (simp add: read_int_def)
    moreover have "length (CHR ''-'' # t) < 2 ^ 31" using L by simp
    moreover have "set (CHR ''-'' # t) \<subseteq> set ''-0123456789''" using A by (simp only: list.set insert_subset) simp
    ultimately show ?thesis by blast
  qed
qed

lemma number_bare:
  assumes "base \<in> {8, 10, 16}"
  shows "if v < base ^ 20 then
      \<exists>s. Option.bind (kvfmt_uint v base up 0 CHR '' '' False) (\<lambda>o1. add_out o1 (Some ([], 0))) = Some (s, length s) \<and>
        set s \<subseteq> digit_char up ` {..<base} \<and> read_nat base s = v
    else Option.bind (kvfmt_uint v base up 0 CHR '' '' False) (\<lambda>o1. add_out o1 (Some ([], 0))) = None"
proof -
  have b: "2 \<le> base" "base \<le> 16" using assms by auto
  show ?thesis
  proof (cases "v < base ^ 20")
    case True
    have "length (digit_text up base v) < 2 ^ 31" using True digit_text_facts(2) [OF b, of 20 up v] by simp
    then show ?thesis using True uint_bare [OF assms] digit_text_facts(1) [OF b, of up v] digit_text_alphabet [OF b(1), of up v]
      by (auto simp: add_out_def)
  qed (simp add: uint_bare [OF assms])
qed

text \<open>Reading a slot as a C integer.\<close>

lemma signed_of_unsigned:
  fixes x h :: int
  assumes "0 \<le> x" and "x < 2 * h"
  shows "(x + h) mod (2 * h) - h = (if x < h then x else x - 2 * h)"
proof (cases "x < h")
  case False
  have "(x + h) mod (2 * h) = (x - h + 2 * h) mod (2 * h)" by (simp add: add.commute)
  also have "\<dots> = x - h" using False assms by (simp only: mod_add_self2) (simp add: mod_pos_pos_trivial)
  finally show ?thesis using False by simp
qed (use assms in \<open>simp add: mod_pos_pos_trivial\<close>)

lemma wrap32s_unsigned: "wrap32s (int v) = (if v mod 2 ^ 32 < 2 ^ 31 then int (v mod 2 ^ 32) else int (v mod 2 ^ 32) - 2 ^ 32)"
proof -
  have "wrap32s (int v) = (int v mod 2 ^ 32 + 2 ^ 31) mod 2 ^ 32 - 2 ^ 31" unfolding wrap32s_def by (simp only: mod_add_left_eq)
  also have "int v mod 2 ^ 32 = int (v mod 2 ^ 32)" by (simp add: zmod_int)
  finally show ?thesis using signed_of_unsigned [of "int (v mod 2 ^ 32)" "2 ^ 31"] by simp
qed

lemma int_of_u64_unsigned: "v < 2 ^ 64 \<Longrightarrow> int_of_u64 v = (if v < 2 ^ 63 then int v else int v - 2 ^ 64)"
  using signed_of_unsigned [of "int v" "2 ^ 63"] by (simp add: int_of_u64_def)

lemma bare_conversions:
  assumes "v < 2 ^ 64" and "m \<in> set [[], ''l'', ''ll'', ''z'']"
  defines "u \<equiv> if m = [] then v mod 2 ^ 32 else v" and "p \<equiv> CHR '' ''"
  shows "kvformat (''%'' @ m @ ''d'') [A_Word v] = Option.bind (kvfmt_int (if m = [] then wrap32s (int v) else int_of_u64 v) 0 p False) (\<lambda>o1. add_out o1 (Some ([], 0)))"
    and "kvformat (''%'' @ m @ ''u'') [A_Word v] = Option.bind (kvfmt_uint u 10 False 0 p False) (\<lambda>o1. add_out o1 (Some ([], 0)))"
    and "kvformat (''%'' @ m @ ''o'') [A_Word v] = Option.bind (kvfmt_uint u 8 False 0 p False) (\<lambda>o1. add_out o1 (Some ([], 0)))"
    and "kvformat (''%'' @ m @ ''x'') [A_Word v] = Option.bind (kvfmt_uint u 16 False 0 p False) (\<lambda>o1. add_out o1 (Some ([], 0)))"
    and "kvformat (''%'' @ m @ ''X'') [A_Word v] = Option.bind (kvfmt_uint u 16 True 0 p False) (\<lambda>o1. add_out o1 (Some ([], 0)))"
proof -
  consider "m = []" | "m = ''l''" | "m = ''ll''" | "m = ''z''" using assms(2) by auto
  note c = this
  let ?g = "\<lambda>f c. kvformat (''%'' @ m @ c) [A_Word v] = Option.bind f (\<lambda>o1. add_out o1 (Some ([], 0)))"
  show "?g (kvfmt_int (if m = [] then wrap32s (int v) else int_of_u64 v) 0 p False) ''d''"
    using c by cases (simp_all add: conv_defs p_def add_out_def split: option.split bind_split)
  show "?g (kvfmt_uint u 10 False 0 p False) ''u''"
    using c assms(1) by cases (simp_all add: conv_defs p_def u_def add_out_def split: option.split bind_split)
  show "?g (kvfmt_uint u 8 False 0 p False) ''o''"
    using c assms(1) by cases (simp_all add: conv_defs p_def u_def add_out_def split: option.split bind_split)
  show "?g (kvfmt_uint u 16 False 0 p False) ''x''"
    using c assms(1) by cases (simp_all add: conv_defs p_def u_def add_out_def split: option.split bind_split)
  show "?g (kvfmt_uint u 16 True 0 p False) ''X''"
    using c assms(1) by cases (simp_all add: conv_defs p_def u_def add_out_def split: option.split bind_split)
qed

text \<open>
  C39. Numbers read back: let a conversion \<open>%d\<close>, \<open>%u\<close>, \<open>%o\<close>, \<open>%x\<close> or \<open>%X\<close> with no flag and no width have
  any of the length modifiers none, \<open>l\<close>, \<open>ll\<close> and \<open>z\<close>, and let its argument occupy any 64-bit slot.
  The text consists of the digits of the conversion's own alphabet, with a sign for \<open>%d\<close> only, and
  reading it in the base of the conversion gives back the argument: the signed or unsigned value of
  all 64 bits with a modifier, of the low 32 bits without. The one exception is \<open>%o\<close> of a value of
  at least 8^20, which is undefined.
\<close>

theorem kvformat_number_roundtrip:
  assumes "v < 2 ^ 64" and "m \<in> set [[], ''l'', ''ll'', ''z'']"
  shows "let u = (if m = [] then v mod 2 ^ 32 else v);
      i = (if m = [] then (if u < 2 ^ 31 then int u else int u - 2 ^ 32) else (if u < 2 ^ 63 then int u else int u - 2 ^ 64)) in
    (\<exists>s. kvformat (''%'' @ m @ ''d'') [A_Word v] = Some (s, length s) \<and> set s \<subseteq> set ''-0123456789'' \<and> read_int s = i) \<and>
    (\<exists>s. kvformat (''%'' @ m @ ''u'') [A_Word v] = Some (s, length s) \<and> set s \<subseteq> set ''0123456789'' \<and> read_nat 10 s = u) \<and>
    (\<exists>s. kvformat (''%'' @ m @ ''x'') [A_Word v] = Some (s, length s) \<and> set s \<subseteq> set ''0123456789abcdef'' \<and> read_nat 16 s = u) \<and>
    (\<exists>s. kvformat (''%'' @ m @ ''X'') [A_Word v] = Some (s, length s) \<and> set s \<subseteq> set ''0123456789ABCDEF'' \<and> read_nat 16 s = u) \<and>
    (if u < 8 ^ 20 then \<exists>s. kvformat (''%'' @ m @ ''o'') [A_Word v] = Some (s, length s) \<and> set s \<subseteq> set ''01234567'' \<and> read_nat 8 s = u
     else kvformat (''%'' @ m @ ''o'') [A_Word v] = None)"
proof -
  define u where "u = (if m = [] then v mod 2 ^ 32 else v)"
  define i where "i = (if m = [] then wrap32s (int v) else int_of_u64 v)"
  have i: "i = (if m = [] then (if u < 2 ^ 31 then int u else int u - 2 ^ 32) else (if u < 2 ^ 63 then int u else int u - 2 ^ 64))"
    using assms(1) wrap32s_unsigned [of v] int_of_u64_unsigned [of v] by (simp add: i_def u_def)
  have b: "u < 2 ^ 64" "nat \<bar>i\<bar> < 10 ^ 20" using assms(1) unfolding i by (auto simp: u_def)
  note C = bare_conversions [OF assms, folded u_def i_def]
  have d: "\<exists>s. kvformat (''%'' @ m @ ''d'') [A_Word v] = Some (s, length s) \<and> set s \<subseteq> set ''-0123456789'' \<and> read_int s = i"
    using int_bare [OF b(2)] C(1) by (auto simp: add_out_def)
  note n = number_bare [of _ u]
  have "u < 10 ^ 20" "u < 16 ^ 20" using b(1) by simp_all
  then show ?thesis unfolding u_def [symmetric] i [symmetric] Let_def
    using d n [of 10 False] n [of 16 False] n [of 16 True] n [of 8 False] C(2-5) by (auto simp: alphabets)
qed

theorem kvformat_number_roundtrip_witness:
  "(\<exists>s. kvformat ''%d'' [A_Word 4294967289] = Some (s, length s) \<and> read_int s = -7) \<and>
   (\<exists>s. kvformat ''%ld'' [A_Word 4294967289] = Some (s, length s) \<and> read_int s = 4294967289) \<and>
   (\<exists>s. kvformat ''%zo'' [A_Word 8] = Some (s, length s) \<and> read_nat 8 s = 8) \<and>
   kvformat ''%llo'' [A_Word (2 ^ 60)] = None"
  using kvformat_number_roundtrip [of 4294967289 "[]"] kvformat_number_roundtrip [of 4294967289 "''l''"]
    kvformat_number_roundtrip [of 8 "''z''"] kvformat_number_roundtrip [of "2 ^ 60" "''ll''"]
  by (simp add: Let_def) blast

text \<open>
  C40. The digit buffer: an unsigned conversion overruns its 20-byte local buffer exactly when the
  value needs more than 20 digits or a right-aligned width exceeds 20. Nothing limits either: a
  64-bit octal conversion of a value from 2^60 up and \<open>%21d\<close> both do.
\<close>

theorem kvfmt_uint_overrun:
  assumes "2 \<le> base" and "base \<le> 16"
  shows "kvfmt_uint val base up w p l = None \<longleftrightarrow> base ^ 20 \<le> val \<or> \<not> l \<and> 20 < w"
  using digit_text_facts(2) [OF assms, of 20 up val] by (auto simp: kvfmt_uint_eq BUF_SIZE_def Let_def not_less)

theorem kvfmt_uint_overrun_witness:
  "kvfmt_uint (2 ^ 60) 8 False 0 CHR '' '' False = None \<and> kvfmt_uint 7 10 False 21 CHR '' '' False = None \<and>
     kvfmt_uint 7 10 False 20 CHR '' '' False \<noteq> None"
  using kvfmt_uint_overrun [of 8 "2 ^ 60" False 0 "CHR '' ''" False] kvfmt_uint_overrun [of 10 7 False 21 "CHR '' ''" False]
    kvfmt_uint_overrun [of 10 7 False 20 "CHR '' ''" False]
  by simp

end
