(* ===== verification/Rbtree.thy ===== *)
theory Rbtree
  imports Prelude "HOL-Library.Word" "HOL-Library.Tree"
begin

unbundle bit_operations_syntax

text \<open>
  The red-black tree of \<open>kernel/xcore/rbtree.c\<close>, the index of the epoll interest set and of inotify.

  A node pointer is a 64-bit address, 0 is NULL. The colour is the low bit of the word that holds
  the parent pointer, as in the code, so node addresses must be even. The loops that climb and
  descend the tree are partial functions; \<open>None\<close> is a loop that does not end or a NULL pointer that
  is dereferenced. A tree in the store is related to a tree of the library; a position in it is a
  subtree with the path above it.
\<close>

type_synonym rb_ptr = "64 word"

subsection \<open>Nodes\<close>

record rb_node =
  rb_parent_color :: "64 word"
  rb_right :: rb_ptr
  rb_left :: rb_ptr

record rb_tree =
  rb_root :: rb_ptr
  rb_nodes :: "rb_ptr \<Rightarrow> rb_node"

definition rb_upd :: "rb_ptr \<Rightarrow> (rb_node \<Rightarrow> rb_node) \<Rightarrow> rb_tree \<Rightarrow> rb_tree" where
  "rb_upd n f s = s\<lparr>rb_nodes := (rb_nodes s)(n := f (rb_nodes s n))\<rparr>"

definition rb_l :: "rb_tree \<Rightarrow> rb_ptr \<Rightarrow> rb_ptr" where
  "rb_l s n = rb_left (rb_nodes s n)"

definition rb_r :: "rb_tree \<Rightarrow> rb_ptr \<Rightarrow> rb_ptr" where
  "rb_r s n = rb_right (rb_nodes s n)"

definition rb_color :: "rb_tree \<Rightarrow> rb_ptr \<Rightarrow> 64 word" where
  "rb_color s n = rb_parent_color (rb_nodes s n) AND 1"

definition rb_is_red :: "rb_tree \<Rightarrow> rb_ptr \<Rightarrow> bool" where
  "rb_is_red s n \<longleftrightarrow> rb_color s n = 0"

definition rb_parent :: "rb_tree \<Rightarrow> rb_ptr \<Rightarrow> rb_ptr" where
  "rb_parent s n = rb_parent_color (rb_nodes s n) AND NOT 1"

definition set_root :: "rb_ptr \<Rightarrow> rb_tree \<Rightarrow> rb_tree" where
  "set_root p s = s\<lparr>rb_root := p\<rparr>"

definition set_left :: "rb_ptr \<Rightarrow> rb_ptr \<Rightarrow> rb_tree \<Rightarrow> rb_tree" where
  "set_left n p s = rb_upd n (\<lambda>x. x\<lparr>rb_left := p\<rparr>) s"

definition set_right :: "rb_ptr \<Rightarrow> rb_ptr \<Rightarrow> rb_tree \<Rightarrow> rb_tree" where
  "set_right n p s = rb_upd n (\<lambda>x. x\<lparr>rb_right := p\<rparr>) s"

definition rb_set_red :: "rb_ptr \<Rightarrow> rb_tree \<Rightarrow> rb_tree" where
  "rb_set_red n s = rb_upd n (\<lambda>x. x\<lparr>rb_parent_color := rb_parent_color x AND NOT 1\<rparr>) s"

definition rb_set_black :: "rb_ptr \<Rightarrow> rb_tree \<Rightarrow> rb_tree" where
  "rb_set_black n s = rb_upd n (\<lambda>x. x\<lparr>rb_parent_color := rb_parent_color x OR 1\<rparr>) s"

definition rb_set_parent :: "rb_ptr \<Rightarrow> rb_ptr \<Rightarrow> rb_tree \<Rightarrow> rb_tree" where
  "rb_set_parent n p s = rb_upd n (\<lambda>x. x\<lparr>rb_parent_color := (rb_parent_color x AND 1) OR p\<rparr>) s"

definition rb_set_color :: "rb_ptr \<Rightarrow> 64 word \<Rightarrow> rb_tree \<Rightarrow> rb_tree" where
  "rb_set_color n c s = rb_upd n (\<lambda>x. x\<lparr>rb_parent_color := (rb_parent_color x AND NOT 1) OR c\<rparr>) s"

definition rb_copy_pc :: "rb_ptr \<Rightarrow> rb_ptr \<Rightarrow> rb_tree \<Rightarrow> rb_tree" where
  "rb_copy_pc n old s = rb_upd n (\<lambda>x. x\<lparr>rb_parent_color := rb_parent_color (rb_nodes s old)\<rparr>) s"

text \<open>The three-way store that makes the parent of \<open>old\<close>, or the root, point to \<open>new\<close>.\<close>

definition relink_left_first :: "rb_ptr \<Rightarrow> rb_ptr \<Rightarrow> rb_ptr \<Rightarrow> rb_tree \<Rightarrow> rb_tree" where
  "relink_left_first parent old new s =
     (if parent = 0 then set_root new s
      else if rb_l s parent = old then set_left parent new s
      else set_right parent new s)"

definition relink_right_first :: "rb_ptr \<Rightarrow> rb_ptr \<Rightarrow> rb_ptr \<Rightarrow> rb_tree \<Rightarrow> rb_tree" where
  "relink_right_first parent old new s =
     (if parent = 0 then set_root new s
      else if rb_r s parent = old then set_right parent new s
      else set_left parent new s)"

subsection \<open>Rotations\<close>

definition rb_rotate_left :: "rb_ptr \<Rightarrow> rb_tree \<Rightarrow> rb_tree option" where
  "rb_rotate_left node s =
     (let right = rb_r s node in
      if node = 0 \<or> right = 0 then None
      else
        let s = set_right node (rb_l s right) s;
            s = (if rb_l s right \<noteq> 0 then rb_set_parent (rb_l s right) node s else s);
            s = rb_set_parent right (rb_parent s node) s;
            s = relink_left_first (rb_parent s node) node right s;
            s = set_left right node s
        in Some (rb_set_parent node right s))"

definition rb_rotate_right :: "rb_ptr \<Rightarrow> rb_tree \<Rightarrow> rb_tree option" where
  "rb_rotate_right node s =
     (let left = rb_l s node in
      if node = 0 \<or> left = 0 then None
      else
        let s = set_left node (rb_r s left) s;
            s = (if rb_r s left \<noteq> 0 then rb_set_parent (rb_r s left) node s else s);
            s = rb_set_parent left (rb_parent s node) s;
            s = relink_right_first (rb_parent s node) node left s;
            s = set_right left node s
        in Some (rb_set_parent node left s))"

subsection \<open>Insertion\<close>

text \<open>The branches with a black uncle: the node to go on with and the rotated tree.\<close>

definition insert_turn_right :: "rb_ptr \<Rightarrow> rb_ptr \<Rightarrow> rb_ptr \<Rightarrow> rb_tree \<Rightarrow> (rb_ptr \<times> rb_tree) option" where
  "insert_turn_right node parent gparent s =
     Option.bind
       (if rb_r s parent = node
        then map_option (\<lambda>s. (parent, rb_parent s parent, s)) (rb_rotate_left parent s)
        else Some (node, parent, s))
       (\<lambda>(node, parent, s). map_option (Pair node) (rb_rotate_right gparent (rb_set_red gparent (rb_set_black parent s))))"

definition insert_turn_left :: "rb_ptr \<Rightarrow> rb_ptr \<Rightarrow> rb_ptr \<Rightarrow> rb_tree \<Rightarrow> (rb_ptr \<times> rb_tree) option" where
  "insert_turn_left node parent gparent s =
     Option.bind
       (if rb_l s parent = node
        then map_option (\<lambda>s. (parent, rb_parent s parent, s)) (rb_rotate_right parent s)
        else Some (node, parent, s))
       (\<lambda>(node, parent, s). map_option (Pair node) (rb_rotate_left gparent (rb_set_red gparent (rb_set_black parent s))))"

partial_function (option) rb_insert_fixup :: "rb_ptr \<Rightarrow> rb_tree \<Rightarrow> rb_tree option" where
  "rb_insert_fixup node s =
     (let parent = rb_parent s node in
      if parent \<noteq> 0 \<and> rb_is_red s parent then
        let gparent = rb_parent s parent in
        if gparent = 0 then None
        else if rb_l s gparent = parent then
          let uncle = rb_r s gparent in
          if uncle \<noteq> 0 \<and> rb_is_red s uncle
          then rb_insert_fixup gparent (rb_set_red gparent (rb_set_black parent (rb_set_black uncle s)))
          else Option.bind (insert_turn_right node parent gparent s) (\<lambda>(node, s). rb_insert_fixup node s)
        else
          let uncle = rb_l s gparent in
          if uncle \<noteq> 0 \<and> rb_is_red s uncle
          then rb_insert_fixup gparent (rb_set_red gparent (rb_set_black parent (rb_set_black uncle s)))
          else Option.bind (insert_turn_left node parent gparent s) (\<lambda>(node, s). rb_insert_fixup node s)
      else Some (rb_set_black (rb_root s) s))"

text \<open>The pointer to a pointer that the descent moves.\<close>

datatype rb_link = Link_root | Link_left rb_ptr | Link_right rb_ptr

fun read_link :: "rb_link \<Rightarrow> rb_tree \<Rightarrow> rb_ptr" where
  "read_link Link_root s = rb_root s"
| "read_link (Link_left n) s = rb_l s n"
| "read_link (Link_right n) s = rb_r s n"

fun write_link :: "rb_link \<Rightarrow> rb_ptr \<Rightarrow> rb_tree \<Rightarrow> rb_tree" where
  "write_link Link_root p s = set_root p s"
| "write_link (Link_left n) p s = set_left n p s"
| "write_link (Link_right n) p s = set_right n p s"

partial_function (option) rb_descend ::
  "(rb_ptr \<Rightarrow> rb_ptr \<Rightarrow> int) \<Rightarrow> rb_ptr \<Rightarrow> rb_tree \<Rightarrow> rb_link \<Rightarrow> rb_ptr \<Rightarrow> (rb_link \<times> rb_ptr) option" where
  "rb_descend cmp node s link parent =
     (let n = read_link link s in
      if n = 0 then Some (link, parent)
      else rb_descend cmp node s (if cmp node n < 0 then Link_left n else Link_right n) n)"

definition rb_insert :: "(rb_ptr \<Rightarrow> rb_ptr \<Rightarrow> int) \<Rightarrow> rb_ptr \<Rightarrow> rb_tree \<Rightarrow> rb_tree option" where
  "rb_insert cmp node s =
     Option.bind (rb_descend cmp node s Link_root 0) (\<lambda>(link, parent).
       let s = rb_set_parent node parent s;
           s = set_left node 0 (set_right node 0 s);
           s = rb_set_red node s;
           s = write_link link node s
       in rb_insert_fixup node s)"

subsection \<open>Lookup\<close>

partial_function (option) rb_search_from ::
  "(rb_ptr \<Rightarrow> rb_ptr \<Rightarrow> int) \<Rightarrow> rb_ptr \<Rightarrow> rb_tree \<Rightarrow> rb_ptr \<Rightarrow> rb_ptr option" where
  "rb_search_from cmp key s n =
     (if n = 0 then Some 0
      else
        let c = cmp key n in
        if c < 0 then rb_search_from cmp key s (rb_l s n)
        else if 0 < c then rb_search_from cmp key s (rb_r s n)
        else Some n)"

definition rb_search :: "(rb_ptr \<Rightarrow> rb_ptr \<Rightarrow> int) \<Rightarrow> rb_ptr \<Rightarrow> rb_tree \<Rightarrow> rb_ptr option" where
  "rb_search cmp key s = rb_search_from cmp key s (rb_root s)"

partial_function (option) rb_leftmost :: "rb_tree \<Rightarrow> rb_ptr \<Rightarrow> rb_ptr option" where
  "rb_leftmost s n = (if rb_l s n \<noteq> 0 then rb_leftmost s (rb_l s n) else Some n)"

definition rb_first :: "rb_tree \<Rightarrow> rb_ptr option" where
  "rb_first s = (if rb_root s = 0 then Some 0 else rb_leftmost s (rb_root s))"

subsection \<open>Removal\<close>

text \<open>Black or absent.\<close>

definition blk :: "rb_tree \<Rightarrow> rb_ptr \<Rightarrow> bool" where
  "blk s n \<longleftrightarrow> n = 0 \<or> \<not> rb_is_red s n"

text \<open>
  The two branches of one round of the loop. \<open>None\<close>: a NULL pointer is followed; \<open>Inl\<close>: the round
  moves up to the parent; \<open>Inr\<close>: the loop is left with the root as the node to blacken.
\<close>

definition erase_left_tail :: "rb_ptr \<Rightarrow> rb_ptr \<Rightarrow> rb_tree \<Rightarrow> (rb_tree + rb_tree) option" where
  "erase_left_tail parent sibling s =
     (if (sibling = 0 \<or> blk s (rb_l s sibling)) \<and> (sibling = 0 \<or> blk s (rb_r s sibling)) then
        Some (Inl (if sibling \<noteq> 0 then rb_set_red sibling s else s))
      else
        Option.bind
          (if blk s (rb_r s sibling) then
             if rb_l s sibling = 0 then None
             else map_option (\<lambda>s. (rb_r s parent, s))
               (rb_rotate_right sibling (rb_set_red sibling (rb_set_black (rb_l s sibling) s)))
           else Some (sibling, s))
          (\<lambda>(sibling, s).
             let s = rb_set_color sibling (rb_color s parent) s;
                 s = rb_set_black parent s;
                 s = (if rb_r s sibling \<noteq> 0 then rb_set_black (rb_r s sibling) s else s)
             in map_option Inr (rb_rotate_left parent s)))"

definition erase_left :: "rb_ptr \<Rightarrow> rb_tree \<Rightarrow> (rb_tree + rb_tree) option" where
  "erase_left parent s =
     (let sibling = rb_r s parent in
      Option.bind
        (if sibling \<noteq> 0 \<and> rb_is_red s sibling
         then map_option (\<lambda>s. (rb_r s parent, s)) (rb_rotate_left parent (rb_set_red parent (rb_set_black sibling s)))
         else Some (sibling, s))
        (\<lambda>(sibling, s). erase_left_tail parent sibling s))"

definition erase_right_tail :: "rb_ptr \<Rightarrow> rb_ptr \<Rightarrow> rb_tree \<Rightarrow> (rb_tree + rb_tree) option" where
  "erase_right_tail parent sibling s =
     (if (sibling = 0 \<or> blk s (rb_r s sibling)) \<and> (sibling = 0 \<or> blk s (rb_l s sibling)) then
        Some (Inl (if sibling \<noteq> 0 then rb_set_red sibling s else s))
      else
        Option.bind
          (if blk s (rb_l s sibling) then
             if rb_r s sibling = 0 then None
             else map_option (\<lambda>s. (rb_l s parent, s))
               (rb_rotate_left sibling (rb_set_red sibling (rb_set_black (rb_r s sibling) s)))
           else Some (sibling, s))
          (\<lambda>(sibling, s).
             let s = rb_set_color sibling (rb_color s parent) s;
                 s = rb_set_black parent s;
                 s = (if rb_l s sibling \<noteq> 0 then rb_set_black (rb_l s sibling) s else s)
             in map_option Inr (rb_rotate_right parent s)))"

definition erase_right :: "rb_ptr \<Rightarrow> rb_tree \<Rightarrow> (rb_tree + rb_tree) option" where
  "erase_right parent s =
     (let sibling = rb_l s parent in
      Option.bind
        (if sibling \<noteq> 0 \<and> rb_is_red s sibling
         then map_option (\<lambda>s. (rb_l s parent, s)) (rb_rotate_right parent (rb_set_red parent (rb_set_black sibling s)))
         else Some (sibling, s))
        (\<lambda>(sibling, s). erase_right_tail parent sibling s))"

definition blacken :: "rb_ptr \<Rightarrow> rb_tree \<Rightarrow> rb_tree" where
  "blacken node s = (if node \<noteq> 0 then rb_set_black node s else s)"

partial_function (option) rb_erase_fixup :: "rb_ptr \<Rightarrow> rb_ptr \<Rightarrow> rb_tree \<Rightarrow> rb_tree option" where
  "rb_erase_fixup node parent s =
     (if blk s node \<and> node \<noteq> rb_root s then
        if parent = 0 then rb_erase_fixup node parent s
        else
          Option.bind (if rb_l s parent = node then erase_left parent s else erase_right parent s)
            (\<lambda>r. case r of
                Inl s \<Rightarrow> rb_erase_fixup parent (rb_parent s parent) s
              | Inr s \<Rightarrow> Some (blacken (rb_root s) s))
      else Some (blacken node s))"

text \<open>Unlinking: the tree, the child that moved up, its parent, and the colour that was lost.\<close>

definition unlink_single :: "rb_ptr \<Rightarrow> rb_ptr \<Rightarrow> rb_tree \<Rightarrow> rb_ptr \<times> rb_ptr \<times> 64 word \<times> rb_tree" where
  "unlink_single node child s =
     (let parent = rb_parent s node;
          color = rb_color s node;
          s = (if child \<noteq> 0 then rb_set_parent child parent s else s)
      in (child, parent, color, relink_left_first parent node child s))"

definition unlink_double :: "rb_ptr \<Rightarrow> rb_ptr \<Rightarrow> rb_tree \<Rightarrow> rb_ptr \<times> rb_ptr \<times> 64 word \<times> rb_tree" where
  "unlink_double node successor s =
     (let color = rb_color s successor;
          child = rb_r s successor;
          successor_parent = rb_parent s successor;
          (parent, s) =
            (if successor_parent = node
             then (successor, if child \<noteq> 0 then rb_set_parent child successor s else s)
             else
               let s = set_left successor_parent child s;
                   s = (if child \<noteq> 0 then rb_set_parent child successor_parent s else s);
                   s = set_right successor (rb_r s node) s
               in (successor_parent, rb_set_parent (rb_r s successor) successor s));
          s = relink_left_first (rb_parent s node) node successor s;
          s = rb_copy_pc successor node s;
          s = set_left successor (rb_l s node) s
      in (child, parent, color, rb_set_parent (rb_l s successor) successor s))"

definition rb_erase :: "rb_ptr \<Rightarrow> rb_tree \<Rightarrow> rb_tree option" where
  "rb_erase node s =
     Option.bind
       (if rb_l s node = 0 then Some (unlink_single node (rb_r s node) s)
        else if rb_r s node = 0 then Some (unlink_single node (rb_l s node) s)
        else map_option (\<lambda>successor. unlink_double node successor s) (rb_leftmost s (rb_r s node)))
       (\<lambda>(child, parent, color, s). if color = 1 then rb_erase_fixup child parent s else Some s)"

definition rb_replace :: "rb_ptr \<Rightarrow> rb_ptr \<Rightarrow> rb_tree \<Rightarrow> rb_tree" where
  "rb_replace old new s =
     (let s = relink_left_first (rb_parent s old) old new s;
          s = set_left new (rb_l s old) s;
          s = set_right new (rb_r s old) s
      in rb_copy_pc new old s)"

subsection \<open>Reading after writing\<close>

definition aligned :: "rb_ptr \<Rightarrow> bool" where
  "aligned p \<longleftrightarrow> p AND 1 = 0"

lemma aligned_0 [simp]: "aligned 0"
  by (simp add: aligned_def)

lemma aligned_bit: "aligned p \<longleftrightarrow> \<not> bit p 0"
  by (simp add: aligned_def and_one_eq bit_0 even_iff_mod_2_eq_zero)

lemma aligned_NOT: "aligned p \<Longrightarrow> p AND NOT 1 = p"
  by (intro bit_word_eqI) (auto simp: aligned_bit bit_simps bit_1_iff intro: gr0I)

lemma rb_word_facts:
  "(w AND NOT 1) AND 1 = (0 :: 64 word)" "(w OR 1) AND 1 = (1 :: 64 word)" "(w AND NOT 1) AND NOT 1 = w AND NOT (1 :: 64 word)"
  "(w OR 1) AND NOT 1 = w AND NOT (1 :: 64 word)"
  by (rule bit_word_eqI, auto simp: bit_simps bit_1_iff)+

lemma rb_word_parent:
  assumes "aligned p"
  shows "((w AND 1) OR p) AND 1 = w AND 1" "((w AND 1) OR p) AND NOT 1 = p"
  using assms by (auto intro!: bit_word_eqI simp: aligned_bit bit_simps bit_1_iff intro: gr0I)

lemma rb_word_color:
  assumes "c AND 1 = c"
  shows "((w AND NOT 1) OR c) AND 1 = c" "((w AND NOT 1) OR c) AND NOT 1 = w AND NOT (1 :: 64 word)"
proof -
  have c: "bit c n \<Longrightarrow> n = 0" for n by (metis assms bit_and_iff bit_1_iff)
  show "((w AND NOT 1) OR c) AND 1 = c" "((w AND NOT 1) OR c) AND NOT 1 = w AND NOT (1 :: 64 word)"
    by (auto intro!: bit_word_eqI simp: bit_simps bit_1_iff dest: c)
qed

lemma NOT_1: "NOT 1 = (- 2 :: 64 word)"
  by simp

lemmas rb_words = rb_word_facts [unfolded NOT_1] rb_word_parent [unfolded NOT_1] rb_word_color [unfolded NOT_1]

lemma aligned_parent [simp]: "aligned (rb_parent s n)"
  by (simp add: aligned_bit rb_parent_def bit_simps)

lemma rb_color_and_1 [simp]: "rb_color s n AND 1 = rb_color s n"
  by (simp add: rb_color_def)

lemmas rb_defs = rb_upd_def rb_l_def rb_r_def rb_color_def rb_parent_def set_root_def set_left_def set_right_def rb_set_red_def
  rb_set_black_def rb_set_parent_def rb_set_color_def rb_copy_pc_def

lemma rb_get_root [simp]:
  "rb_root (set_root p s) = p" "rb_root (set_left n p s) = rb_root s" "rb_root (set_right n p s) = rb_root s"
  "rb_root (rb_set_red n s) = rb_root s" "rb_root (rb_set_black n s) = rb_root s" "rb_root (rb_set_parent n p s) = rb_root s"
  "rb_root (rb_set_color n c s) = rb_root s" "rb_root (rb_copy_pc n m s) = rb_root s"
  by (simp_all add: rb_defs)

lemma rb_get_left [simp]:
  "rb_l (set_root p s) = rb_l s" "rb_l (set_left n p s) = (rb_l s)(n := p)" "rb_l (set_right n p s) = rb_l s"
  "rb_l (rb_set_red n s) = rb_l s" "rb_l (rb_set_black n s) = rb_l s" "rb_l (rb_set_parent n p s) = rb_l s"
  "rb_l (rb_set_color n c s) = rb_l s" "rb_l (rb_copy_pc n m s) = rb_l s"
  by (auto simp: rb_defs fun_eq_iff)

lemma rb_get_right [simp]:
  "rb_r (set_root p s) = rb_r s" "rb_r (set_left n p s) = rb_r s" "rb_r (set_right n p s) = (rb_r s)(n := p)"
  "rb_r (rb_set_red n s) = rb_r s" "rb_r (rb_set_black n s) = rb_r s" "rb_r (rb_set_parent n p s) = rb_r s"
  "rb_r (rb_set_color n c s) = rb_r s" "rb_r (rb_copy_pc n m s) = rb_r s"
  by (auto simp: rb_defs fun_eq_iff)

lemma rb_get_parent [simp]:
  "rb_parent (set_root p s) = rb_parent s" "rb_parent (set_left n p s) = rb_parent s" "rb_parent (set_right n p s) = rb_parent s"
  "rb_parent (rb_set_red n s) = rb_parent s" "rb_parent (rb_set_black n s) = rb_parent s"
  "aligned p \<Longrightarrow> rb_parent (rb_set_parent n p s) = (rb_parent s)(n := p)"
  "c AND 1 = c \<Longrightarrow> rb_parent (rb_set_color n c s) = rb_parent s"
  "rb_parent (rb_copy_pc n m s) = (rb_parent s)(n := rb_parent s m)"
  by (auto simp: rb_defs fun_eq_iff rb_words)

lemma rb_get_color [simp]:
  "rb_color (set_root p s) = rb_color s" "rb_color (set_left n p s) = rb_color s" "rb_color (set_right n p s) = rb_color s"
  "rb_color (rb_set_red n s) = (rb_color s)(n := 0)" "rb_color (rb_set_black n s) = (rb_color s)(n := 1)"
  "aligned p \<Longrightarrow> rb_color (rb_set_parent n p s) = rb_color s"
  "c AND 1 = c \<Longrightarrow> rb_color (rb_set_color n c s) = (rb_color s)(n := c)"
  "rb_color (rb_copy_pc n m s) = (rb_color s)(n := rb_color s m)"
  by (auto simp: rb_defs fun_eq_iff rb_words)

subsection \<open>Trees in the store\<close>

datatype color = Red | Black

type_synonym rbt = "(rb_ptr \<times> color) tree"

fun color_bit :: "color \<Rightarrow> 64 word" where
  "color_bit Red = 0"
| "color_bit Black = 1"

lemma color_bit_facts [simp]: "color_bit c AND 1 = color_bit c" "color_bit c = 0 \<longleftrightarrow> c = Red" "color_bit c = 1 \<longleftrightarrow> c = Black"
  by (cases c; simp)+

fun ptr :: "rbt \<Rightarrow> rb_ptr" where
  "ptr Leaf = 0"
| "ptr (Node l (a, c) r) = a"

fun nds :: "rbt \<Rightarrow> rb_ptr list" where
  "nds Leaf = []"
| "nds (Node l (a, c) r) = nds l @ a # nds r"

text \<open>The tree occupies its nodes, with the given pointer in the parent field of its root.\<close>

fun tree_at :: "rb_tree \<Rightarrow> rb_ptr \<Rightarrow> rbt \<Rightarrow> bool" where
  "tree_at s par Leaf \<longleftrightarrow> True"
| "tree_at s par (Node l (a, c) r) \<longleftrightarrow>
     a \<noteq> 0 \<and> aligned a \<and> rb_parent s a = par \<and> rb_color s a = color_bit c \<and> rb_l s a = ptr l \<and> rb_r s a = ptr r \<and>
     tree_at s a l \<and> tree_at s a r"

text \<open>A step of the path from a subtree up to the root, innermost first.\<close>

datatype frame = FL rb_ptr color rbt | FR rbt rb_ptr color

fun fcol :: "frame \<Rightarrow> color" where
  "fcol (FL a c r) = c"
| "fcol (FR l a c) = c"

fun parent_of :: "frame list \<Rightarrow> rb_ptr" where
  "parent_of [] = 0"
| "parent_of (FL a c r # fs) = a"
| "parent_of (FR l a c # fs) = a"

fun plug :: "rbt \<Rightarrow> frame list \<Rightarrow> rbt" where
  "plug t [] = t"
| "plug t (FL a c r # fs) = plug (Node t (a, c) r) fs"
| "plug t (FR l a c # fs) = plug (Node l (a, c) t) fs"

fun before :: "frame list \<Rightarrow> rb_ptr list" where
  "before [] = []"
| "before (FL a c r # fs) = before fs"
| "before (FR l a c # fs) = before fs @ nds l @ [a]"

fun after :: "frame list \<Rightarrow> rb_ptr list" where
  "after [] = []"
| "after (FL a c r # fs) = a # nds r @ after fs"
| "after (FR l a c # fs) = after fs"

fun hole :: "rb_tree \<Rightarrow> rb_ptr \<Rightarrow> frame list \<Rightarrow> bool" where
  "hole s p [] \<longleftrightarrow> rb_root s = p"
| "hole s p (FL a c r # fs) \<longleftrightarrow>
     a \<noteq> 0 \<and> aligned a \<and> rb_parent s a = parent_of fs \<and> rb_color s a = color_bit c \<and> rb_l s a = p \<and> rb_r s a = ptr r \<and>
     tree_at s a r \<and> hole s a fs"
| "hole s p (FR l a c # fs) \<longleftrightarrow>
     a \<noteq> 0 \<and> aligned a \<and> rb_parent s a = parent_of fs \<and> rb_color s a = color_bit c \<and> rb_l s a = ptr l \<and> rb_r s a = p \<and>
     tree_at s a l \<and> hole s a fs"

definition rep :: "rb_tree \<Rightarrow> rbt \<Rightarrow> frame list \<Rightarrow> bool" where
  "rep s t fs \<longleftrightarrow> tree_at s (parent_of fs) t \<and> hole s (ptr t) fs \<and> distinct (before fs @ nds t @ after fs)"

lemma nds_plug: "nds (plug t fs) = before fs @ nds t @ after fs"
  by (induction t fs rule: plug.induct) simp_all

lemma rep_FL: "rep s t (FL a c r # fs) \<longleftrightarrow> rep s (Node t (a, c) r) fs"
  by (auto simp: rep_def)

lemma rep_FR: "rep s t (FR l a c # fs) \<longleftrightarrow> rep s (Node l (a, c) t) fs"
  by (auto simp: rep_def)

lemma rep_plug: "rep s t fs \<longleftrightarrow> rep s (plug t fs) []"
  by (induction t fs rule: plug.induct) (simp_all add: rep_FL rep_FR)

lemma tree_at_cong:
  assumes "\<And>n. n \<in> set (nds t) \<Longrightarrow>
      rb_l s' n = rb_l s n \<and> rb_r s' n = rb_r s n \<and> rb_parent s' n = rb_parent s n \<and> rb_color s' n = rb_color s n"
  shows "tree_at s' p t = tree_at s p t"
  using assms by (induction s' p t rule: tree_at.induct) auto

lemma hole_cong:
  assumes "\<And>n. n \<in> set (before fs) \<union> set (after fs) \<Longrightarrow>
      rb_l s' n = rb_l s n \<and> rb_r s' n = rb_r s n \<and> rb_parent s' n = rb_parent s n \<and> rb_color s' n = rb_color s n"
    and "rb_root s' = rb_root s"
  shows "hole s' p fs = hole s p fs"
  using assms
proof (induction s' p fs rule: hole.induct)
  case (2 s' p a c r fs)
  have "tree_at s' a r = tree_at s a r" using 2(2) by (intro tree_at_cong) auto
  then show ?case using 2 by auto
next
  case (3 s' p l a c fs)
  have "tree_at s' a l = tree_at s a l" using 3(2) by (intro tree_at_cong) auto
  then show ?case using 3 by auto
qed simp

lemma tree_at_frame [simp]:
  "tree_at (set_root p s) par t = tree_at s par t"
  "n \<notin> set (nds t) \<Longrightarrow> tree_at (set_left n p s) par t = tree_at s par t"
  "n \<notin> set (nds t) \<Longrightarrow> tree_at (set_right n p s) par t = tree_at s par t"
  "n \<notin> set (nds t) \<Longrightarrow> tree_at (rb_set_red n s) par t = tree_at s par t"
  "n \<notin> set (nds t) \<Longrightarrow> tree_at (rb_set_black n s) par t = tree_at s par t"
  "n \<notin> set (nds t) \<Longrightarrow> aligned p \<Longrightarrow> tree_at (rb_set_parent n p s) par t = tree_at s par t"
  "n \<notin> set (nds t) \<Longrightarrow> c AND 1 = c \<Longrightarrow> tree_at (rb_set_color n c s) par t = tree_at s par t"
  "n \<notin> set (nds t) \<Longrightarrow> tree_at (rb_copy_pc n m s) par t = tree_at s par t"
  by (rule tree_at_cong; auto)+

lemma hole_frame [simp]:
  "n \<notin> set (before fs) \<Longrightarrow> n \<notin> set (after fs) \<Longrightarrow> hole (set_left n p s) q fs = hole s q fs"
  "n \<notin> set (before fs) \<Longrightarrow> n \<notin> set (after fs) \<Longrightarrow> hole (set_right n p s) q fs = hole s q fs"
  "n \<notin> set (before fs) \<Longrightarrow> n \<notin> set (after fs) \<Longrightarrow> hole (rb_set_red n s) q fs = hole s q fs"
  "n \<notin> set (before fs) \<Longrightarrow> n \<notin> set (after fs) \<Longrightarrow> hole (rb_set_black n s) q fs = hole s q fs"
  "n \<notin> set (before fs) \<Longrightarrow> n \<notin> set (after fs) \<Longrightarrow> aligned p \<Longrightarrow> hole (rb_set_parent n p s) q fs = hole s q fs"
  "n \<notin> set (before fs) \<Longrightarrow> n \<notin> set (after fs) \<Longrightarrow> c AND 1 = c \<Longrightarrow> hole (rb_set_color n c s) q fs = hole s q fs"
  "n \<notin> set (before fs) \<Longrightarrow> n \<notin> set (after fs) \<Longrightarrow> hole (rb_copy_pc n m s) q fs = hole s q fs"
  by (rule hole_cong; auto)+

lemma tree_at_ptr: "tree_at s p t \<Longrightarrow> ptr t = 0 \<longleftrightarrow> t = Leaf"
  by (cases "(s, p, t)" rule: tree_at.cases) auto

lemma ptr_in_nds: "t \<noteq> Leaf \<Longrightarrow> ptr t \<in> set (nds t)"
  by (cases t rule: nds.cases) auto

lemma ptr_mem: "ptr t = x \<Longrightarrow> x \<noteq> 0 \<Longrightarrow> x \<in> set (nds t)"
  by (cases t rule: nds.cases) auto

lemma tree_at_reparent:
  assumes "tree_at s p t" and "aligned q" and "distinct (nds t)"
  shows "tree_at (if ptr t \<noteq> 0 then rb_set_parent (ptr t) q s else s) q t"
  using assms by (cases "(s, p, t)" rule: tree_at.cases) auto

lemma parent_of_aligned: "hole s p fs \<Longrightarrow> aligned (parent_of fs)"
  by (cases "(s, p, fs)" rule: hole.cases) auto

lemma parent_of_in: "fs \<noteq> [] \<Longrightarrow> parent_of fs \<in> set (before fs) \<union> set (after fs)"
  by (cases fs rule: parent_of.cases) auto

lemma parent_of_0: "hole s p fs \<Longrightarrow> parent_of fs = 0 \<longleftrightarrow> fs = []"
  by (cases "(s, p, fs)" rule: hole.cases) auto

text \<open>Making the parent, or the root, point elsewhere.\<close>

lemma relink_hole:
  assumes "hole s x fs" and "x \<noteq> 0" and "distinct (before fs @ x # after fs)"
  shows "hole (relink_left_first (parent_of fs) x y s) y fs" "hole (relink_right_first (parent_of fs) x y s) y fs"
proof -
  show "hole (relink_left_first (parent_of fs) x y s) y fs"
    using assms by (cases "(s, x, fs)" rule: hole.cases) (auto simp: relink_left_first_def dest: ptr_mem)
  show "hole (relink_right_first (parent_of fs) x y s) y fs"
    using assms by (cases "(s, x, fs)" rule: hole.cases) (auto simp: relink_right_first_def dest: ptr_mem)
qed

lemma relink_get [simp]:
  "rb_parent (relink_left_first p x y s) = rb_parent s" "rb_parent (relink_right_first p x y s) = rb_parent s"
  "rb_color (relink_left_first p x y s) = rb_color s" "rb_color (relink_right_first p x y s) = rb_color s"
  "n \<noteq> p \<or> p = 0 \<Longrightarrow> rb_l (relink_left_first p x y s) n = rb_l s n" "n \<noteq> p \<or> p = 0 \<Longrightarrow> rb_r (relink_left_first p x y s) n = rb_r s n"
  "n \<noteq> p \<or> p = 0 \<Longrightarrow> rb_l (relink_right_first p x y s) n = rb_l s n" "n \<noteq> p \<or> p = 0 \<Longrightarrow> rb_r (relink_right_first p x y s) n = rb_r s n"
  by (auto simp: relink_left_first_def relink_right_first_def)

lemma relink_tree [simp]:
  "p \<notin> set (nds t) \<or> p = 0 \<Longrightarrow> tree_at (relink_left_first p x y s) q t = tree_at s q t"
  "p \<notin> set (nds t) \<or> p = 0 \<Longrightarrow> tree_at (relink_right_first p x y s) q t = tree_at s q t"
  by (auto simp: relink_left_first_def relink_right_first_def)


lemma rotate_left_rep:
  assumes "rep s (Node A (x, cx) (Node B (y, cy) C)) fs"
  shows "\<exists>s'. rb_rotate_left x s = Some s' \<and> rep s' (Node (Node A (x, cx) B) (y, cy) C) fs"
proof -
  have P: "aligned (parent_of fs)" "parent_of fs = 0 \<or> parent_of fs \<in> set (before fs) \<union> set (after fs)"
    using assms parent_of_in [of fs] parent_of_aligned [of s x fs] by (cases "fs = []"; auto simp: rep_def)+
  define s1 where "s1 = set_right x (ptr B) s"
  define s2 where "s2 = (if ptr B \<noteq> 0 then rb_set_parent (ptr B) x s1 else s1)"
  define s3 where "s3 = rb_set_parent y (parent_of fs) s2"
  define s4 where "s4 = relink_left_first (parent_of fs) x y s3"
  define s5 where "s5 = rb_set_parent x y (set_left y x s4)"
  have D: "distinct (before fs @ nds A @ x # nds B @ y # nds C @ after fs)" "x \<noteq> 0" "y \<noteq> 0" "aligned x" "aligned y"
    using assms by (auto simp: rep_def)
  have B: "ptr B \<noteq> 0 \<Longrightarrow> ptr B \<in> set (nds B)" "ptr B = 0 \<Longrightarrow> B = Leaf"
    using assms tree_at_ptr [of s y B] ptr_in_nds by (auto simp: rep_def)
  have B': "ptr B \<notin> set (nds A)" "ptr B \<notin> set (nds C)" "ptr B \<notin> set (before fs)" "ptr B \<notin> set (after fs)" "ptr B \<noteq> x" "ptr B \<noteq> y"
    if "ptr B \<noteq> 0" using B(1) [OF that] D(1) by auto
  have R: "rb_rotate_left x s = Some s5"
    using assms P D B unfolding s1_def s2_def s3_def s4_def s5_def rb_rotate_left_def rep_def
    by (auto simp: Let_def)
  have T: "tree_at s2 x B" "tree_at s2 x A" "tree_at s2 y C" "hole s2 x fs"
    using assms D B' tree_at_reparent [of s1 y B x] by (auto simp: s2_def s1_def rep_def)
  have N: "x \<notin> set (nds A)" "x \<notin> set (nds B)" "x \<notin> set (nds C)" "y \<notin> set (nds A)" "y \<notin> set (nds B)" "y \<notin> set (nds C)" "x \<noteq> y"
    "x \<notin> set (before fs)" "x \<notin> set (after fs)" "y \<notin> set (before fs)" "y \<notin> set (after fs)" "distinct (before fs @ x # after fs)"
    using D(1) by auto
  have H: "hole s4 y fs" using D(2) N P(1) T(4) unfolding s4_def s3_def by (intro relink_hole) simp_all
  have t: "parent_of fs \<notin> set (nds A) \<or> parent_of fs = 0" "parent_of fs \<notin> set (nds B) \<or> parent_of fs = 0"
    "parent_of fs \<notin> set (nds C) \<or> parent_of fs = 0" "x \<noteq> parent_of fs \<or> parent_of fs = 0" "y \<noteq> parent_of fs \<or> parent_of fs = 0"
    using P(2) D(1) by auto
  have "rb_l s x = ptr A" "rb_r s y = ptr C" using assms by (auto simp: rep_def)
  then have G: "rb_l s5 x = ptr A" "rb_r s5 x = ptr B" "rb_l s5 y = x" "rb_r s5 y = ptr C" "rb_color s5 = rb_color s"
    using N P(1) D(2-) t by (simp_all add: s5_def s4_def s3_def s2_def s1_def)
  have U: "rb_parent s5 x = y" "rb_parent s5 y = parent_of fs"
    using N P(1) D(2-) by (simp_all add: s5_def s4_def s3_def s2_def s1_def)
  have V: "tree_at s5 x A" "tree_at s5 x B" "tree_at s5 y C"
    using T N P(1) D(2-) t by (simp_all add: s5_def s4_def s3_def)
  have W: "hole s5 y fs" using H N D(2-) by (simp add: s5_def)
  have "rep s5 (Node (Node A (x, cx) B) (y, cy) C) fs"
    using assms D N G U V W by (simp add: rep_def)
  with R show ?thesis by blast
qed

subsection \<open>Left and right\<close>

text \<open>Exchanging the two child fields of every node turns each left-hand case into its right-hand twin.\<close>

definition flip :: "rb_tree \<Rightarrow> rb_tree" where
  "flip s = s\<lparr>rb_nodes := (\<lambda>n. (rb_nodes s n)\<lparr>rb_left := rb_right (rb_nodes s n), rb_right := rb_left (rb_nodes s n)\<rparr>)\<rparr>"

fun mirror_frame :: "frame \<Rightarrow> frame" where
  "mirror_frame (FL a c r) = FR (mirror r) a c"
| "mirror_frame (FR l a c) = FL a c (mirror l)"

lemma flip_flip [simp]: "flip (flip s) = s"
  by (auto simp: flip_def intro!: rb_tree.equality)

lemma flip_get [simp]:
  "rb_root (flip s) = rb_root s" "rb_l (flip s) = rb_r s" "rb_r (flip s) = rb_l s" "rb_parent (flip s) = rb_parent s"
  "rb_color (flip s) = rb_color s" "rb_is_red (flip s) = rb_is_red s" "blk (flip s) = blk s"
  by (auto simp: flip_def rb_defs rb_is_red_def blk_def fun_eq_iff)

lemma flip_upd:
  "flip (set_root p s) = set_root p (flip s)" "flip (set_left n p s) = set_right n p (flip s)" "flip (set_right n p s) = set_left n p (flip s)"
  "flip (rb_set_red n s) = rb_set_red n (flip s)" "flip (rb_set_black n s) = rb_set_black n (flip s)"
  "flip (rb_set_parent n p s) = rb_set_parent n p (flip s)" "flip (rb_set_color n c s) = rb_set_color n c (flip s)"
  by (auto simp: flip_def rb_defs fun_eq_iff intro!: rb_tree.equality)

lemma flip_relink: "relink_right_first p x y s = flip (relink_left_first p x y (flip s))"
  by (simp add: relink_left_first_def relink_right_first_def flip_upd)

lemma parent_of_set_parent [simp]:
  "rb_parent (rb_set_parent m p (set_right n q s)) = rb_parent (rb_set_parent m p s)"
  "rb_parent (rb_set_parent m p (set_left n q s)) = rb_parent (rb_set_parent m p s)"
  "rb_parent (rb_set_parent m p (flip s)) = rb_parent (rb_set_parent m p s)"
  by (auto simp: rb_defs flip_def fun_eq_iff)

lemma flip_rotate: "rb_rotate_right n s = map_option flip (rb_rotate_left n (flip s))"
  by (simp add: rb_rotate_left_def rb_rotate_right_def Let_def flip_relink flip_upd)

lemma ptr_mirror [simp]: "ptr (mirror t) = ptr t"
  by (cases t rule: ptr.cases) auto

lemma nds_mirror [simp]: "nds (mirror t) = rev (nds t)"
  by (induction t rule: nds.induct) auto

lemma tree_at_flip: "tree_at (flip s) p t \<longleftrightarrow> tree_at s p (mirror t)"
  by (induction "flip s" p t rule: tree_at.induct) auto

lemma parent_of_mirror [simp]: "parent_of (map mirror_frame fs) = parent_of fs"
  by (cases fs rule: parent_of.cases) auto

lemma mirror_mirror_frame [simp]: "mirror_frame (mirror_frame f) = f"
  by (cases f) auto

lemma mirror_frames [simp]: "map (mirror_frame \<circ> mirror_frame) fs = fs"
  by (induction fs) auto

lemma hole_flip: "hole (flip s) p fs \<longleftrightarrow> hole s p (map mirror_frame fs)"
  by (induction "flip s" p fs rule: hole.induct) (auto simp: tree_at_flip)

lemma before_after_mirror: "before (map mirror_frame fs) = rev (after fs)" "after (map mirror_frame fs) = rev (before fs)"
  by (induction fs rule: after.induct) auto

lemma rep_flip: "rep (flip s) t fs \<longleftrightarrow> rep s (mirror t) (map mirror_frame fs)"
  by (auto simp: rep_def tree_at_flip hole_flip before_after_mirror)

lemma rotate_right_rep:
  assumes "rep s (Node (Node A (x, cx) B) (y, cy) C) fs"
  shows "\<exists>s'. rb_rotate_right y s = Some s' \<and> rep s' (Node A (x, cx) (Node B (y, cy) C)) fs"
proof -
  have "rep (flip s) (Node (mirror C) (y, cy) (Node (mirror B) (x, cx) (mirror A))) (map mirror_frame fs)"
    using assms by (simp add: rep_flip)
  from rotate_left_rep [OF this] obtain s' where
    "rb_rotate_left y (flip s) = Some s'" "rep s' (Node (Node (mirror C) (y, cy) (mirror B)) (x, cx) (mirror A)) (map mirror_frame fs)"
    by blast
  then show ?thesis using rep_flip [of "flip s'"] by (auto simp: flip_rotate)
qed

subsection \<open>Colours\<close>

fun col :: "rbt \<Rightarrow> color" where
  "col Leaf = Black"
| "col (Node l (a, c) r) = c"

lemma rep_black: "rep s (Node l (a, c) r) fs \<Longrightarrow> rep (rb_set_black a s) (Node l (a, Black) r) fs"
  by (auto simp: rep_def)

lemma rep_red: "rep s (Node l (a, c) r) fs \<Longrightarrow> rep (rb_set_red a s) (Node l (a, Red) r) fs"
  by (auto simp: rep_def)

lemma rep_color: "rep s (Node l (a, c) r) fs \<Longrightarrow> rep (rb_set_color a (color_bit c') s) (Node l (a, c') r) fs"
  by (auto simp: rep_def)

lemma rep_blk: "rep s t fs \<Longrightarrow> blk s (ptr t) \<longleftrightarrow> col t = Black"
  by (cases t rule: ptr.cases) (auto simp: rep_def blk_def rb_is_red_def intro: color.exhaust)


subsection \<open>The red-black invariant\<close>

fun bh :: "rbt \<Rightarrow> nat" where
  "bh Leaf = 0"
| "bh (Node l (a, c) r) = (case c of Black \<Rightarrow> Suc (bh l) | Red \<Rightarrow> bh l)"

fun balanced :: "rbt \<Rightarrow> bool" where
  "balanced Leaf \<longleftrightarrow> True"
| "balanced (Node l (a, c) r) \<longleftrightarrow>
     balanced l \<and> balanced r \<and> bh l = bh r \<and> (c = Red \<longrightarrow> col l = Black \<and> col r = Black)"

definition is_rbt :: "rbt \<Rightarrow> bool" where
  "is_rbt t \<longleftrightarrow> balanced t \<and> col t = Black"

text \<open>What a path expects of the subtree it leads to: its black height and the colour of its root.\<close>

fun ctx_ok :: "nat \<Rightarrow> color \<Rightarrow> frame list \<Rightarrow> bool" where
  "ctx_ok h k [] \<longleftrightarrow> k = Black"
| "ctx_ok h k (FL a c r # fs) \<longleftrightarrow>
     balanced r \<and> bh r = h \<and> (c = Red \<longrightarrow> k = Black \<and> col r = Black) \<and> ctx_ok (case c of Black \<Rightarrow> Suc h | Red \<Rightarrow> h) c fs"
| "ctx_ok h k (FR l a c # fs) \<longleftrightarrow>
     balanced l \<and> bh l = h \<and> (c = Red \<longrightarrow> k = Black \<and> col l = Black) \<and> ctx_ok (case c of Black \<Rightarrow> Suc h | Red \<Rightarrow> h) c fs"

lemma not_Red [simp]: "c \<noteq> Red \<longleftrightarrow> c = Black"
  by (cases c) simp_all

lemma ctx_ok_mono: "ctx_ok h Red fs \<Longrightarrow> ctx_ok h Black fs"
  by (cases fs rule: parent_of.cases) auto

lemma is_rbt_plug: "is_rbt (plug t fs) \<longleftrightarrow> balanced t \<and> ctx_ok (bh t) (col t) fs"
  by (induction t fs rule: plug.induct) (auto simp: is_rbt_def split: color.splits)

lemma col_mirror [simp]: "col (mirror t) = col t"
  by (cases t rule: col.cases) auto

lemma balanced_mirror_aux: "bh (mirror t) = bh t \<and> balanced (mirror t) = balanced t" if "balanced t \<or> balanced (mirror t)"
  using that by (induction t rule: balanced.induct) (auto split: color.splits)

lemma balanced_mirror [simp]: "balanced (mirror t) = balanced t"
  using balanced_mirror_aux by blast

lemma bh_mirror: "balanced t \<Longrightarrow> bh (mirror t) = bh t"
  using balanced_mirror_aux by blast

lemma ctx_ok_mirror [simp]: "ctx_ok h k (map mirror_frame fs) = ctx_ok h k fs"
  by (induction h k fs rule: ctx_ok.induct) (auto simp: bh_mirror)

lemma nds_plug_mirror: "nds (plug (mirror t) (map mirror_frame fs)) = rev (nds (plug t fs))"
  by (simp add: nds_plug before_after_mirror)

text \<open>The store holds a red-black tree with the given nodes in order.\<close>

definition rb_valid :: "rb_tree \<Rightarrow> rb_ptr list \<Rightarrow> bool" where
  "rb_valid s ns \<longleftrightarrow> (\<exists>T. rep s T [] \<and> is_rbt T \<and> nds T = ns)"

subsection \<open>Insertion restores the invariant\<close>

lemma rep_root: "rep s t [] \<Longrightarrow> rb_root s = ptr t"
  by (simp add: rep_def)

lemma rep_ptrs:
  assumes "rep s (Node l (a, c) r) fs"
  shows "rb_l s a = ptr l" "rb_r s a = ptr r" "rb_parent s a = parent_of fs" "rb_color s a = color_bit c" "rb_is_red s a \<longleftrightarrow> c = Red"
    "a \<noteq> 0" "aligned a"
  using assms by (auto simp: rep_def rb_is_red_def)

text \<open>The loop stops below a black parent or at the root and blackens the root.\<close>

lemma insert_fixup_stop:
  assumes "rep s (Node l (x, Red) r) fs" and "balanced (Node l (x, Red) r)" and "ctx_ok (bh l) Black fs"
    and "fs = [] \<or> fcol (hd fs) = Black"
  shows "\<exists>s' T. rb_insert_fixup x s = Some s' \<and> rep s' T [] \<and> is_rbt T \<and> nds T = nds (plug (Node l (x, Red) r) fs)"
proof -
  let ?t = "Node l (x, Red) r"
  have stop: "\<not> (rb_parent s x \<noteq> 0 \<and> rb_is_red s (rb_parent s x))"
    using assms(1,4) by (cases fs rule: parent_of.cases) (auto simp: rep_def rb_is_red_def)
  obtain L a c R where T: "plug ?t fs = Node L (a, c) R"
    by (metis nds.cases nds.simps(1) nds_plug nds.simps(2) append_is_Nil_conv list.distinct(1))
  have r: "rep s (Node L (a, c) R) []" using assms(1) T rep_plug by metis
  have b: "balanced (Node L (a, Black) R)"
  proof (cases fs)
    case Nil
    then show ?thesis using assms(2) T by simp
  next
    case (Cons f fs')
    then have "is_rbt (plug ?t fs)" using assms(2-) by (cases f) (auto simp: is_rbt_plug)
    then show ?thesis by (simp add: T is_rbt_def)
  qed
  have "rb_insert_fixup x s = Some (rb_set_black a s)"
    using stop rep_root [OF r] by (subst rb_insert_fixup.simps) (auto simp: Let_def)
  moreover have "nds (Node L (a, Black) R) = nds (plug ?t fs)" by (simp add: T)
  ultimately show ?thesis using rep_black [OF r] b by (auto simp: is_rbt_def)
qed

lemma turn_right:
  assumes "rep s (Node l (x, Red) r) (f # FL g Black u # fs)" and "balanced (Node l (x, Red) r)"
    and "ctx_ok (bh l) Black (f # FL g Black u # fs)" and "fcol f = Red" and "col u = Black"
  shows "\<exists>n s' l' r' p v. insert_turn_right x (parent_of [f]) g s = Some (n, s') \<and> rep s' (Node l' (n, Red) r') (FL p Black v # fs) \<and>
    balanced (Node l' (n, Red) r') \<and> bh l' = bh l \<and> ctx_ok (bh l) Black (FL p Black v # fs) \<and>
    nds (plug (Node l' (n, Red) r') (FL p Black v # fs)) = nds (plug (Node l (x, Red) r) (f # FL g Black u # fs))"
proof (cases f)
  case (FL p c b)
  then have c: "c = Red" using assms(4) by simp
  have 1: "rep s (Node (Node l (x, Red) r) (p, Red) b) (FL g Black u # fs)" using assms(1) FL c by (simp add: rep_FL)
  have "rb_r s p \<noteq> x" using 1 by (auto simp: rep_def dest: ptr_mem)
  moreover have "rep (rb_set_black p s) (Node (Node (Node l (x, Red) r) (p, Black) b) (g, Black) u) fs" using rep_black [OF 1] by (simp add: rep_FL)
  from rotate_right_rep [OF rep_red [OF this]] obtain s' where
    "rb_rotate_right g (rb_set_red g (rb_set_black p s)) = Some s'" "rep s' (Node (Node l (x, Red) r) (p, Black) (Node b (g, Red) u)) fs" by blast
  ultimately have "insert_turn_right x (parent_of [f]) g s = Some (x, s')" "rep s' (Node l (x, Red) r) (FL p Black (Node b (g, Red) u) # fs)"
    by (auto simp: insert_turn_right_def FL rep_FL)
  then show ?thesis using assms(2,3,5) FL c
    by (intro exI [of _ x] exI [of _ s'] exI [of _ l] exI [of _ r] exI [of _ p] exI [of _ "Node b (g, Red) u"]) (auto simp: nds_plug)
next
  case (FR a p c)
  then have c: "c = Red" using assms(4) by simp
  have 1: "rep s (Node a (p, Red) (Node l (x, Red) r)) (FL g Black u # fs)" using assms(1) FR c by (simp add: rep_FR)
  from rotate_left_rep [OF this] obtain s1 where
    2: "rb_rotate_left p s = Some s1" "rep s1 (Node (Node a (p, Red) l) (x, Red) r) (FL g Black u # fs)" by blast
  then have px: "rb_parent s1 p = x" by (auto simp: rep_def)
  have "rep (rb_set_black x s1) (Node (Node (Node a (p, Red) l) (x, Black) r) (g, Black) u) fs" using rep_black [OF 2(2)] by (simp add: rep_FL)
  from rotate_right_rep [OF rep_red [OF this]] obtain s' where
    "rb_rotate_right g (rb_set_red g (rb_set_black x s1)) = Some s'" "rep s' (Node (Node a (p, Red) l) (x, Black) (Node r (g, Red) u)) fs" by blast
  then have "insert_turn_right x (parent_of [f]) g s = Some (p, s')" "rep s' (Node a (p, Red) l) (FL x Black (Node r (g, Red) u) # fs)"
    using 2(1) px rep_ptrs(2) [OF 1] by (auto simp: insert_turn_right_def FR rep_FL)
  then show ?thesis using assms(2,3,5) FR c
    by (intro exI [of _ p] exI [of _ s'] exI [of _ a] exI [of _ l] exI [of _ x] exI [of _ "Node r (g, Red) u"]) (auto simp: nds_plug)
qed

lemma flip_turn: "insert_turn_left n p g s = map_option (map_prod id flip) (insert_turn_right n p g (flip s))"
  by (cases "rb_rotate_left p (flip s)")
    (auto simp: insert_turn_left_def insert_turn_right_def flip_rotate flip_upd option.map_comp comp_def)

lemma turn_left:
  assumes "rep s (Node l (x, Red) r) (f # FR u g Black # fs)" and "balanced (Node l (x, Red) r)"
    and "ctx_ok (bh l) Black (f # FR u g Black # fs)" and "fcol f = Red" and "col u = Black"
  shows "\<exists>n s' l' r' p v. insert_turn_left x (parent_of [f]) g s = Some (n, s') \<and> rep s' (Node l' (n, Red) r') (FR v p Black # fs) \<and>
    balanced (Node l' (n, Red) r') \<and> bh l' = bh l \<and> ctx_ok (bh l) Black (FR v p Black # fs) \<and>
    nds (plug (Node l' (n, Red) r') (FR v p Black # fs)) = nds (plug (Node l (x, Red) r) (f # FR u g Black # fs))"
proof -
  have b: "balanced (Node (mirror r) (x, Red) (mirror l))" "bh (mirror r) = bh l" using assms(2) by (auto simp: bh_mirror)
  have "rep (flip s) (Node (mirror r) (x, Red) (mirror l)) (mirror_frame f # FL g Black (mirror u) # map mirror_frame fs)"
    using assms(1) by (simp add: rep_flip)
  moreover have "ctx_ok (bh (mirror r)) Black (mirror_frame f # FL g Black (mirror u) # map mirror_frame fs)"
    using assms(3) b(2) ctx_ok_mirror [of "bh l" Black "f # FR u g Black # fs"] by simp
  moreover have "fcol (mirror_frame f) = Red" using assms(4) by (cases f) auto
  ultimately obtain n s' l' r' p v where
    1: "insert_turn_right x (parent_of [mirror_frame f]) g (flip s) = Some (n, s')"
      "rep s' (Node l' (n, Red) r') (FL p Black v # map mirror_frame fs)"
      "balanced (Node l' (n, Red) r')" "bh l' = bh l" "ctx_ok (bh l) Black (FL p Black v # map mirror_frame fs)"
      "nds (plug (Node l' (n, Red) r') (FL p Black v # map mirror_frame fs)) =
       nds (plug (Node (mirror r) (x, Red) (mirror l)) (mirror_frame f # FL g Black (mirror u) # map mirror_frame fs))"
    using turn_right [of "flip s" "mirror r" x "mirror l" "mirror_frame f" g "mirror u" "map mirror_frame fs"] b assms(5) by auto
  let ?t = "Node (mirror r') (n, Red) (mirror l')" and ?fs = "FR (mirror v) p Black # fs"
  have "parent_of [mirror_frame f] = parent_of [f]" by (cases f) auto
  moreover have "rep (flip s') ?t ?fs" using 1(2) by (simp add: rep_flip)
  moreover have "nds (plug ?t ?fs) = nds (plug (Node l (x, Red) r) (f # FR u g Black # fs))"
    using arg_cong [OF 1(6), of rev] nds_plug_mirror [of ?t ?fs] nds_plug_mirror [of "Node l (x, Red) r" "f # FR u g Black # fs"] by simp
  ultimately show ?thesis using 1(1,3-5) ctx_ok_mirror [of "bh l" Black ?fs]
    by (intro exI [of _ n] exI [of _ "flip s'"] exI [of _ "mirror r'"] exI [of _ "mirror l'"] exI [of _ p] exI [of _ "mirror v"])
      (auto simp: flip_turn bh_mirror)
qed

text \<open>A red uncle: the colours of the grandparent and its children are exchanged.\<close>

lemma recolour_left:
  assumes "rep s (Node L (p, Red) R) (FL g Black (Node ul (u, Red) ur) # fs)"
  shows "rep (rb_set_red g (rb_set_black p (rb_set_black u s))) (Node (Node L (p, Black) R) (g, Red) (Node ul (u, Black) ur)) fs"
proof -
  have "rep s (Node ul (u, Red) ur) (FR (Node L (p, Red) R) g Black # fs)" using assms by (simp add: rep_FL rep_FR)
  from rep_black [OF this] have "rep (rb_set_black u s) (Node L (p, Red) R) (FL g Black (Node ul (u, Black) ur) # fs)"
    by (simp add: rep_FL rep_FR)
  from rep_black [OF this] show ?thesis by (simp add: rep_FL rep_red)
qed

lemma recolour_right:
  assumes "rep s (Node L (p, Red) R) (FR (Node ul (u, Red) ur) g Black # fs)"
  shows "rep (rb_set_red g (rb_set_black p (rb_set_black u s))) (Node (Node ul (u, Black) ur) (g, Red) (Node L (p, Black) R)) fs"
proof -
  have "rep s (Node ul (u, Red) ur) (FL g Black (Node L (p, Red) R) # fs)" using assms by (simp add: rep_FL rep_FR)
  from rep_black [OF this] have "rep (rb_set_black u s) (Node L (p, Red) R) (FR (Node ul (u, Black) ur) g Black # fs)"
    by (simp add: rep_FL rep_FR)
  from rep_black [OF this] show ?thesis by (simp add: rep_FR rep_red)
qed

definition insert_done :: "rb_ptr \<Rightarrow> rb_tree \<Rightarrow> rb_ptr list \<Rightarrow> bool" where
  "insert_done x s ns \<longleftrightarrow> (\<exists>s' T. rb_insert_fixup x s = Some s' \<and> rep s' T [] \<and> is_rbt T \<and> nds T = ns)"

lemma insert_up_left:
  assumes "rep s (Node l (x, Red) r) (f # FL g c u # fs)" and "balanced (Node l (x, Red) r)" and "ctx_ok (bh l) Black (f # FL g c u # fs)"
    and "fcol f = Red"
  shows "insert_done x s (nds (plug (Node l (x, Red) r) (f # FL g c u # fs))) \<or>
    (\<exists>s1 l1 g1 r1. rb_insert_fixup x s = rb_insert_fixup g1 s1 \<and> rep s1 (Node l1 (g1, Red) r1) fs \<and> balanced (Node l1 (g1, Red) r1) \<and>
       ctx_ok (bh l1) Black fs \<and> nds (plug (Node l1 (g1, Red) r1) fs) = nds (plug (Node l (x, Red) r) (f # FL g c u # fs)))"
    (is "?done \<or> ?up")
proof -
  let ?t = "Node l (x, Red) r" and ?fs = "FL g c u # fs"
  obtain L p R where P: "plug ?t [f] = Node L (p, Red) R" "parent_of [f] = p" using assms(4) by (cases f) auto
  have c: "c = Black" and u: "balanced u" "bh u = bh l" "ctx_ok (Suc (bh l)) Black fs" using assms(3,4) by (cases c; cases f; auto)+
  have rP: "rep s (Node L (p, Red) R) ?fs" using assms(1) P by (cases f) (auto simp: rep_FL rep_FR)
  have bP: "balanced (Node L (p, Black) R)" "bh L = bh l" using assms(2,3) P by (cases f; auto)+
  have px: "rb_parent s x = p" using rep_ptrs(3) [OF assms(1)] P by (cases f) auto
  have nP: "nds (plug ?t (f # ?fs)) = nds (plug (Node L (p, Red) R) ?fs)" using P by (cases f) (auto simp: nds_plug)
  have G: "rep s (Node (Node L (p, Red) R) (g, Black) u) fs" using rP c by (simp add: rep_FL)
  have U: "rep s u (FR (Node L (p, Red) R) g Black # fs)" using G by (simp add: rep_FR)
  have step: "rb_insert_fixup x s =
      (if col u = Red then rb_insert_fixup g (rb_set_red g (rb_set_black p (rb_set_black (ptr u) s)))
       else Option.bind (insert_turn_right x p g s) (\<lambda>(node, s). rb_insert_fixup node s))"
    using px rep_ptrs [OF rP] rep_ptrs [OF G] rep_blk [OF U] by (subst rb_insert_fixup.simps) (auto simp: Let_def blk_def)
  show ?thesis
  proof (cases "col u")
    case Red
    then obtain ul ua ur where u': "u = Node ul (ua, Red) ur" by (cases u rule: col.cases) auto
    let ?g = "Node (Node L (p, Black) R) (g, Red) (Node ul (ua, Black) ur)"
    have "rep (rb_set_red g (rb_set_black p (rb_set_black ua s))) ?g fs" using recolour_left [of s L p R g ul ua ur fs] rP c u' by simp
    moreover have "balanced ?g" "ctx_ok (bh (Node L (p, Black) R)) Black fs" using bP u u' by auto
    moreover have "nds (plug ?g fs) = nds (plug ?t (f # ?fs))" using nP u' by (simp add: nds_plug)
    moreover have "rb_insert_fixup x s = rb_insert_fixup g (rb_set_red g (rb_set_black p (rb_set_black ua s)))" using step Red u' by simp
    ultimately have ?up by blast
    then show ?thesis ..
  next
    case Black
    obtain n s' l' r' p' v where
      1: "insert_turn_right x p g s = Some (n, s')" "rep s' (Node l' (n, Red) r') (FL p' Black v # fs)"
        "balanced (Node l' (n, Red) r')" "bh l' = bh l" "ctx_ok (bh l) Black (FL p' Black v # fs)"
        "nds (plug (Node l' (n, Red) r') (FL p' Black v # fs)) = nds (plug ?t (f # ?fs))"
      using turn_right [of s l x r f g u fs] assms c P(2) Black by auto
    then have ?done using insert_fixup_stop [OF 1(2,3)] step Black by (auto simp: insert_done_def)
    then show ?thesis ..
  qed
qed

lemma insert_up_right:
  assumes "rep s (Node l (x, Red) r) (f # FR u g c # fs)" and "balanced (Node l (x, Red) r)" and "ctx_ok (bh l) Black (f # FR u g c # fs)"
    and "fcol f = Red"
  shows "insert_done x s (nds (plug (Node l (x, Red) r) (f # FR u g c # fs))) \<or>
    (\<exists>s1 l1 g1 r1. rb_insert_fixup x s = rb_insert_fixup g1 s1 \<and> rep s1 (Node l1 (g1, Red) r1) fs \<and> balanced (Node l1 (g1, Red) r1) \<and>
       ctx_ok (bh l1) Black fs \<and> nds (plug (Node l1 (g1, Red) r1) fs) = nds (plug (Node l (x, Red) r) (f # FR u g c # fs)))"
    (is "?done \<or> ?up")
proof -
  let ?t = "Node l (x, Red) r" and ?fs = "FR u g c # fs"
  obtain L p R where P: "plug ?t [f] = Node L (p, Red) R" "parent_of [f] = p" using assms(4) by (cases f) auto
  have c: "c = Black" and u: "balanced u" "bh u = bh l" "ctx_ok (Suc (bh l)) Black fs" using assms(3,4) by (cases c; cases f; auto)+
  have rP: "rep s (Node L (p, Red) R) ?fs" using assms(1) P by (cases f) (auto simp: rep_FL rep_FR)
  have bP: "balanced (Node L (p, Black) R)" "bh L = bh l" using assms(2,3) P by (cases f; auto)+
  have px: "rb_parent s x = p" using rep_ptrs(3) [OF assms(1)] P by (cases f) auto
  have nP: "nds (plug ?t (f # ?fs)) = nds (plug (Node L (p, Red) R) ?fs)" using P by (cases f) (auto simp: nds_plug)
  have G: "rep s (Node u (g, Black) (Node L (p, Red) R)) fs" using rP c by (simp add: rep_FR)
  have U: "rep s u (FL g Black (Node L (p, Red) R) # fs)" using G by (simp add: rep_FL)
  have "rb_l s g \<noteq> p" using G by (auto simp: rep_def dest: ptr_mem)
  then have step: "rb_insert_fixup x s =
      (if col u = Red then rb_insert_fixup g (rb_set_red g (rb_set_black p (rb_set_black (ptr u) s)))
       else Option.bind (insert_turn_left x p g s) (\<lambda>(node, s). rb_insert_fixup node s))"
    using px rep_ptrs [OF rP] rep_ptrs [OF G] rep_blk [OF U] by (subst rb_insert_fixup.simps) (auto simp: Let_def blk_def)
  show ?thesis
  proof (cases "col u")
    case Red
    then obtain ul ua ur where u': "u = Node ul (ua, Red) ur" by (cases u rule: col.cases) auto
    let ?g = "Node (Node ul (ua, Black) ur) (g, Red) (Node L (p, Black) R)"
    have "rep (rb_set_red g (rb_set_black p (rb_set_black ua s))) ?g fs" using recolour_right [of s L p R ul ua ur g fs] rP c u' by simp
    moreover have "balanced ?g" "ctx_ok (bh (Node ul (ua, Black) ur)) Black fs" using bP u u' by auto
    moreover have "nds (plug ?g fs) = nds (plug ?t (f # ?fs))" using nP u' by (simp add: nds_plug)
    moreover have "rb_insert_fixup x s = rb_insert_fixup g (rb_set_red g (rb_set_black p (rb_set_black ua s)))" using step Red u' by simp
    ultimately have ?up by blast
    then show ?thesis ..
  next
    case Black
    obtain n s' l' r' p' v where
      1: "insert_turn_left x p g s = Some (n, s')" "rep s' (Node l' (n, Red) r') (FR v p' Black # fs)"
        "balanced (Node l' (n, Red) r')" "bh l' = bh l" "ctx_ok (bh l) Black (FR v p' Black # fs)"
        "nds (plug (Node l' (n, Red) r') (FR v p' Black # fs)) = nds (plug ?t (f # ?fs))"
      using turn_left [of s l x r f u g fs] assms c P(2) Black by auto
    then have ?done using insert_fixup_stop [OF 1(2,3)] step Black by (auto simp: insert_done_def)
    then show ?thesis ..
  qed
qed

lemma insert_fixup_rep:
  assumes "rep s (Node l (x, Red) r) fs" and "balanced (Node l (x, Red) r)" and "ctx_ok (bh l) Black fs"
  shows "insert_done x s (nds (plug (Node l (x, Red) r) fs))"
  using assms
proof (induction "length fs" arbitrary: fs s l x r rule: less_induct)
  case less
  consider (stop) "fs = [] \<or> fcol (hd fs) = Black"
    | (red) f fs1 where "fs = f # fs1" "fcol f = Red"
    by (cases fs; cases "fcol (hd fs)") auto
  then show ?case
  proof cases
    case stop
    then show ?thesis using insert_fixup_stop [OF less.prems] by (simp add: insert_done_def)
  next
    case red
    from less.prems(3) red obtain gf fs2 where fs1: "fs1 = gf # fs2" by (cases fs1; cases f) auto
    have up: "insert_done x s (nds (plug (Node l (x, Red) r) fs))" if "rb_insert_fixup x s = rb_insert_fixup g1 s1" "rep s1 (Node l1 (g1, Red) r1) fs2" "balanced (Node l1 (g1, Red) r1)"
      "ctx_ok (bh l1) Black fs2" "nds (plug (Node l1 (g1, Red) r1) fs2) = nds (plug (Node l (x, Red) r) fs)" for s1 l1 g1 r1
      using less.hyps [OF _ that(2-4)] that(1,5) red(1) fs1 unfolding insert_done_def by simp
    show ?thesis
    proof (cases gf)
      case (FL g c u)
      note fs = red(1) [unfolded fs1 FL]
      from insert_up_left [OF less.prems [unfolded fs] red(2)] show ?thesis unfolding fs [symmetric] using up by blast
    next
      case (FR u g c)
      note fs = red(1) [unfolded fs1 FR]
      from insert_up_right [OF less.prems [unfolded fs] red(2)] show ?thesis unfolding fs [symmetric] using up by blast
    qed
  qed
qed

subsection \<open>The tree as an ordered list\<close>

text \<open>The callback orders nodes by a key.\<close>

definition cmp_by :: "(rb_ptr \<Rightarrow> rb_ptr \<Rightarrow> int) \<Rightarrow> (rb_ptr \<Rightarrow> 'k::linorder) \<Rightarrow> bool" where
  "cmp_by cmp key \<longleftrightarrow> (\<forall>a b. (cmp a b < 0 \<longleftrightarrow> key a < key b) \<and> (0 < cmp a b \<longleftrightarrow> key b < key a))"

text \<open>Insertion behind all nodes of the same key.\<close>

definition insert_after :: "(rb_ptr \<Rightarrow> 'k::linorder) \<Rightarrow> rb_ptr \<Rightarrow> rb_ptr list \<Rightarrow> rb_ptr list" where
  "insert_after key x xs = takeWhile (\<lambda>a. key a \<le> key x) xs @ x # dropWhile (\<lambda>a. key a \<le> key x) xs"

fun link_of :: "frame list \<Rightarrow> rb_link" where
  "link_of [] = Link_root"
| "link_of (FL a c r # fs) = Link_left a"
| "link_of (FR l a c # fs) = Link_right a"

lemma read_link_of: "hole s p fs \<Longrightarrow> read_link (link_of fs) s = p"
  by (cases "(s, p, fs)" rule: hole.cases) auto

lemma write_link_of: "hole s p fs \<Longrightarrow> distinct (before fs @ after fs) \<Longrightarrow> hole (write_link (link_of fs) q s) q fs"
  by (cases "(s, p, fs)" rule: hole.cases) auto

lemma write_link_get [simp]:
  "rb_parent (write_link k q s) = rb_parent s" "rb_color (write_link k q s) = rb_color s"
  by (cases k; simp)+

lemma write_link_other [simp]:
  "n \<noteq> parent_of fs \<Longrightarrow> rb_l (write_link (link_of fs) q s) n = rb_l s n"
  "n \<noteq> parent_of fs \<Longrightarrow> rb_r (write_link (link_of fs) q s) n = rb_r s n"
  by (cases fs rule: link_of.cases; simp)+

lemma descend_rep:
  assumes "cmp_by cmp key" and "rep s t fs" and "sorted (map key (nds (plug t fs)))"
    and "\<forall>a\<in>set (before fs). key a \<le> key x" and "\<forall>a\<in>set (after fs). key x < key a"
  shows "\<exists>fs'. rb_descend cmp x s (link_of fs) (parent_of fs) = Some (link_of fs', parent_of fs') \<and> plug Leaf fs' = plug t fs \<and>
    (\<forall>a\<in>set (before fs'). key a \<le> key x) \<and> (\<forall>a\<in>set (after fs'). key x < key a)"
  using assms(2-)
proof (induction t arbitrary: fs)
  case Leaf
  then have "read_link (link_of fs) s = 0" using read_link_of by (auto simp: rep_def)
  then show ?case using Leaf by (subst rb_descend.simps) auto
next
  case (Node l ac r)
  obtain a c where ac: "ac = (a, c)" by (cases ac)
  have a: "read_link (link_of fs) s = a" "a \<noteq> 0" using Node.prems(1) read_link_of ac by (auto simp: rep_def)
  have step: "rb_descend cmp x s (link_of fs) (parent_of fs) =
      (if key x < key a then rb_descend cmp x s (link_of (FL a c r # fs)) (parent_of (FL a c r # fs))
       else rb_descend cmp x s (link_of (FR l a c # fs)) (parent_of (FR l a c # fs)))"
    using a assms(1) by (subst rb_descend.simps) (auto simp: cmp_by_def)
  have o: "\<forall>b\<in>set (nds l). key b \<le> key a" "\<forall>b\<in>set (nds r). key a \<le> key b"
    using Node.prems(2) ac by (auto simp: nds_plug sorted_append)
  show ?case
  proof (cases "key x < key a")
    case True
    then show ?thesis using Node.IH(1) [of "FL a c r # fs"] Node.prems step o ac by (fastforce simp: rep_FL)
  next
    case False
    then show ?thesis using Node.IH(2) [of "FR l a c # fs"] Node.prems step o ac by (fastforce simp: rep_FR)
  qed
qed

lemma rb_insert_rep:
  assumes "cmp_by cmp key" and "rb_valid s ns" and "sorted (map key ns)" and "x \<noteq> 0" and "aligned x" and "x \<notin> set ns"
  shows "\<exists>s'. rb_insert cmp x s = Some s' \<and> rb_valid s' (insert_after key x ns)"
proof -
  obtain T where T: "rep s T []" "is_rbt T" "nds T = ns" using assms(2) by (auto simp: rb_valid_def)
  obtain fs where D: "rb_descend cmp x s Link_root 0 = Some (link_of fs, parent_of fs)" "plug Leaf fs = T"
    "\<forall>a\<in>set (before fs). key a \<le> key x" "\<forall>a\<in>set (after fs). key x < key a"
    using descend_rep [OF assms(1) T(1), of x] T(3) assms(3) by auto
  have ns: "ns = before fs @ after fs" using D(2) T(3) nds_plug [of Leaf fs] by simp
  have H: "hole s 0 fs" "distinct (before fs @ after fs)" using T(1) D(2) rep_plug [of s Leaf fs] by (auto simp: rep_def)
  let ?s = "write_link (link_of fs) x (rb_set_red x (set_left x 0 (set_right x 0 (rb_set_parent x (parent_of fs) s))))"
  have x: "x \<notin> set (before fs)" "x \<notin> set (after fs)" using assms(6) ns by auto
  have p: "aligned (parent_of fs)" "x \<noteq> parent_of fs"
    using parent_of_aligned [OF H(1)] parent_of_in [of fs] x assms(4) by (cases "fs = []"; auto)+
  have "hole ?s x fs" using H x p by (intro write_link_of [of _ 0]) simp_all
  then have "rep ?s (Node Leaf (x, Red) Leaf) fs" using assms(4,5) x p H(2) by (simp add: rep_def)
  moreover have "ctx_ok (bh Leaf) Black fs" using T(2) D(2) is_rbt_plug [of Leaf fs] by simp
  ultimately have "insert_done x ?s (before fs @ x # after fs)"
    using insert_fixup_rep [of ?s Leaf x Leaf fs] by (simp add: nds_plug)
  moreover have "insert_after key x ns = before fs @ x # after fs"
    using D(3,4) by (cases "after fs") (auto simp: insert_after_def ns not_le)
  ultimately show ?thesis using D(1) by (auto simp: rb_insert_def insert_done_def rb_valid_def Let_def)
qed

text \<open>Lookup and the least node.\<close>

definition found :: "(rb_ptr \<Rightarrow> 'k::linorder) \<Rightarrow> rb_ptr \<Rightarrow> rb_ptr list \<Rightarrow> rb_ptr \<Rightarrow> bool" where
  "found key k ns n \<longleftrightarrow> n \<in> set ns \<and> key n = key k \<or> n = 0 \<and> (\<forall>a\<in>set ns. key a \<noteq> key k)"

lemma search_from_rep:
  assumes "cmp_by cmp key" and "tree_at s p t" and "sorted (map key (nds t))"
  shows "\<exists>n. rb_search_from cmp k s (ptr t) = Some n \<and> found key k (nds t) n"
  using assms(2-)
proof (induction t arbitrary: p)
  case Leaf
  then show ?case by (subst rb_search_from.simps) (simp add: found_def)
next
  case (Node l ac r)
  obtain a c where ac: "ac = (a, c)" by (cases ac)
  have o: "\<forall>b\<in>set (nds l). key b \<le> key a" "\<forall>b\<in>set (nds r). key a \<le> key b" "sorted (map key (nds l))" "sorted (map key (nds r))"
    using Node.prems(2) ac by (auto simp: sorted_append)
  have step: "rb_search_from cmp k s (ptr (Node l ac r)) =
      (if key k < key a then rb_search_from cmp k s (ptr l) else if key a < key k then rb_search_from cmp k s (ptr r) else Some a)"
    using Node.prems(1) assms(1) ac by (subst rb_search_from.simps) (auto simp: cmp_by_def)
  consider "key k < key a" | "key a < key k" | "key a = key k" by fastforce
  then show ?case
  proof cases
    case 1
    then have "\<forall>b\<in>set (nds r). key b \<noteq> key k" using o(2) by fastforce
    then show ?thesis using Node.IH(1) [of a] Node.prems(1) o(3) step ac 1 by (auto simp: found_def)
  next
    case 2
    then have "\<forall>b\<in>set (nds l). key b \<noteq> key k" using o(1) by fastforce
    then show ?thesis using Node.IH(2) [of a] Node.prems(1) o(4) step ac 2 by (auto simp: found_def)
  next
    case 3
    then show ?thesis using step ac by (auto simp: found_def)
  qed
qed

text \<open>The leftmost node, with the path that leads down to it.\<close>

fun all_left :: "frame list \<Rightarrow> bool" where
  "all_left [] \<longleftrightarrow> True"
| "all_left (FL a c r # fs) \<longleftrightarrow> all_left fs"
| "all_left (FR l a c # fs) \<longleftrightarrow> False"

lemma plug_append: "plug t (ds @ fs) = plug (plug t ds) fs"
  by (induction t ds rule: plug.induct) simp_all

lemma rep_append: "rep s t (ds @ fs) \<longleftrightarrow> rep s (plug t ds) fs"
  by (metis plug_append rep_plug)

lemma all_left_append: "all_left (ds @ [FL a c r]) \<longleftrightarrow> all_left ds"
  by (induction ds rule: all_left.induct) simp_all

lemma all_left_before: "all_left ds \<Longrightarrow> before ds = []"
  by (induction ds rule: all_left.induct) simp_all

lemma leftmost_rep:
  assumes "tree_at s p t" and "t \<noteq> Leaf"
  shows "\<exists>y cy r ds. rb_leftmost s (ptr t) = Some y \<and> t = plug (Node Leaf (y, cy) r) ds \<and> all_left ds"
  using assms
proof (induction t arbitrary: p)
  case (Node l ac r)
  obtain a c where ac: "ac = (a, c)" by (cases ac)
  show ?case
  proof (cases "l = Leaf")
    case True
    then have "rb_leftmost s a = Some a" using Node.prems ac by (subst rb_leftmost.simps) simp
    then show ?thesis using True ac by (intro exI [of _ a] exI [of _ c] exI [of _ r] exI [of _ "[]"]) simp
  next
    case False
    then have "rb_leftmost s a = rb_leftmost s (ptr l)" using Node.prems ac tree_at_ptr [of s a l] by (subst rb_leftmost.simps) simp
    moreover obtain y cy r' ds where "rb_leftmost s (ptr l) = Some y" "l = plug (Node Leaf (y, cy) r') ds" "all_left ds"
      using Node.IH(1) [of a] Node.prems False ac by auto
    ultimately show ?thesis using ac
      by (intro exI [of _ y] exI [of _ cy] exI [of _ r'] exI [of _ "ds @ [FL a c r]"]) (simp add: plug_append all_left_append)
  qed
qed simp

lemma rb_first_rep:
  assumes "rb_valid s ns"
  shows "rb_first s = Some (case ns of [] \<Rightarrow> 0 | n # _ \<Rightarrow> n)"
proof -
  obtain T where T: "rep s T []" "nds T = ns" using assms by (auto simp: rb_valid_def)
  show ?thesis
  proof (cases "T = Leaf")
    case True
    then show ?thesis using T by (auto simp: rb_first_def rep_def)
  next
    case False
    obtain y cy r ds where L: "rb_leftmost s (ptr T) = Some y" "T = plug (Node Leaf (y, cy) r) ds" "all_left ds"
      using leftmost_rep [of s 0 T] T(1) False by (auto simp: rep_def)
    moreover have "ns = y # nds r @ after ds" using L(2,3) T(2) by (simp add: nds_plug all_left_before)
    ultimately show ?thesis using T False tree_at_ptr [of s 0 T] by (auto simp: rb_first_def rep_def)
  qed
qed

subsection \<open>Unlinking a node\<close>

lemma parent_of_notin: "distinct (before fs @ ns @ after fs) \<Longrightarrow> parent_of fs \<notin> set ns \<or> parent_of fs = 0"
  using parent_of_in [of fs] by (cases "fs = []") auto

lemma unlink_single_rep:
  assumes "rep s (Node l (x, c) r) fs" and "l = Leaf \<and> t = r \<or> r = Leaf \<and> t = l"
  shows "\<exists>s'. unlink_single x (ptr t) s = (ptr t, parent_of fs, color_bit c, s') \<and> rep s' t fs"
proof -
  define s1 where "s1 = (if ptr t \<noteq> 0 then rb_set_parent (ptr t) (parent_of fs) s else s)"
  define s2 where "s2 = relink_left_first (parent_of fs) x (ptr t) s1"
  have t: "tree_at s x t" "hole s x fs" "distinct (before fs @ x # after fs)" "distinct (before fs @ nds t @ after fs)" "x \<noteq> 0"
    using assms by (auto simp: rep_def)
  have p: "aligned (parent_of fs)" using parent_of_aligned [OF t(2)] .
  have "ptr t \<notin> set (before fs)" "ptr t \<notin> set (after fs)" if "ptr t \<noteq> 0" using ptr_mem [of t "ptr t"] that t(4) by auto
  then have "hole s1 x fs" "tree_at s1 (parent_of fs) t"
    using t p tree_at_reparent [OF t(1) p] by (auto simp: s1_def)
  then have "hole s2 (ptr t) fs" "tree_at s2 (parent_of fs) t"
    using relink_hole(1) [OF _ t(5,3)] parent_of_notin [OF t(4)] by (simp_all add: s2_def)
  then have "rep s2 t fs" using t(4) by (simp add: rep_def)
  moreover have "unlink_single x (ptr t) s = (ptr t, parent_of fs, color_bit c, s2)"
    using rep_ptrs [OF assms(1)] by (simp add: unlink_single_def s2_def s1_def Let_def)
  ultimately show ?thesis by blast
qed

text \<open>A node takes the place of another whose right subtree already hangs below it.\<close>

lemma substitute_rep:
  assumes "tree_at s y r" and "rb_r s y = ptr r" and "tree_at s x l" and "l \<noteq> Leaf" and "hole s x fs"
    and "rb_parent s x = parent_of fs" and "rb_color s x = color_bit c" and "rb_l s x = ptr l" and "x \<noteq> 0" and "y \<noteq> 0" and "aligned y"
    and "distinct (before fs @ nds l @ x # y # nds r @ after fs)"
  shows "rep (rb_set_parent (ptr l) y (set_left y (ptr l) (rb_copy_pc y x (relink_left_first (parent_of fs) x y s)))) (Node l (y, c) r) fs"
proof -
  have d: "x \<notin> set (nds l)" "y \<notin> set (nds l)" "y \<notin> set (nds r)" "x \<noteq> y" "y \<notin> set (before fs)" "y \<notin> set (after fs)"
    "distinct (before fs @ x # after fs)" "distinct (nds l)" using assms(12) by auto
  have n: "parent_of fs \<notin> set (nds l) \<or> parent_of fs = 0" "parent_of fs \<notin> set (nds r) \<or> parent_of fs = 0" "y \<noteq> parent_of fs \<or> parent_of fs = 0"
    using parent_of_notin [of fs "nds l @ x # y # nds r"] assms(12) by auto
  have p: "ptr l \<in> set (nds l)" "ptr l \<noteq> 0" using ptr_in_nds [OF assms(4)] tree_at_ptr [OF assms(3)] assms(4) by auto
  have q: "ptr l \<notin> set (nds r)" "ptr l \<notin> set (before fs)" "ptr l \<notin> set (after fs)" "ptr l \<noteq> y" using p(1) assms(12) by auto
  define s2 where "s2 = set_left y (ptr l) (rb_copy_pc y x (relink_left_first (parent_of fs) x y s))"
  have "hole s2 y fs" using relink_hole(1) [OF assms(5,9) d(7)] d by (simp add: s2_def)
  moreover have "tree_at s2 x l" "tree_at s2 y r" using assms(1,3) d n by (simp_all add: s2_def)
  moreover have "rb_parent s2 y = parent_of fs" "rb_color s2 y = color_bit c" "rb_l s2 y = ptr l" "rb_r s2 y = ptr r"
    using assms(2,6,7) n by (simp_all add: s2_def)
  moreover have "tree_at (rb_set_parent (ptr l) y s2) y l" using tree_at_reparent [of s2 x l y] \<open>tree_at s2 x l\<close> assms(11) d p by simp
  ultimately have "rep (rb_set_parent (ptr l) y s2) (Node l (y, c) r) fs"
    using assms(10-12) q by (simp add: rep_def)
  then show ?thesis by (simp add: s2_def)
qed

lemma set_left_parent: "set_left a p (rb_set_parent b q s) = rb_set_parent b q (set_left a p s)"
  by (auto simp: rb_defs fun_eq_iff intro!: rb_tree.equality rb_node.equality)

lemma parent_of_append: "ds \<noteq> [] \<Longrightarrow> parent_of (ds @ fs) = parent_of ds"
  by (cases ds rule: parent_of.cases) auto

lemma before_append: "before (ds @ fs) = before fs @ before ds" "after (ds @ fs) = after ds @ after fs"
  by (induction ds rule: after.induct) simp_all

text \<open>The second half of the removal of a node with two children.\<close>

definition take_place :: "rb_ptr \<Rightarrow> rb_ptr \<Rightarrow> rb_tree \<Rightarrow> rb_tree" where
  "take_place x y s =
     (let s = relink_left_first (rb_parent s x) x y s;
          s = rb_copy_pc y x s;
          s = set_left y (rb_l s x) s
      in rb_set_parent (rb_l s y) y s)"

lemma take_place_rep:
  assumes "tree_at s y r" and "rb_r s y = ptr r" and "tree_at s x l" and "l \<noteq> Leaf" and "hole s x fs"
    and "rb_parent s x = parent_of fs" and "rb_color s x = color_bit c" and "rb_l s x = ptr l" and "x \<noteq> 0" and "y \<noteq> 0" and "aligned y"
    and "distinct (before fs @ nds l @ x # y # nds r @ after fs)"
  shows "rep (take_place x y s) r (FR l y c # fs)"
proof -
  have "parent_of fs \<notin> set [x, y] \<or> parent_of fs = 0" using assms(12) by (intro parent_of_notin) auto
  then have "take_place x y s = rb_set_parent (ptr l) y (set_left y (ptr l) (rb_copy_pc y x (relink_left_first (parent_of fs) x y s)))"
    using assms(6,8) by (auto simp: take_place_def Let_def)
  then show ?thesis using substitute_rep [OF assms] by (simp add: rep_FR)
qed

lemma unlink_double_alt:
  "unlink_double x y s =
     (if rb_parent s y = x
      then (rb_r s y, y, rb_color s y, take_place x y (if rb_r s y \<noteq> 0 then rb_set_parent (rb_r s y) y s else s))
      else let s1 = set_left (rb_parent s y) (rb_r s y) s;
               s2 = (if rb_r s y \<noteq> 0 then rb_set_parent (rb_r s y) (rb_parent s y) s1 else s1);
               s3 = set_right y (rb_r s2 x) s2
           in (rb_r s y, rb_parent s y, rb_color s y, take_place x y (rb_set_parent (rb_r s3 y) y s3)))"
  by (simp add: unlink_double_def take_place_def Let_def)

lemma unlink_double_rep:
  assumes "rep s (Node l (x, c) (plug (Node Leaf (y, cy) rr) ds)) fs" and "all_left ds" and "l \<noteq> Leaf"
  shows "\<exists>s'. unlink_double x y s = (ptr rr, parent_of (ds @ FR l y c # fs), color_bit cy, s') \<and> rep s' rr (ds @ FR l y c # fs)"
proof -
  let ?r' = "plug rr ds"
  have Y: "rep s (Node Leaf (y, cy) rr) (ds @ FR l x c # fs)" using assms(1) by (simp add: rep_append rep_FR)
  note X = rep_ptrs [OF assms(1)] and Yp = rep_ptrs [OF Y]
  have D: "distinct (before fs @ nds l @ x # y # nds ?r' @ after fs)"
    using assms(1,2) by (auto simp: rep_def nds_plug all_left_before)
  have lx: "tree_at s x l" "hole s x fs" using assms(1) by (auto simp: rep_def)
  show ?thesis
  proof (cases "ds = []")
    case True
    have ry: "tree_at s y rr" "rb_parent s y = x" using assms(1) True by (auto simp: rep_def)
    define s1 where "s1 = (if ptr rr \<noteq> 0 then rb_set_parent (ptr rr) y s else s)"
    have m: "ptr rr \<notin> set (nds l)" "ptr rr \<notin> set (before fs)" "ptr rr \<notin> set (after fs)" "ptr rr \<noteq> x" if "ptr rr \<noteq> 0"
      using ptr_mem [of rr "ptr rr"] that D True by auto
    have "rep (take_place x y s1) rr (FR l y c # fs)"
      using tree_at_reparent [OF ry(1) Yp(7)] lx m X Yp D True assms(3) by (intro take_place_rep) (auto simp: s1_def)
    then show ?thesis using ry Yp True by (auto simp: unlink_double_alt s1_def)
  next
    case False
    then obtain sp where sp: "parent_of (ds @ FR l x c # fs) = sp" "rb_l s sp = y" "sp \<noteq> 0" "sp \<noteq> x"
      using Y assms(2) by (cases ds rule: all_left.cases) (auto simp: rep_def before_append)
    define s2 where "s2 = (if ptr rr \<noteq> 0 then rb_set_parent (ptr rr) sp (set_left sp (ptr rr) s) else set_left sp (ptr rr) s)"
    have "relink_left_first sp y (ptr rr) (if ptr rr \<noteq> 0 then rb_set_parent (ptr rr) sp s else s) = s2"
      using sp by (auto simp: relink_left_first_def s2_def set_left_parent)
    then have "rep s2 rr (ds @ FR l x c # fs)" using unlink_single_rep [OF Y, of rr] Yp sp by (auto simp: unlink_single_def Let_def)
    then have R2: "rep s2 (Node l (x, c) ?r') fs" by (simp add: rep_append rep_FR)
    note X2 = rep_ptrs [OF R2]
    define s3 where "s3 = set_right y (ptr ?r') s2"
    have T3: "tree_at s3 x ?r'" "tree_at s3 x l" "hole s3 x fs" "distinct (nds ?r')" using R2 D by (auto simp: s3_def rep_def)
    have "?r' \<noteq> Leaf" using False nds_plug [of rr ds] by (cases ds rule: parent_of.cases) auto
    then have p: "ptr ?r' \<noteq> 0" "ptr ?r' \<in> set (nds ?r')" using tree_at_ptr [OF T3(1)] ptr_in_nds by auto
    then have q: "ptr ?r' \<notin> set (nds l)" "ptr ?r' \<notin> set (before fs)" "ptr ?r' \<notin> set (after fs)" "ptr ?r' \<noteq> x" using D by auto
    have "rep (take_place x y (rb_set_parent (ptr ?r') y s3)) ?r' (FR l y c # fs)"
      using tree_at_reparent [OF T3(1) Yp(7) T3(4)] T3 p q X2 Yp D assms(3) by (intro take_place_rep) (auto simp: s3_def)
    then show ?thesis using Yp sp X2 False
      by (auto simp: unlink_double_alt Let_def s2_def s3_def rep_append parent_of_append)
  qed
qed

subsection \<open>Removal restores the invariant\<close>

lemma erase_red_sibling:
  assumes "rep s t (FL p c (Node a (w, Red) b) # fs)" and "ctx_ok (Suc (bh t)) Black (FL p c (Node a (w, Red) b) # fs)"
  shows "\<exists>s'. rb_rotate_left p (rb_set_red p (rb_set_black w s)) = Some s' \<and> rep s' t (FL p Red a # FL w Black b # fs) \<and>
    ctx_ok (Suc (bh t)) Black (FL p Red a # FL w Black b # fs)"
proof -
  have "rep s (Node a (w, Red) b) (FR t p c # fs)" using assms(1) by (simp add: rep_FL rep_FR)
  from rep_black [OF this] have "rep (rb_set_black w s) (Node t (p, c) (Node a (w, Black) b)) fs" by (simp add: rep_FR)
  from rotate_left_rep [OF rep_red [OF this]] show ?thesis using assms(2) by (cases c) (auto simp: rep_FL)
qed

lemma erase_inner_red:
  assumes "rep s t (FL p c (Node (Node a1 (z, Red) a2) (w, Black) b) # fs)"
    and "ctx_ok (Suc (bh t)) Black (FL p c (Node (Node a1 (z, Red) a2) (w, Black) b) # fs)" and "col b = Black"
  shows "\<exists>s'. rb_rotate_right w (rb_set_red w (rb_set_black z s)) = Some s' \<and> rep s' t (FL p c (Node a1 (z, Black) (Node a2 (w, Red) b)) # fs) \<and>
    ctx_ok (Suc (bh t)) Black (FL p c (Node a1 (z, Black) (Node a2 (w, Red) b)) # fs)"
proof -
  have "rep s (Node a1 (z, Red) a2) (FL w Black b # FR t p c # fs)" using assms(1) by (simp add: rep_FL rep_FR)
  from rep_black [OF this] have "rep (rb_set_black z s) (Node (Node a1 (z, Black) a2) (w, Black) b) (FR t p c # fs)" by (simp add: rep_FL)
  from rotate_right_rep [OF rep_red [OF this]] obtain s' where
    "rb_rotate_right w (rb_set_red w (rb_set_black z s)) = Some s'" "rep s' (Node a1 (z, Black) (Node a2 (w, Red) b)) (FR t p c # fs)" by blast
  then show ?thesis using assms(2,3) by (auto simp: rep_FL rep_FR)
qed

lemma erase_finish:
  assumes "rep s t (FL p c (Node a (z, Black) (Node b1 (q, Red) b2)) # fs)" and "balanced t"
    and "ctx_ok (Suc (bh t)) Black (FL p c (Node a (z, Black) (Node b1 (q, Red) b2)) # fs)"
  shows "\<exists>s'. rb_rotate_left p (rb_set_black q (rb_set_black p (rb_set_color z (rb_color s p) s))) = Some s' \<and>
    rep s' (Node (Node t (p, Black) a) (z, c) (Node b1 (q, Black) b2)) fs \<and>
    is_rbt (plug (Node (Node t (p, Black) a) (z, c) (Node b1 (q, Black) b2)) fs)"
proof -
  have P: "rep s (Node t (p, c) (Node a (z, Black) (Node b1 (q, Red) b2))) fs" using assms(1) by (simp add: rep_FL)
  then have "rep s (Node a (z, Black) (Node b1 (q, Red) b2)) (FR t p c # fs)" by (simp add: rep_FR)
  from rep_color [OF this, of c] have "rep (rb_set_color z (color_bit c) s) (Node t (p, c) (Node a (z, c) (Node b1 (q, Red) b2))) fs"
    by (simp add: rep_FR)
  from rep_black [OF this] have "rep (rb_set_black p (rb_set_color z (color_bit c) s)) (Node b1 (q, Red) b2) (FR a z c # FR t p Black # fs)"
    by (simp add: rep_FR)
  from rep_black [OF this]
  have "rep (rb_set_black q (rb_set_black p (rb_set_color z (color_bit c) s))) (Node t (p, Black) (Node a (z, c) (Node b1 (q, Black) b2))) fs"
    by (simp add: rep_FR)
  from rotate_left_rep [OF this] show ?thesis using rep_ptrs(4) [OF P] assms(2,3) by (cases c) (auto simp: is_rbt_plug)
qed

lemma erase_final:
  assumes "rep s t (FL p c (Node a (z, Black) (Node b1 (q, Red) b2)) # fs)" and "balanced t"
    and "ctx_ok (Suc (bh t)) Black (FL p c (Node a (z, Black) (Node b1 (q, Red) b2)) # fs)"
  shows "\<exists>s'. (let s = rb_set_color z (rb_color s p) s; s = rb_set_black p s;
                  s = (if rb_r s z \<noteq> 0 then rb_set_black (rb_r s z) s else s)
              in map_option Inr (rb_rotate_left p s)) = Some (Inr s' :: rb_tree + rb_tree) \<and>
    rb_valid s' (nds (plug t (FL p c (Node a (z, Black) (Node b1 (q, Red) b2)) # fs)))"
proof -
  let ?T = "Node (Node t (p, Black) a) (z, c) (Node b1 (q, Black) b2)"
  obtain s' where s': "rb_rotate_left p (rb_set_black q (rb_set_black p (rb_set_color z (rb_color s p) s))) = Some s'"
    "rep s' ?T fs" "is_rbt (plug ?T fs)" using erase_finish [OF assms] by blast
  have "rep s (Node a (z, Black) (Node b1 (q, Red) b2)) (FR t p c # fs)" using assms(1) by (simp add: rep_FL rep_FR)
  then have "rb_r s z = q" "q \<noteq> 0" by (auto simp: rep_def)
  moreover have "rb_valid s' (nds (plug t (FL p c (Node a (z, Black) (Node b1 (q, Red) b2)) # fs)))"
    unfolding rb_valid_def using s'(2,3) rep_plug [of s' ?T fs] by (intro exI [of _ "plug ?T fs"]) (simp add: nds_plug)
  ultimately show ?thesis using s'(1) by (simp add: Let_def)
qed

lemma erase_left_tail_rep:
  assumes "rep s t (FL p c (Node a (w, Black) b) # fs)" and "balanced t" and "ctx_ok (Suc (bh t)) Black (FL p c (Node a (w, Black) b) # fs)"
  shows "(\<exists>s'. erase_left_tail p w s = Some (Inr s') \<and> rb_valid s' (nds (plug t (FL p c (Node a (w, Black) b) # fs)))) \<or>
    (\<exists>s'. erase_left_tail p w s = Some (Inl s') \<and> rep s' (Node t (p, c) (Node a (w, Red) b)) fs \<and> col a = Black \<and> col b = Black)"
proof -
  have W: "rep s (Node a (w, Black) b) (FR t p c # fs)" using assms(1) by (simp add: rep_FL rep_FR)
  note w = rep_ptrs [OF W]
  have ca: "blk s (ptr a) \<longleftrightarrow> col a = Black" using rep_blk [of s a "FL w Black b # FR t p c # fs"] W by (simp add: rep_FL)
  have cb: "blk s (ptr b) \<longleftrightarrow> col b = Black" using rep_blk [of s b "FR a w Black # FR t p c # fs"] W by (simp add: rep_FR)
  have red: "\<exists>l x r. t = Node l (x, Red) r" if "col t = Red" for t using that by (cases t rule: col.cases) auto
  consider (both) "col a = Black" "col b = Black" | (outer) b1 q b2 where "b = Node b1 (q, Red) b2"
    | (inner) a1 z a2 where "a = Node a1 (z, Red) a2" "col b = Black"
    using red [of a] red [of b] by (cases "col a"; cases "col b") auto
  then show ?thesis
  proof cases
    case both
    then have "erase_left_tail p w s = Some (Inl (rb_set_red w s))" using w ca cb by (simp add: erase_left_tail_def)
    moreover have "rep (rb_set_red w s) (Node t (p, c) (Node a (w, Red) b)) fs" using rep_red [OF W] by (simp add: rep_FR)
    ultimately show ?thesis using both by blast
  next
    case outer
    then have "\<not> blk s (ptr b)" using cb by simp
    then show ?thesis using erase_final [OF assms [unfolded outer]] w outer by (auto simp: erase_left_tail_def)
  next
    case inner
    from erase_inner_red [OF assms(1,3) [unfolded inner(1)] inner(2)] obtain s1 where
      1: "rb_rotate_right w (rb_set_red w (rb_set_black z s)) = Some s1" "rep s1 t (FL p c (Node a1 (z, Black) (Node a2 (w, Red) b)) # fs)"
        "ctx_ok (Suc (bh t)) Black (FL p c (Node a1 (z, Black) (Node a2 (w, Red) b)) # fs)" by blast
    have "rb_r s1 p = z" using 1(2) by (simp add: rep_def)
    moreover have "\<not> blk s (ptr a)" "blk s (ptr b)" "z \<noteq> 0" using ca cb inner W by (auto simp: rep_def)
    ultimately show ?thesis using erase_final [OF 1(2) assms(2) 1(3)] 1(1) w inner(1) by (auto simp: erase_left_tail_def nds_plug)
  qed
qed

text \<open>The outcome of one round: finished, or the parent has become the node to look at.\<close>

definition round_ok :: "nat \<Rightarrow> rb_ptr \<Rightarrow> frame list \<Rightarrow> rb_ptr list \<Rightarrow> (rb_tree + rb_tree) option \<Rightarrow> bool" where
  "round_ok h p fs ns res \<longleftrightarrow>
     (\<exists>s'. res = Some (Inr s') \<and> rb_valid s' ns) \<or>
     (\<exists>s' l c r fs'. res = Some (Inl s') \<and> rep s' (Node l (p, c) r) fs' \<and> balanced (Node l (p, Black) r) \<and> bh l = h \<and>
        (c = Black \<longrightarrow> fs' = fs) \<and> ctx_ok (case c of Black \<Rightarrow> Suc (Suc h) | Red \<Rightarrow> Suc h) Black fs' \<and>
        nds (plug (Node l (p, c) r) fs') = ns)"

lemma erase_left_rep:
  assumes "rep s t (FL p c w # fs)" and "balanced t" and "ctx_ok (Suc (bh t)) Black (FL p c w # fs)"
  shows "round_ok (bh t) p fs (nds (plug t (FL p c w # fs))) (erase_left p s)"
proof -
  have p: "rb_r s p = ptr w" using assms(1) by (simp add: rep_def)
  have W: "rep s w (FR t p c # fs)" using assms(1) by (simp add: rep_FL rep_FR)
  obtain a x k b where w: "w = Node a (x, k) b" using assms(3) by (cases w rule: bh.cases) auto
  have x: "x \<noteq> 0" "rb_is_red s x \<longleftrightarrow> k = Red" using rep_ptrs [of s a x k b] W w by auto
  have ok: "round_ok (bh t) p fs (nds (plug t (FL p c w # fs))) (erase_left_tail p y s1)"
    if "rep s1 t (FL p c1 (Node a1 (y, Black) b1) # fs1)" "ctx_ok (Suc (bh t)) Black (FL p c1 (Node a1 (y, Black) b1) # fs1)"
      "c1 = Black \<longrightarrow> fs1 = fs" "nds (plug t (FL p c1 (Node a1 (y, Black) b1) # fs1)) = nds (plug t (FL p c w # fs))" for s1 c1 a1 y b1 fs1
    using erase_left_tail_rep [OF that(1) assms(2) that(2)]
  proof (elim disjE exE conjE)
    fix s' assume 1: "erase_left_tail p y s1 = Some (Inl s')" "rep s' (Node t (p, c1) (Node a1 (y, Red) b1)) fs1" "col a1 = Black" "col b1 = Black"
    have "balanced (Node t (p, Black) (Node a1 (y, Red) b1))" "ctx_ok (case c1 of Black \<Rightarrow> Suc (Suc (bh t)) | Red \<Rightarrow> Suc (bh t)) Black fs1"
      "nds (plug (Node t (p, c1) (Node a1 (y, Red) b1)) fs1) = nds (plug t (FL p c w # fs))"
      using assms(2) that(2,4) 1(3,4) ctx_ok_mono [of "Suc (bh t)" fs1] by (cases c1; simp add: nds_plug)+
    then show ?thesis unfolding round_ok_def using 1(1,2) that(3) by blast
  qed (use that(4) in \<open>auto simp: round_ok_def\<close>)
  show ?thesis
  proof (cases k)
    case Black
    then show ?thesis using ok [of s c a x b fs] assms w x p by (simp add: erase_left_def)
  next
    case Red
    from erase_red_sibling [OF assms(1,3) [unfolded w Red]] obtain s' where
      1: "rb_rotate_left p (rb_set_red p (rb_set_black x s)) = Some s'" "rep s' t (FL p Red a # FL x Black b # fs)"
        "ctx_ok (Suc (bh t)) Black (FL p Red a # FL x Black b # fs)" by blast
    obtain a1 y k1 b1 where a: "a = Node a1 (y, k1) b1" using 1(3) by (cases a rule: bh.cases) auto
    have "k1 = Black" "rb_r s' p = y" using 1(2,3) a by (auto simp: rep_def)
    then show ?thesis using ok [of s' Red a1 y b1 "FL x Black b # fs"] 1 a w x p Red by (auto simp: erase_left_def nds_plug)
  qed
qed

lemma flip_erase_tail: "erase_right_tail p w s = map_option (map_sum flip flip) (erase_left_tail p w (flip s))"
  by (cases "rb_rotate_left w (rb_set_red w (rb_set_black (rb_r s w) s))")
    (auto simp: erase_left_tail_def erase_right_tail_def flip_rotate flip_upd Let_def option.map_comp comp_def)

lemma flip_erase: "erase_right p s = map_option (map_sum flip flip) (erase_left p (flip s))"
  by (cases "rb_rotate_left p (flip (rb_set_red p (rb_set_black (rb_l s p) s)))")
    (auto simp: erase_left_def erase_right_def flip_erase_tail flip_rotate flip_upd Let_def)

lemma is_rbt_mirror [simp]: "is_rbt (mirror t) = is_rbt t"
  by (simp add: is_rbt_def)

lemma rb_valid_flip: "rb_valid (flip s) (rev ns) \<Longrightarrow> rb_valid s ns"
proof -
  assume "rb_valid (flip s) (rev ns)"
  then obtain T where "rep (flip s) T []" "is_rbt T" "nds T = rev ns" by (auto simp: rb_valid_def)
  then show ?thesis by (auto simp: rb_valid_def rep_flip intro!: exI [of _ "mirror T"])
qed

lemma round_ok_flip:
  assumes "round_ok h p (map mirror_frame fs) (rev ns) res"
  shows "round_ok h p fs ns (map_option (map_sum flip flip) res)"
proof -
  consider (stop) s' where "res = Some (Inr s')" "rb_valid s' (rev ns)"
    | (up) s' l c r fs' where "res = Some (Inl s')" "rep s' (Node l (p, c) r) fs'" "balanced (Node l (p, Black) r)" "bh l = h"
      "c = Black \<longrightarrow> fs' = map mirror_frame fs" "ctx_ok (case c of Black \<Rightarrow> Suc (Suc h) | Red \<Rightarrow> Suc h) Black fs'"
      "nds (plug (Node l (p, c) r) fs') = rev ns"
    using assms unfolding round_ok_def by blast
  then show ?thesis
  proof cases
    case stop
    then show ?thesis using rb_valid_flip [of "flip s'"] by (simp add: round_ok_def)
  next
    case up
    let ?t = "Node (mirror r) (p, c) (mirror l)" and ?fs = "map mirror_frame fs'"
    have "rep (flip s') ?t ?fs" using up(2) by (simp add: rep_flip)
    moreover have "balanced (Node (mirror r) (p, Black) (mirror l))" "bh (mirror r) = h" using up(3,4) by (auto simp: bh_mirror)
    moreover have "c = Black \<longrightarrow> ?fs = fs" using up(5) by simp
    moreover have "nds (plug ?t ?fs) = ns" using nds_plug_mirror [of "Node l (p, c) r" fs'] up(7) by simp
    ultimately show ?thesis using up(1,6) ctx_ok_mirror unfolding round_ok_def
      by (intro disjI2 exI [of _ "flip s'"] exI [of _ "mirror r"] exI [of _ c] exI [of _ "mirror l"] exI [of _ ?fs]) simp
  qed
qed

lemma erase_right_rep:
  assumes "rep s t (FR w p c # fs)" and "balanced t" and "ctx_ok (Suc (bh t)) Black (FR w p c # fs)"
  shows "round_ok (bh t) p fs (nds (plug t (FR w p c # fs))) (erase_right p s)"
proof -
  have "rep (flip s) (mirror t) (FL p c (mirror w) # map mirror_frame fs)" using assms(1) by (simp add: rep_flip)
  moreover have "ctx_ok (Suc (bh (mirror t))) Black (FL p c (mirror w) # map mirror_frame fs)"
    using assms(2,3) ctx_ok_mirror [of "Suc (bh t)" Black "FR w p c # fs"] by (simp add: bh_mirror)
  ultimately have "round_ok (bh (mirror t)) p (map mirror_frame fs) (nds (plug (mirror t) (FL p c (mirror w) # map mirror_frame fs))) (erase_left p (flip s))"
    using assms(2) by (intro erase_left_rep) simp_all
  moreover have "nds (plug (mirror t) (FL p c (mirror w) # map mirror_frame fs)) = rev (nds (plug t (FR w p c # fs)))"
    using nds_plug_mirror [of t "FR w p c # fs"] by simp
  ultimately show ?thesis using round_ok_flip assms(2) by (simp add: flip_erase bh_mirror)
qed

lemma erase_stop_red:
  assumes "rep s (Node l (x, Red) r) fs" and "balanced (Node l (x, Black) r)" and "ctx_ok (Suc (bh l)) Black fs"
  shows "\<exists>s'. rb_erase_fixup x q s = Some s' \<and> rb_valid s' (nds (plug (Node l (x, Red) r) fs))"
proof -
  have "rb_erase_fixup x q s = Some (rb_set_black x s)"
    using rep_ptrs [OF assms(1)] by (subst rb_erase_fixup.simps) (simp add: blk_def blacken_def)
  moreover have "rb_valid (rb_set_black x s) (nds (plug (Node l (x, Red) r) fs))"
    unfolding rb_valid_def using rep_black [OF assms(1)] rep_plug assms(2,3)
    by (intro exI [of _ "plug (Node l (x, Black) r) fs"]) (auto simp: is_rbt_plug nds_plug)
  ultimately show ?thesis by blast
qed

lemma erase_stop_root:
  assumes "rep s t []" and "balanced t" and "col t = Black"
  shows "\<exists>s'. rb_erase_fixup (ptr t) q s = Some s' \<and> rb_valid s' (nds t)"
proof -
  have "rb_erase_fixup (ptr t) q s = Some (blacken (ptr t) s)"
    using rep_root [OF assms(1)] by (subst rb_erase_fixup.simps) simp
  moreover have "rep (blacken (ptr t) s) t []"
    using assms(1,3) rep_black [of s _ _ Black] by (cases t rule: ptr.cases) (auto simp: blacken_def rep_def)
  ultimately show ?thesis using assms(2,3) by (auto simp: rb_valid_def is_rbt_def)
qed

lemma root_above: "hole s p fs \<Longrightarrow> fs \<noteq> [] \<Longrightarrow> rb_root s \<noteq> 0 \<and> rb_root s \<in> set (before fs) \<union> set (after fs)"
  by (induction s p fs rule: hole.induct; case_tac fs) auto

lemma rb_valid_blacken: "rb_valid s ns \<Longrightarrow> rb_valid (blacken (rb_root s) s) ns"
proof -
  assume "rb_valid s ns"
  then obtain T where T: "rep s T []" "is_rbt T" "nds T = ns" by (auto simp: rb_valid_def)
  then have "rep (blacken (rb_root s) s) T []"
    using rep_black [of s _ _ Black] by (cases T rule: ptr.cases) (auto simp: blacken_def rep_root is_rbt_def)
  then show ?thesis using T by (auto simp: rb_valid_def)
qed

text \<open>A round of the loop at a black or absent node below the root.\<close>

lemma erase_round:
  assumes "rep s t (f # fs)" and "balanced t" and "ctx_ok (Suc (bh t)) Black (f # fs)" and "col t = Black"
  shows "\<exists>res p. round_ok (bh t) p fs (nds (plug t (f # fs))) res \<and>
    rb_erase_fixup (ptr t) (parent_of (f # fs)) s =
      Option.bind res (\<lambda>r. case r of Inl s \<Rightarrow> rb_erase_fixup p (rb_parent s p) s | Inr s \<Rightarrow> Some (blacken (rb_root s) s))"
proof -
  have b: "blk s (ptr t)" using rep_blk [OF assms(1)] assms(4) by simp
  have "rb_root s \<noteq> ptr t" using root_above [of s "ptr t" "f # fs"] ptr_mem [of t "rb_root s"] assms(1) by (auto simp: rep_def)
  then have step: "rb_erase_fixup (ptr t) p s =
      Option.bind (if rb_l s p = ptr t then erase_left p s else erase_right p s)
        (\<lambda>r. case r of Inl s \<Rightarrow> rb_erase_fixup p (rb_parent s p) s | Inr s \<Rightarrow> Some (blacken (rb_root s) s))" if "p \<noteq> 0" for p
    using b that by (subst rb_erase_fixup.simps) simp
  show ?thesis
  proof (cases f)
    case (FL p c w)
    then have "p \<noteq> 0" "rb_l s p = ptr t" using assms(1) by (auto simp: rep_def)
    then show ?thesis using step erase_left_rep [of s t p c w fs] assms FL
      by (intro exI [of _ "erase_left p s"] exI [of _ p]) simp
  next
    case (FR w p c)
    then have "w \<noteq> Leaf" using assms(3) by auto
    then have "p \<noteq> 0" "rb_l s p \<noteq> ptr t"
      using assms(1) FR tree_at_ptr [of s p w] ptr_in_nds [of w] ptr_mem [of t "ptr w"] by (auto simp: rep_def)
    then show ?thesis using step erase_right_rep [of s t w p c fs] assms FR
      by (intro exI [of _ "erase_right p s"] exI [of _ p]) simp
  qed
qed

lemma erase_fixup_rep:
  assumes "rep s t fs" and "balanced t" and "ctx_ok (Suc (bh t)) Black fs"
  shows "\<exists>s'. rb_erase_fixup (ptr t) (parent_of fs) s = Some s' \<and> rb_valid s' (nds (plug t fs))"
  using assms
proof (induction fs arbitrary: s t)
  case Nil
  show ?case
  proof (cases "col t")
    case Red
    then obtain l x r where "t = Node l (x, Red) r" by (cases t rule: col.cases) auto
    then show ?thesis using erase_stop_red [of s l x r "[]"] Nil by auto
  next
    case Black
    then show ?thesis using erase_stop_root [of s t] Nil by auto
  qed
next
  case (Cons f fs)
  show ?case
  proof (cases "col t")
    case Red
    then obtain l x r where "t = Node l (x, Red) r" by (cases t rule: col.cases) auto
    then show ?thesis using erase_stop_red [of s l x r "f # fs"] Cons.prems by auto
  next
    case Black
    from erase_round [OF Cons.prems Black] obtain res p where
      R: "round_ok (bh t) p fs (nds (plug t (f # fs))) res" "rb_erase_fixup (ptr t) (parent_of (f # fs)) s =
        Option.bind res (\<lambda>r. case r of Inl s \<Rightarrow> rb_erase_fixup p (rb_parent s p) s | Inr s \<Rightarrow> Some (blacken (rb_root s) s))" by blast
    show ?thesis using R(1) unfolding round_ok_def
    proof (elim disjE exE conjE)
      fix s' assume "res = Some (Inr s')" "rb_valid s' (nds (plug t (f # fs)))"
      then show ?thesis using R(2) rb_valid_blacken by auto
    next
      fix s' l c r fs'
      assume 1: "res = Some (Inl s')" "rep s' (Node l (p, c) r) fs'" "balanced (Node l (p, Black) r)" "bh l = bh t" "c = Black \<longrightarrow> fs' = fs"
        "ctx_ok (case c of Black \<Rightarrow> Suc (Suc (bh t)) | Red \<Rightarrow> Suc (bh t)) Black fs'" "nds (plug (Node l (p, c) r) fs') = nds (plug t (f # fs))"
      have n: "rb_erase_fixup (ptr t) (parent_of (f # fs)) s = rb_erase_fixup p (parent_of fs') s'" using R(2) 1(1) rep_ptrs(3) [OF 1(2)] by simp
      show ?thesis
      proof (cases c)
        case Red
        then show ?thesis using erase_stop_red [of s' l p r fs'] 1 n by auto
      next
        case Black
        then show ?thesis using Cons.IH [of s' "Node l (p, Black) r"] 1 n by auto
      qed
    qed
  qed
qed

lemma locate: "x \<in> set (nds T) \<Longrightarrow> \<exists>l c r fs. T = plug (Node l (x, c) r) fs"
proof (induction T)
  case (Node l ac r)
  obtain a c where ac: "ac = (a, c)" by (cases ac)
  then consider "x = a" | "x \<in> set (nds l)" | "x \<in> set (nds r)" using Node.prems by auto
  then show ?case
  proof cases
    case 1
    then show ?thesis using ac by (metis plug.simps(1))
  next
    case 2
    then obtain l' c' r' fs where "l = plug (Node l' (x, c') r') fs" using Node.IH(1) by blast
    then have "Node l ac r = plug (Node l' (x, c') r') (fs @ [FL a c r])" using ac by (simp add: plug_append)
    then show ?thesis by blast
  next
    case 3
    then obtain l' c' r' fs where "r = plug (Node l' (x, c') r') fs" using Node.IH(2) by blast
    then have "Node l ac r = plug (Node l' (x, c') r') (fs @ [FR l a c])" using ac by (simp add: plug_append)
    then show ?thesis by blast
  qed
qed simp

lemma ctx_ok_rename: "ctx_ok h k (ds @ FR l x c # fs) = ctx_ok h k (ds @ FR l y c # fs)"
  by (induction ds arbitrary: h k) (simp, case_tac a, auto)

text \<open>What remains after a node of colour \<open>c\<close> was taken out above \<open>t\<close>.\<close>

lemma erase_rest:
  assumes "rep s t fs" and "balanced t" and "ctx_ok (case c of Black \<Rightarrow> Suc (bh t) | Red \<Rightarrow> bh t) c fs" and "c = Red \<longrightarrow> col t = Black"
  shows "\<exists>s'. (if color_bit c = 1 then rb_erase_fixup (ptr t) (parent_of fs) s else Some s) = Some s' \<and> rb_valid s' (nds (plug t fs))"
proof (cases c)
  case Red
  then have "is_rbt (plug t fs)" using assms ctx_ok_mono by (auto simp: is_rbt_plug)
  then show ?thesis using Red assms(1) rep_plug by (auto simp: rb_valid_def)
next
  case Black
  then show ?thesis using erase_fixup_rep [OF assms(1,2)] assms(3) by simp
qed

lemma rb_erase_rep:
  assumes "rb_valid s ns" and "x \<in> set ns"
  shows "\<exists>s'. rb_erase x s = Some s' \<and> rb_valid s' (remove1 x ns)"
proof -
  obtain T where T0: "rep s T []" "is_rbt T" "nds T = ns" using assms(1) by (auto simp: rb_valid_def)
  obtain l c r fs where lr: "T = plug (Node l (x, c) r) fs" using locate [of x T] T0(3) assms(2) by blast
  have T: "rep s (Node l (x, c) r) fs" "is_rbt (plug (Node l (x, c) r) fs)" "ns = before fs @ nds l @ x # nds r @ after fs"
    using T0 rep_plug [of s "Node l (x, c) r" fs] by (auto simp: lr nds_plug)
  have ns: "remove1 x ns = before fs @ nds l @ nds r @ after fs" using T(1,3) by (auto simp: rep_def remove1_append)
  have B: "balanced (Node l (x, c) r)" "ctx_ok (bh (Node l (x, c) r)) c fs" using T(2) by (auto simp: is_rbt_plug)
  note p = rep_ptrs [OF T(1)]
  have z: "ptr l = 0 \<longleftrightarrow> l = Leaf" "ptr r = 0 \<longleftrightarrow> r = Leaf" using T(1) tree_at_ptr by (auto simp: rep_def)
  have single: ?thesis if t: "l = Leaf \<and> t = r \<or> r = Leaf \<and> t = l" for t
  proof -
    obtain s' where s': "unlink_single x (ptr t) s = (ptr t, parent_of fs, color_bit c, s')" "rep s' t fs" using unlink_single_rep [OF T(1) t] by blast
    have "\<exists>s''. (if color_bit c = 1 then rb_erase_fixup (ptr t) (parent_of fs) s' else Some s') = Some s'' \<and> rb_valid s'' (nds (plug t fs))"
      using t B by (intro erase_rest [OF s'(2)]) (auto split: color.splits)
    moreover have "remove1 x ns = nds (plug t fs)" using t by (auto simp: ns nds_plug)
    ultimately show ?thesis using s'(1) t p z by (auto simp: rb_erase_def)
  qed
  show ?thesis
  proof (cases "l = Leaf \<or> r = Leaf")
    case True
    then show ?thesis using single by blast
  next
    case False
    obtain y cy rr ds where y: "rb_leftmost s (ptr r) = Some y" "r = plug (Node Leaf (y, cy) rr) ds" "all_left ds"
      using leftmost_rep [of s x r] T(1) False by (auto simp: rep_def)
    let ?fs = "ds @ FR l y c # fs"
    obtain s' where s': "unlink_double x y s = (ptr rr, parent_of ?fs, color_bit cy, s')" "rep s' rr ?fs"
      using unlink_double_rep [of s l x c y cy rr ds fs] T(1) y False by auto
    have "is_rbt (plug (Node Leaf (y, cy) rr) (ds @ FR l x c # fs))" using T(2) y(2) by (simp add: plug_append)
    then have "\<exists>s''. (if color_bit cy = 1 then rb_erase_fixup (ptr rr) (parent_of ?fs) s' else Some s') = Some s'' \<and> rb_valid s'' (nds (plug rr ?fs))"
      using ctx_ok_rename [of _ _ ds l x c fs y] by (intro erase_rest [OF s'(2)]) (auto simp: is_rbt_plug split: color.splits)
    moreover have "remove1 x ns = nds (plug rr ?fs)" using y(2,3) by (simp add: ns nds_plug before_append all_left_before)
    ultimately show ?thesis using s'(1) y(1) p z False by (auto simp: rb_erase_def)
  qed
qed

lemma rb_search_rep:
  assumes "cmp_by cmp key" and "rb_valid s ns" and "sorted (map key ns)"
  shows "\<exists>n. rb_search cmp k s = Some n \<and> found key k ns n"
proof -
  obtain T where T: "rep s T []" "nds T = ns" using assms(2) by (auto simp: rb_valid_def)
  then have "rb_search cmp k s = rb_search_from cmp k s (ptr T)" by (simp add: rb_search_def rep_root)
  then show ?thesis using search_from_rep [OF assms(1), of s 0 T k] T assms(3) by (auto simp: rep_def)
qed

lemma rb_valid_nodes: "rb_valid s ns \<Longrightarrow> distinct ns \<and> (\<forall>n\<in>set ns. n \<noteq> 0)"
proof -
  have "tree_at s p t \<Longrightarrow> n \<in> set (nds t) \<Longrightarrow> n \<noteq> 0" for p t n by (induction s p t rule: tree_at.induct) auto
  then show "rb_valid s ns \<Longrightarrow> ?thesis" by (auto simp: rb_valid_def rep_def)
qed

lemma rb_valid_empty: "rb_root s = 0 \<Longrightarrow> rb_valid s []"
  by (auto simp: rb_valid_def rep_def is_rbt_def intro!: exI [of _ Leaf])

subsection \<open>The interface of an ordered index\<close>

lemma insert_after_set [simp]: "set (insert_after key x xs) = insert x (set xs)"
  by (auto simp: insert_after_def dest: set_takeWhileD set_dropWhileD) (metis UnE set_append takeWhile_dropWhile_id)

lemma insert_after_length [simp]: "length (insert_after key x xs) = Suc (length xs)"
proof -
  have "length (takeWhile P xs) + length (dropWhile P xs) = length xs" for P by (metis length_append takeWhile_dropWhile_id)
  then show ?thesis by (simp add: insert_after_def)
qed

lemma insert_after_sorted:
  assumes "sorted (map key xs)"
  shows "sorted (map key (insert_after key x xs))"
  using assms
proof (induction xs)
  case (Cons y ys)
  then show ?case by (auto simp: insert_after_def dest: set_takeWhileD set_dropWhileD)
qed (simp add: insert_after_def)

lemma insert_after_cong: "(\<And>a. a \<in> insert x (set xs) \<Longrightarrow> key a = key' a) \<Longrightarrow> insert_after key x xs = insert_after key' x xs"
  unfolding insert_after_def by (simp cong: takeWhile_cong dropWhile_cong)

datatype index_op = Ins rb_ptr | Del rb_ptr | Find rb_ptr | First

text \<open>Running operations of an index, collecting what they answer.\<close>

fun index_step ::
  "(rb_ptr \<Rightarrow> 's \<Rightarrow> 's option) \<Rightarrow> (rb_ptr \<Rightarrow> 's \<Rightarrow> 's option) \<Rightarrow> (rb_ptr \<Rightarrow> 's \<Rightarrow> rb_ptr option) \<Rightarrow> ('s \<Rightarrow> rb_ptr option) \<Rightarrow>
     index_op \<Rightarrow> 's \<Rightarrow> (rb_ptr \<times> 's) option" where
  "index_step ins del find_key least (Ins x) s = map_option (Pair x) (ins x s)"
| "index_step ins del find_key least (Del x) s = map_option (Pair x) (del x s)"
| "index_step ins del find_key least (Find k) s = map_option (\<lambda>n. (n, s)) (find_key k s)"
| "index_step ins del find_key least First s = map_option (\<lambda>n. (n, s)) (least s)"

fun run_index :: "(index_op \<Rightarrow> 's \<Rightarrow> (rb_ptr \<times> 's) option) \<Rightarrow> index_op list \<Rightarrow> 's \<Rightarrow> (rb_ptr list \<times> 's) option" where
  "run_index f [] s = Some ([], s)"
| "run_index f (p # ps) s =
     Option.bind (f p s) (\<lambda>(r, s). Option.bind (run_index f ps s) (\<lambda>(rs, s). Some (r # rs, s)))"

text \<open>The same operations on a list of nodes: when they are allowed, the list they leave, and the right answer.\<close>

fun op_ok :: "(rb_ptr \<Rightarrow> bool) \<Rightarrow> rb_ptr list \<Rightarrow> index_op \<Rightarrow> bool" where
  "op_ok good ns (Ins x) \<longleftrightarrow> good x \<and> x \<notin> set ns"
| "op_ok good ns (Del x) \<longleftrightarrow> x \<in> set ns"
| "op_ok good ns _ \<longleftrightarrow> True"

fun op_list :: "(rb_ptr \<Rightarrow> 'k::linorder) \<Rightarrow> index_op \<Rightarrow> rb_ptr list \<Rightarrow> rb_ptr list" where
  "op_list key (Ins x) ns = insert_after key x ns"
| "op_list key (Del x) ns = remove1 x ns"
| "op_list key _ ns = ns"

fun op_answer :: "(rb_ptr \<Rightarrow> 'k::linorder) \<Rightarrow> rb_ptr list \<Rightarrow> index_op \<Rightarrow> rb_ptr \<Rightarrow> bool" where
  "op_answer key ns (Find k) n \<longleftrightarrow> found key k ns n"
| "op_answer key ns First n \<longleftrightarrow> n = (case ns of [] \<Rightarrow> 0 | m # _ \<Rightarrow> m)"
| "op_answer key ns (Ins x) n \<longleftrightarrow> n = x"
| "op_answer key ns (Del x) n \<longleftrightarrow> n = x"

fun history_ok :: "(rb_ptr \<Rightarrow> bool) \<Rightarrow> (rb_ptr \<Rightarrow> 'k::linorder) \<Rightarrow> rb_ptr list \<Rightarrow> index_op list \<Rightarrow> bool" where
  "history_ok good key ns [] \<longleftrightarrow> True"
| "history_ok good key ns (p # ps) \<longleftrightarrow> op_ok good ns p \<and> history_ok good key (op_list key p ns) ps"

fun answers_ok :: "(rb_ptr \<Rightarrow> 'k::linorder) \<Rightarrow> rb_ptr list \<Rightarrow> index_op list \<Rightarrow> rb_ptr list \<Rightarrow> bool" where
  "answers_ok key ns [] rs \<longleftrightarrow> rs = []"
| "answers_ok key ns (p # ps) rs \<longleftrightarrow> (\<exists>r rs'. rs = r # rs' \<and> op_answer key ns p r \<and> answers_ok key (op_list key p ns) ps rs')"

text \<open>
  The contract a client of the index relies on. \<open>null\<close> is the answer for absence and \<open>good\<close> what may
  be inserted; the index holds its nodes ordered by key, later insertions behind earlier ones.
\<close>

locale ordered_index =
  fixes valid :: "'s \<Rightarrow> rb_ptr list \<Rightarrow> bool"
    and good :: "rb_ptr \<Rightarrow> bool"
    and key :: "rb_ptr \<Rightarrow> 'k::linorder"
    and ins :: "rb_ptr \<Rightarrow> 's \<Rightarrow> 's option"
    and del :: "rb_ptr \<Rightarrow> 's \<Rightarrow> 's option"
    and find_key :: "rb_ptr \<Rightarrow> 's \<Rightarrow> rb_ptr option"
    and least :: "'s \<Rightarrow> rb_ptr option"
  assumes ins_law: "valid s ns \<Longrightarrow> sorted (map key ns) \<Longrightarrow> good x \<Longrightarrow> x \<notin> set ns \<Longrightarrow> \<exists>s'. ins x s = Some s' \<and> valid s' (insert_after key x ns)"
    and del_law: "valid s ns \<Longrightarrow> x \<in> set ns \<Longrightarrow> \<exists>s'. del x s = Some s' \<and> valid s' (remove1 x ns)"
    and find_law: "valid s ns \<Longrightarrow> sorted (map key ns) \<Longrightarrow> \<exists>n. find_key k s = Some n \<and> found key k ns n"
    and least_law: "valid s ns \<Longrightarrow> least s = Some (case ns of [] \<Rightarrow> 0 | n # _ \<Rightarrow> n)"
begin

lemma step_refines:
  assumes "valid s ns" and "sorted (map key ns)" and "op_ok good ns p"
  shows "\<exists>r s'. index_step ins del find_key least p s = Some (r, s') \<and> valid s' (op_list key p ns) \<and> sorted (map key (op_list key p ns)) \<and> op_answer key ns p r"
proof (cases p)
  case (Ins x)
  then show ?thesis using ins_law [OF assms(1,2), of x] assms(3) insert_after_sorted [OF assms(2), of x] by auto
next
  case (Del x)
  then show ?thesis using del_law [OF assms(1), of x] assms(3) sorted_map_remove1 [OF assms(2), of x] by auto
next
  case (Find k)
  then show ?thesis using find_law [OF assms(1,2), of k] assms by auto
next
  case First
  then show ?thesis using least_law [OF assms(1)] assms by auto
qed

lemma history_refines:
  assumes "valid s ns" and "sorted (map key ns)" and "history_ok good key ns ps"
  shows "\<exists>rs s'. run_index (index_step ins del find_key least) ps s = Some (rs, s') \<and> valid s' (fold (op_list key) ps ns) \<and> answers_ok key ns ps rs"
  using assms
proof (induction ps arbitrary: s ns)
  case (Cons p ps)
  obtain r s1 where p: "index_step ins del find_key least p s = Some (r, s1)" "valid s1 (op_list key p ns)" "sorted (map key (op_list key p ns))" "op_answer key ns p r"
    using step_refines [OF Cons.prems(1,2), of p] Cons.prems(3) by auto
  obtain rs s' where "run_index (index_step ins del find_key least) ps s1 = Some (rs, s')" "valid s' (fold (op_list key) ps (op_list key p ns))" "answers_ok key (op_list key p ns) ps rs"
    using Cons.IH [OF p(2,3)] Cons.prems(3) by auto
  then show ?case using p by auto
qed simp

end

text \<open>Comparison by a key, and the red-black tree as an ordered index under it.\<close>

definition key_cmp :: "(rb_ptr \<Rightarrow> 'k::linorder) \<Rightarrow> rb_ptr \<Rightarrow> rb_ptr \<Rightarrow> int" where
  "key_cmp key a b = (if key a < key b then -1 else if key b < key a then 1 else 0)"

definition node_ok :: "rb_ptr \<Rightarrow> bool" where
  "node_ok x \<longleftrightarrow> x \<noteq> 0 \<and> aligned x"

lemma cmp_by_key: "cmp_by (key_cmp key) key"
  by (auto simp: cmp_by_def key_cmp_def)

interpretation rb_index: ordered_index rb_valid node_ok key "rb_insert (key_cmp key)" rb_erase "rb_search (key_cmp key)" rb_first for key
  by unfold_locales (auto simp: node_ok_def rb_insert_rep [OF cmp_by_key] rb_erase_rep rb_search_rep [OF cmp_by_key] rb_first_rep)

subsection \<open>Replacing a node\<close>

text \<open>
  \<open>rb_replace\<close> copies the links of the old node into the new one but leaves the parent pointers of the
  children: they still lead to the old node. No caller uses it.
\<close>

lemma rb_replace_parent: "z \<noteq> y \<Longrightarrow> rb_parent (rb_replace x y s) z = rb_parent s z"
  by (simp add: rb_replace_def Let_def)

lemma rb_valid_parent: "rb_valid s ns \<Longrightarrow> z \<in> set ns \<Longrightarrow> rb_parent s z \<in> set ns \<or> rb_parent s z = 0"
proof -
  assume "rb_valid s ns" and z: "z \<in> set ns"
  then obtain T where T: "rep s T []" "nds T = ns" by (auto simp: rb_valid_def)
  obtain l c r fs where "T = plug (Node l (z, c) r) fs" using locate [of z T] z T(2) by blast
  then have "rep s (Node l (z, c) r) fs" "ns = before fs @ nds (Node l (z, c) r) @ after fs"
    using T rep_plug [of s "Node l (z, c) r" fs] nds_plug by auto
  then show ?thesis using rep_ptrs(3) parent_of_in [of fs] by (cases "fs = []") auto
qed

lemma rb_replace_leaf_rep:
  assumes "rep s (Node Leaf (x, c) Leaf) fs" and "y \<noteq> 0" and "aligned y" and "y \<notin> set (before fs) \<union> set (after fs)" and "y \<noteq> x"
  shows "rep (rb_replace x y s) (Node Leaf (y, c) Leaf) fs"
proof -
  note P = rep_ptrs [OF assms(1)]
  have h: "hole s x fs" "distinct (before fs @ x # after fs)" using assms(1) by (auto simp: rep_def)
  have n: "x \<noteq> parent_of fs \<or> parent_of fs = 0" using parent_of_notin [of fs "[x]"] h(2) by auto
  have "rb_replace x y s = rb_copy_pc y x (set_right y 0 (set_left y 0 (relink_left_first (parent_of fs) x y s)))"
    using P n assms(5) by (auto simp: rb_replace_def Let_def)
  then show ?thesis using relink_hole(1) [OF h(1) P(6) h(2), of y] P assms(2-5) h(2) by (simp add: rep_def)
qed

text \<open>The replacement succeeds exactly for nodes without children.\<close>

lemma rb_replace_valid:
  assumes "rb_valid s ns" and "x \<in> set ns" and "y \<notin> set ns" and "y \<noteq> 0" and "aligned y"
  shows "rb_valid (rb_replace x y s) (map (\<lambda>z. if z = x then y else z) ns) \<longleftrightarrow> rb_l s x = 0 \<and> rb_r s x = 0"
proof -
  obtain T where T: "rep s T []" "is_rbt T" "nds T = ns" using assms(1) by (auto simp: rb_valid_def)
  obtain l c r fs where L: "T = plug (Node l (x, c) r) fs" using locate [of x T] assms(2) T(3) by blast
  have R: "rep s (Node l (x, c) r) fs" and ns: "ns = before fs @ nds l @ x # nds r @ after fs"
    using T L rep_plug [of s "Node l (x, c) r" fs] nds_plug by auto
  have d: "distinct ns" "x \<noteq> 0" using rb_valid_nodes [OF assms(1)] assms(2) by auto
  have tr: "tree_at s x l" "tree_at s x r" using R by (auto simp: rep_def)
  note P = rep_ptrs [OF R]
  show ?thesis
  proof (cases "l = Leaf \<and> r = Leaf")
    case True
    have "rep (rb_replace x y s) (Node Leaf (y, c) Leaf) fs"
      using rb_replace_leaf_rep [of s x c fs y] R True assms(2-5) ns by auto
    then have "rep (rb_replace x y s) (plug (Node Leaf (y, c) Leaf) fs) []" using rep_plug by blast
    moreover have "is_rbt (plug (Node Leaf (y, c) Leaf) fs)" using T(2) L True by (simp add: is_rbt_plug)
    moreover have "nds (plug (Node Leaf (y, c) Leaf) fs) = map (\<lambda>z. if z = x then y else z) ns"
      using d(1) True unfolding ns nds_plug by (auto intro!: map_idI [symmetric])
    ultimately show ?thesis using P True by (auto simp: rb_valid_def)
  next
    case False
    then obtain t where t: "t \<noteq> Leaf" "t = l \<or> t = r" by blast
    have z: "ptr t \<in> set ns" "ptr t \<noteq> x" using t ptr_in_nds [OF t(1)] ns d(1) by auto
    have "tree_at s x t" using t(2) tr by blast
    then have "rb_parent s (ptr t) = x" using t(1) by (cases t rule: ptr.cases) auto
    note z = z this
    have "\<not> rb_valid (rb_replace x y s) (map (\<lambda>z. if z = x then y else z) ns)"
    proof
      assume v: "rb_valid (rb_replace x y s) (map (\<lambda>z. if z = x then y else z) ns)"
      have "ptr t \<in> set (map (\<lambda>z. if z = x then y else z) ns)" using z(1,2) by force
      moreover have "rb_parent (rb_replace x y s) (ptr t) = x" using rb_replace_parent [of "ptr t" y x s] z assms(3) by metis
      ultimately show False using rb_valid_parent [OF v] d(2) assms(2,3) by force
    qed
    then show ?thesis using P False tree_at_ptr tr by auto
  qed
qed

subsection \<open>Properties\<close>

text \<open>
  C7. Well-formedness: on a store that holds a red-black tree whose nodes are ordered by key (parent and
  child pointers agree, no red node has a red child, all paths have the same number of black nodes),
  an insertion of a fresh node, the removal of a member, a search and the query for the least node
  return, leave such a tree with exactly the expected nodes in order, and answer correctly. The
  fifth operation, \<open>rb_replace\<close> of a member by a fresh node, leaves such a tree with the new node in
  the place of the old one exactly when the old node has no children.
\<close>

theorem rb_ops_preserve:
  assumes "rb_valid s ns"
  shows "(sorted (map key ns) \<and> op_ok node_ok ns p \<longrightarrow>
      (\<exists>r s'. index_step (rb_insert (key_cmp key)) rb_erase (rb_search (key_cmp key)) rb_first p s = Some (r, s') \<and>
        rb_valid s' (op_list key p ns) \<and> op_answer key ns p r)) \<and>
    (x \<in> set ns \<and> node_ok y \<and> y \<notin> set ns \<longrightarrow>
      (rb_valid (rb_replace x y s) (map (\<lambda>z. if z = x then y else z) ns) \<longleftrightarrow> rb_l s x = 0 \<and> rb_r s x = 0))"
  using rb_index.step_refines [OF assms] rb_replace_valid [OF assms] unfolding node_ok_def by blast

definition rb_demo :: rb_tree where
  "rb_demo = \<lparr>rb_root = 2, rb_nodes = (\<lambda>_. \<lparr>rb_parent_color = 1, rb_right = 0, rb_left = 0\<rparr>)\<rparr>"

lemma rb_demo_valid: "rb_valid rb_demo [2]"
  unfolding rb_valid_def
  by (intro exI [of _ "Node Leaf (2, Black) Leaf"])
    (simp add: rep_def is_rbt_def rb_demo_def rb_parent_def rb_color_def rb_l_def rb_r_def aligned_def)

theorem rb_ops_preserve_witness:
  "(\<exists>s'. rb_insert (key_cmp unat) 4 rb_demo = Some s' \<and> rb_valid s' [2, 4]) \<and> (\<exists>s'. rb_erase 2 rb_demo = Some s' \<and> rb_valid s' []) \<and>
   rb_valid (rb_replace 2 6 rb_demo) [6]"
proof -
  have i: "insert_after unat 4 [2] = [2, 4 :: rb_ptr]" by (simp add: insert_after_def)
  show ?thesis
    using rb_ops_preserve [OF rb_demo_valid, of unat "Ins 4" 2 6] rb_ops_preserve [OF rb_demo_valid, of unat "Del 2" 2 6] i
    by (auto simp: node_ok_def aligned_def rb_demo_def rb_l_def rb_r_def)
qed

text \<open>
  C8. Histories: starting from an empty root, every sequence of insertions of fresh nodes, removals
  of members, searches and minimum queries returns, with the answers and the content of an ordered
  list in which a new node goes behind the nodes of equal key.
\<close>

theorem rb_history_correct:
  assumes "rb_root s = 0" and "history_ok node_ok key [] ps"
  shows "\<exists>rs s'. run_index (index_step (rb_insert (key_cmp key)) rb_erase (rb_search (key_cmp key)) rb_first) ps s = Some (rs, s') \<and>
    rb_valid s' (fold (op_list key) ps []) \<and> answers_ok key [] ps rs"
  using rb_index.history_refines [OF rb_valid_empty [OF assms(1)] _ assms(2)] by simp

theorem rb_history_correct_witness:
  "\<exists>rs s'. run_index (index_step (rb_insert (key_cmp unat)) rb_erase (rb_search (key_cmp unat)) rb_first)
       [Ins 6, Ins 2, Ins 4, First, Del 2, First] (rb_demo\<lparr>rb_root := 0\<rparr>) = Some (rs, s') \<and>
     rb_valid s' [4, 6] \<and> rs = [6, 2, 4, 2, 2, 4]"
proof -
  have "\<exists>rs s'. run_index (index_step (rb_insert (key_cmp unat)) rb_erase (rb_search (key_cmp unat)) rb_first)
       [Ins 6, Ins 2, Ins 4, First, Del 2, First] (rb_demo\<lparr>rb_root := 0\<rparr>) = Some (rs, s') \<and>
     rb_valid s' (fold (op_list unat) [Ins 6, Ins 2, Ins 4, First, Del 2, First] []) \<and>
     answers_ok unat [] [Ins 6, Ins 2, Ins 4, First, Del 2, First] rs"
    by (rule rb_history_correct) (simp_all add: node_ok_def aligned_def insert_after_def)
  then show ?thesis by (auto simp: insert_after_def)
qed

end
