(* ===== verification/Spec2Isabelle.thy ===== *)
theory Spec2Isabelle
  imports Bfc_Init File_Lock Vma Wait_Queue Kfifo Event_Files Lost_Wakeup Futex Kvformat Rbtree
begin

text \<open>
  A verification library for the kernel under \<open>src/\<close>.

  \<^bold>\<open>The program.\<close> The kernel has a core (\<open>kernel/xcore\<close>: physical memory, address-space regions, wait
  queues, scheduling, logging), a Unix personality on top of it (\<open>kernel/bsd\<close>: descriptors, files,
  locks, futexes, signals, file systems, sockets), drivers (\<open>kernel/driver\<close>) and processor support
  (\<open>arch/x64\<close>); \<open>utils\<close> is shared with user space. The library models the components whose behaviour is
  determined by their own data structures and locks.

  \<^bold>\<open>Theories, in the order they build on each other.\<close>

  \<^item> \<open>Prelude\<close>: error numbers, the result type \<open>errno + 'a\<close>, unsigned and signed C arithmetic with its
    wrap-around written out (\<open>add64\<close>, \<open>sub64\<close>, \<open>mul64\<close>, \<open>wrap32s\<close>), an allocator that may fail, sequences
    of operations, and the locale \<open>refinement\<close> (a concrete machine that returns what an abstract one returns).

  \<^item> \<open>Bfc\<close>: the page allocator of \<open>kernel/xcore/mem/alloc.c\<close>. The state \<open>bfc_state\<close> is the descriptor
    array, the head of the free list and the usage counter. \<open>bfc_alloc_page\<close>, \<open>bfc_alloc_page_low\<close>,
    \<open>bfc_free_page\<close> and \<open>bfc_free_page_nums\<close> follow the code pointer by pointer. They refine first fit
    and coalescing insertion on a list of blocks; the locale \<open>page_allocator\<close> derives, from what one
    operation promises, that over every history held runs are disjoint and no page is lost.

  \<^item> \<open>Bfc_Init\<close>: \<open>init_mem\<close> and the bump allocator of \<open>arch/x64/paging.c\<close>. The free list built from the
    EFI memory map satisfies the allocator's invariant and holds exactly the usable pages.

  \<^item> \<open>Vma\<close>: the region list of a process (\<open>kernel/xcore/mem/vma.c\<close>): lookup, insertion, splitting,
    merging, \<open>mprotect\<close>, \<open>munmap\<close>, gap search. A region list means a function from addresses to
    attributes; the locale \<open>range_action\<close> proves the walk shared by protection and unmapping once. The
    reference counts of the backing objects are part of the state, so the history theorem shows that
    no failing path leaks a reference.

  \<^item> \<open>File_Lock\<close>: POSIX, open-file-description and BSD locks (\<open>kernel/bsd/file_lock.c\<close>). Lists of byte
    ranges with an allocator that may fail at any point; \<open>lock_section\<close> is the contract of one attempt
    under the lock, from which the behaviour of the blocking loop follows. A blocked request runs again
    only when a release wakes the inode's queue, a timer expires or a signal comes: a release while it
    sleeps is shown to wake it, and one between its check and its sleep to be missed.

  \<^item> \<open>Wait_Queue\<close>: \<open>list.h\<close> and \<open>wait_queue.c\<close> on a store of nodes; \<open>__wake_up\<close> is a partial function
    that is shown to return. The locale \<open>waiters\<close> is what clients use.

  \<^item> \<open>Kfifo\<close>: the ring of \<open>kernel/bsd/kfifo.c\<close> on bytes, its refinement of a bounded queue, and its use by
    one producer and one consumer as a step relation.

  \<^item> \<open>Event_Files\<close>: descriptor tables, eventfd, timerfd, signalfd and their readiness
    (\<open>eventfd.c\<close>, \<open>timerfd.c\<close>, \<open>signalfd.c\<close>, parts of \<open>file_poll.c\<close>, \<open>file_wq.c\<close>, \<open>proc.c\<close>, \<open>types.h\<close>). The locale
    \<open>pollable\<close> connects readiness with the retry loops.

  \<^item> \<open>Lost_Wakeup\<close>: the same eventfd with every shared access a step of its own, any number of tasks, and
    the wait queue of \<open>Wait_Queue\<close>: no wake-up is lost once the queue exists, and its unlocked lazy
    allocation can lose one.

  \<^item> \<open>Futex\<close>: \<open>sys_futex\<close> and the robust lists (\<open>kernel/bsd/futex.c\<close>). Batched wake-up equals one pass; the
    queues stay consistent under any sequence of the code's own sections, so that no wait returns
    linked; the requeue loop is characterised, including when it does not end.

  \<^item> \<open>Kvformat\<close>: the kernel build of \<open>utils/kvformat.c\<close>, with \<open>vsnprintf\<close> and the serial line buffer. Digits
    and padding are stored into the local buffer one by one, and a store beyond it is undefined.

  \<^item> \<open>Rbtree\<close>: the intrusive red-black tree of \<open>kernel/xcore/rbtree.c\<close> on a store of nodes with the colour
    in the low bit of the parent word. The interface \<open>ordered_index\<close> (insert, remove, search, minimum on
    an ordered list) is interpreted on it; replacing a node is right for nodes without children only.

  \<^bold>\<open>Conventions.\<close> A pointer is an index into a store and NULL is \<open>None\<close>, or 0 where the code stores
  addresses. \<open>None\<close> as the value of an operation means that it does not return or leaves defined
  behaviour; an error code is \<open>Inl\<close>. \<open>kmalloc\<close> may fail at every call. What a spin lock protects is one
  step. A call that sleeps takes what the rest of the system does meanwhile as an argument.

  \<^bold>\<open>Bounds and fuel.\<close> Loops over user- or pointer-controlled data that need not end are partial
  functions, and their return is proved (page lists, wait queues, \<open>FUTEX_REQUEUE\<close>). The robust-list
  walk has the code's own bound of 2048 nodes. A blocking call consumes one element of its environment
  list for each sleep; liveness theorems state how many are enough. No other bound is imposed.

  \<^bold>\<open>Not modelled.\<close> Device drivers, trap entry, page tables and processor start-up act on registers and
  on memory the C semantics does not determine. The scheduler's context switch, RCU and work queues
  appear only through task states and atomic sections. The slab allocator is represented by its
  contract. The file systems, sockets, terminals, epoll, inotify, signals beyond signalfd, process creation and the
  system-call layer are not modelled; user programs and the compositor are outside the
  kernel. The element ring is modelled under sequential consistency, not under a weak memory model.
\<close>

end
